(* ===== verification/Hs_Prelude.thy ===== *)
theory Hs_Prelude
  imports Main "HOL-Library.Word"
begin

text \<open>
  Shared vocabulary of the development: bytes and characters, the libuv status codes the
  program names, decimal rendering (\<^verbatim>\<open>std::to_string\<close>), the search of a string view, fixed
  width big-endian numerals in an arbitrary base (the arithmetic behind z-base-32, hex and
  the frame header), and the interfaces several components share: a codec with a left
  inverse, a destructor that is idempotent, and a machine with an invariant.
\<close>

section \<open>Types, characters, status codes\<close>

type_synonym byte = "8 word"
type_synonym u16 = "16 word"
type_synonym u32 = "32 word"
type_synonym u64 = "64 word"

text \<open>The simplification rules the component proofs share.\<close>

named_theorems hs_simps \<open>simplification rules shared by the component proofs\<close>

definition chr_code :: "char \<Rightarrow> nat" where
  "chr_code c = of_char c"

definition byte_of_char :: "char \<Rightarrow> byte" where
  "byte_of_char c = word_of_nat (of_char c)"

definition char_of_byte :: "byte \<Rightarrow> char" where
  "char_of_byte b = char_of (unat b)"

text \<open>
  The reinterpreting casts between a character range and a byte range
  (\<^verbatim>\<open>reinterpret_cast<const uint8_t*>\<close> and back).
\<close>

definition bytes_of_string :: "string \<Rightarrow> byte list" where
  "bytes_of_string s = map byte_of_char s"

definition string_of_bytes :: "byte list \<Rightarrow> string" where
  "string_of_bytes bs = map char_of_byte bs"

lemma of_char_less_256: "of_char c < (256 :: nat)"
proof -
  have "of_char c \<in> {0..<256 :: nat}"
    using range_nat_of_char by (metis rangeI atLeast0LessThan)
  then show ?thesis by simp
qed

lemma chr_code_less [simp]: "chr_code c < 256"
  by (simp add: chr_code_def of_char_less_256)

lemma chr_codes [hs_simps]:
  "chr_code CHR ''0'' = 48" "chr_code CHR ''9'' = 57" "chr_code CHR ''a'' = 97"
  "chr_code CHR ''f'' = 102" "chr_code CHR ''A'' = 65" "chr_code CHR ''F'' = 70"
  by (simp_all add: chr_code_def)

lemma char_of_chr_code [simp]: "char_of (chr_code c) = c"
  by (simp add: chr_code_def)

lemma chr_code_char_of [simp]: "n < 256 \<Longrightarrow> chr_code (char_of n) = n"
  by (simp add: chr_code_def)

lemma char_of_byte_of_char [simp]: "char_of_byte (byte_of_char c) = c"
  by (simp add: char_of_byte_def byte_of_char_def unat_of_nat of_char_less_256)

lemma byte_of_char_of_byte [simp]: "byte_of_char (char_of_byte b) = b"
proof -
  have "unat b < 2 ^ LENGTH(8)" by (rule unsigned_less)
  then have "unat b < 256" by simp
  then have "of_char (char_of (unat b) :: char) = unat b" by (simp add: of_char_of)
  then show ?thesis by (simp add: char_of_byte_def byte_of_char_def)
qed

lemma string_of_bytes_of_string [simp]: "string_of_bytes (bytes_of_string s) = s"
  by (simp add: string_of_bytes_def bytes_of_string_def comp_def)

lemma bytes_of_string_of_bytes [simp]: "bytes_of_string (string_of_bytes b) = b"
  by (simp add: string_of_bytes_def bytes_of_string_def comp_def)

lemma bytes_of_string_inject [simp]: "bytes_of_string s = bytes_of_string t \<longleftrightarrow> s = t"
  by (metis string_of_bytes_of_string)

lemma length_bytes_of_string [simp]: "length (bytes_of_string s) = length s"
  by (simp add: bytes_of_string_def)

text \<open>
  The status codes the program itself names, with the values libuv documents for Linux
  (a negated errno, or a negative number of libuv's own). Every other status is whatever
  integer the library call returned.
\<close>

definition UV_EINVAL :: int where "UV_EINVAL = -22"
definition UV_ENOMEM :: int where "UV_ENOMEM = -12"
definition UV_EIO :: int where "UV_EIO = -5"
definition UV_ECANCELED :: int where "UV_ECANCELED = -125"
definition UV_EALREADY :: int where "UV_EALREADY = -114"
definition UV_EOF :: int where "UV_EOF = -4095"
definition UV_EAI_NONAME :: int where "UV_EAI_NONAME = -3008"

lemmas uv_codes = UV_EINVAL_def UV_ENOMEM_def UV_EIO_def UV_ECANCELED_def UV_EALREADY_def
  UV_EOF_def UV_EAI_NONAME_def

section \<open>Decimal rendering\<close>

text \<open>\<^verbatim>\<open>std::to_string\<close> of an unsigned value.\<close>

definition dec_digit :: "nat \<Rightarrow> char" where
  "dec_digit d = char_of (48 + d)"

fun to_dec :: "nat \<Rightarrow> string" where
  "to_dec n = (if n < 10 then [dec_digit n] else to_dec (n div 10) @ [dec_digit (n mod 10)])"

declare to_dec.simps [simp del]

definition is_digit :: "char \<Rightarrow> bool" where
  "is_digit c \<longleftrightarrow> 48 \<le> chr_code c \<and> chr_code c \<le> 57"

definition digit_val :: "char \<Rightarrow> nat" where
  "digit_val c = chr_code c - 48"

lemma chr_code_dec_digit: "d < 10 \<Longrightarrow> chr_code (dec_digit d) = 48 + d"
  by (simp add: chr_code_def dec_digit_def)

lemma is_digit_dec_digit [simp]: "d < 10 \<Longrightarrow> is_digit (dec_digit d)"
  by (simp add: is_digit_def chr_code_dec_digit)

lemma digit_val_dec_digit [simp]: "d < 10 \<Longrightarrow> digit_val (dec_digit d) = d"
  by (simp add: digit_val_def chr_code_dec_digit)

lemma to_dec_digits: "\<forall>c \<in> set (to_dec n). is_digit c"
proof (induction n rule: to_dec.induct)
  case (1 n)
  then show ?case by (subst to_dec.simps) auto
qed

lemma to_dec_nonempty [simp]: "to_dec n \<noteq> []"
  by (subst to_dec.simps) simp

definition dec_value :: "string \<Rightarrow> nat" where
  "dec_value s = foldl (\<lambda>a c. a * 10 + digit_val c) 0 s"

lemma dec_value_to_dec [simp]: "dec_value (to_dec n) = n"
proof (induction n rule: to_dec.induct)
  case (1 n)
  then show ?case
    by (subst to_dec.simps) (auto simp: dec_value_def)
qed

lemma to_dec_inject [simp]: "to_dec m = to_dec n \<longleftrightarrow> m = n"
  by (metis dec_value_to_dec)

section \<open>String views\<close>

text \<open>\<^verbatim>\<open>std::string_view::find(char)\<close>: the first position, or nothing (\<^verbatim>\<open>npos\<close>).\<close>

fun sv_find :: "'a list \<Rightarrow> 'a \<Rightarrow> nat option" where
  "sv_find [] c = None"
| "sv_find (x # xs) c = (if x = c then Some 0 else map_option Suc (sv_find xs c))"

lemma sv_find_Some_iff:
  "sv_find xs c = Some i \<longleftrightarrow> i < length xs \<and> xs ! i = c \<and> (\<forall>j < i. xs ! j \<noteq> c)"
proof (induction xs arbitrary: i)
  case Nil
  then show ?case by simp
next
  case (Cons x xs)
  show ?case
    by (cases i) (auto simp: Cons.IH less_Suc_eq_0_disj)
qed

lemma sv_find_None_iff: "sv_find xs c = None \<longleftrightarrow> c \<notin> set xs"
  by (induction xs) auto

lemma sv_find_nth: "distinct xs \<Longrightarrow> i < length xs \<Longrightarrow> sv_find xs (xs ! i) = Some i"
  by (auto simp: sv_find_Some_iff nth_eq_iff_index_eq)

text \<open>Reading a fact about one number off a check over an interval.\<close>

lemma list_all_uptD: "list_all P [a..<b] \<Longrightarrow> a \<le> n \<Longrightarrow> n < b \<Longrightarrow> P n"
  by (simp add: list_all_iff)

section \<open>Fixed-width numerals\<close>

text \<open>
  \<open>digits b n x\<close> are the \<open>n\<close> low base-\<open>b\<close> digits of \<open>x\<close>, most significant first;
  \<open>value b ds\<close> reads a digit list back.
\<close>

primrec digits :: "nat \<Rightarrow> nat \<Rightarrow> nat \<Rightarrow> nat list" where
  "digits b 0 x = []"
| "digits b (Suc n) x = digits b n (x div b) @ [x mod b]"

definition num_value :: "nat \<Rightarrow> nat list \<Rightarrow> nat" where
  "num_value b ds = foldl (\<lambda>a d. a * b + d) 0 ds"

lemma num_value_Nil [simp]: "num_value b [] = 0"
  by (simp add: num_value_def)

lemma num_value_snoc [simp]: "num_value b (ds @ [d]) = num_value b ds * b + d"
  by (simp add: num_value_def)

lemma div_mod_unique:
  fixes a :: nat
  assumes "a = b * n + p" and "p < b"
  shows "a div b = n" and "a mod b = p"
  using assms by simp_all

lemma div_mod_carry:
  fixes m :: nat
  assumes "0 < c"
  shows "m div c + (m mod c + k) div c = (m + k) div c" and "(m mod c + k) mod c = (m + k) mod c"
proof -
  have "m + k = c * (m div c) + (m mod c + k)" by (simp add: add.assoc [symmetric])
  then have "(m + k) div c = (c * (m div c) + (m mod c + k)) div c" by (rule arg_cong)
  also have "\<dots> = m div c + (m mod c + k) div c"
    using assms by (intro div_mult_self4) simp
  finally show "m div c + (m mod c + k) div c = (m + k) div c" by (rule sym)
  show "(m mod c + k) mod c = (m + k) mod c" by (simp add: mod_add_left_eq)
qed

lemma length_digits [simp]: "length (digits b n x) = n"
  by (induction n arbitrary: x) auto

lemma digits_bound: "0 < b \<Longrightarrow> \<forall>d \<in> set (digits b n x). d < b"
  by (induction n arbitrary: x) auto

lemma digits_num_value:
  assumes "\<forall>d \<in> set ds. d < b"
  shows "digits b (length ds) (num_value b ds) = ds"
  using assms
proof (induction ds rule: rev_induct)
  case Nil
  then show ?case by simp
next
  case (snoc d ds)
  then have "d < b" and IH: "digits b (length ds) (num_value b ds) = ds" by auto
  then show ?case by (simp add: mult.commute)
qed

lemma num_value_digits: "num_value b (digits b n x) = x mod b ^ n"
proof (induction n arbitrary: x)
  case 0
  then show ?case by simp
next
  case (Suc n)
  show ?case
    by (simp add: Suc.IH) (metis mult.commute mod_mult2_eq add.commute)
qed

lemma num_value_bound:
  assumes "\<forall>d \<in> set ds. d < b"
  shows "num_value b ds < b ^ length ds"
  using assms
proof (induction ds rule: rev_induct)
  case Nil
  then show ?case by simp
next
  case (snoc d ds)
  then have d: "d < b" and v: "num_value b ds < b ^ length ds" by auto
  have "num_value b ds * b + d < (num_value b ds + 1) * b" using d by simp
  also have "\<dots> \<le> b ^ length ds * b" using v by (intro mult_right_mono) auto
  finally show ?case by (simp add: mult.commute)
qed

section \<open>Interfaces\<close>

text \<open>
  A codec: an encoder and a fallible decoder that recovers every encodable value. What a
  client may conclude (no two values share an encoding, the decoder accepts exactly one
  value for an encoding) is proved once here.
\<close>

locale codec =
  fixes enc :: "'a \<Rightarrow> 'c"
    and dec :: "'c \<Rightarrow> 'a option"
    and ok :: "'a \<Rightarrow> bool"
  assumes dec_enc: "ok x \<Longrightarrow> dec (enc x) = Some x"
begin

lemma enc_inject: "ok x \<Longrightarrow> ok y \<Longrightarrow> enc x = enc y \<longleftrightarrow> x = y"
  by (metis dec_enc option.inject)

lemma inj_on_enc: "inj_on enc {x. ok x}"
  by (rule inj_onI) (simp add: enc_inject)

lemma dec_enc_eq: "ok x \<Longrightarrow> dec (enc x) = Some y \<longleftrightarrow> x = y"
  by (simp add: dec_enc)

end

text \<open>
  A canonical codec: the decoder accepts nothing but encodings, so decoding followed by
  encoding gives the text back.
\<close>

locale canonical_codec = codec +
  assumes enc_dec: "dec c = Some x \<Longrightarrow> ok x \<and> enc x = c"
begin

lemma dec_inject: "dec c = Some x \<Longrightarrow> dec d = Some x \<Longrightarrow> c = d"
  by (metis enc_dec)

lemma dec_Some_iff: "dec c = Some x \<longleftrightarrow> ok x \<and> c = enc x"
  by (metis dec_enc enc_dec)

end

text \<open>
  The teardown contract every long-lived object of the program keeps: a guard flag that
  \<^verbatim>\<open>destroy()\<close> sets and nothing clears, and a second call that does nothing.
\<close>

locale teardown =
  fixes destroy :: "'s \<Rightarrow> 's"
    and dead :: "'s \<Rightarrow> bool"
  assumes destroy_dead: "dead (destroy s)"
    and dead_fixed: "dead s \<Longrightarrow> destroy s = s"
begin

lemma destroy_idem: "destroy (destroy s) = destroy s"
  by (simp add: dead_fixed destroy_dead)

lemma destroy_funpow: "0 < n \<Longrightarrow> (destroy ^^ n) s = destroy s"
proof (induction n)
  case 0
  then show ?case by simp
next
  case (Suc n)
  then show ?case by (cases n) (auto simp: destroy_idem)
qed

end

text \<open>
  A machine driven by events that the environment may offer in a state (\<open>enabled\<close>), with
  an invariant that holds at the start and that every enabled event keeps.
\<close>

locale machine =
  fixes step :: "'s \<Rightarrow> 'e \<Rightarrow> 's"
    and enabled :: "'s \<Rightarrow> 'e \<Rightarrow> bool"
    and start :: "'s \<Rightarrow> bool"
    and inv :: "'s \<Rightarrow> bool"
  assumes inv_start: "start s \<Longrightarrow> inv s"
    and inv_step: "inv s \<Longrightarrow> enabled s e \<Longrightarrow> inv (step s e)"
begin

inductive reach :: "'s \<Rightarrow> bool" where
  reach_start: "start s \<Longrightarrow> reach s"
| reach_step: "reach s \<Longrightarrow> enabled s e \<Longrightarrow> reach (step s e)"

lemma reach_inv: "reach s \<Longrightarrow> inv s"
  by (induction rule: reach.induct) (auto intro: inv_start inv_step)

text \<open>The events a machine has gone through to reach a state.\<close>

inductive trace :: "'e list \<Rightarrow> 's \<Rightarrow> bool" where
  trace_nil: "start s \<Longrightarrow> trace [] s"
| trace_snoc: "trace es s \<Longrightarrow> enabled s e \<Longrightarrow> trace (es @ [e]) (step s e)"

lemma trace_reach: "trace es s \<Longrightarrow> reach s"
  by (induction rule: trace.induct) (auto intro: reach_start reach_step)

lemma trace_inv: "trace es s \<Longrightarrow> inv s"
  by (blast dest: trace_reach reach_inv)

end

text \<open>
  An incremental decoder: \<open>push\<close> takes what it kept from before and the next chunk, and
  returns whether the stream is still well formed, what it keeps, and the items the chunk
  completed. \<open>feed\<close> pushes chunks one after the other and stops at the first failure, as
  every caller does by destroying the stream.
\<close>

fun feed :: "('b \<Rightarrow> 'x list \<Rightarrow> bool \<times> 'b \<times> 'f list) \<Rightarrow> 'b \<Rightarrow> 'x list list \<Rightarrow> bool \<times> 'b \<times> 'f list" where
  "feed push b [] = (True, b, [])"
| "feed push b (c # cs) =
     (case push b c of (ok, b1, fs) \<Rightarrow>
        if ok then (case feed push b1 cs of (ok2, b2, gs) \<Rightarrow> (ok2, b2, fs @ gs))
        else (False, b1, fs))"

locale incremental =
  fixes push :: "'b \<Rightarrow> 'x list \<Rightarrow> bool \<times> 'b \<times> 'f list"
    and init :: 'b
    and enc :: "'f \<Rightarrow> 'x list"
    and ok :: "'f \<Rightarrow> bool"
  assumes push_nil: "push init [] = (True, init, [])"
    and push_append: "push b xs = (True, b1, fs) \<Longrightarrow>
      push b (xs @ ys) = (case push b1 ys of (r, b2, gs) \<Rightarrow> (r, b2, fs @ gs))"
    and push_fail: "push b xs = (False, b1, fs) \<Longrightarrow> \<exists>b2. push b (xs @ ys) = (False, b2, fs)"
    and push_enc: "ok f \<Longrightarrow> push init (enc f) = (True, init, [f])"
begin

lemma push_encs: "list_all ok fs \<Longrightarrow> push init (concat (map enc fs)) = (True, init, fs)"
proof (induction fs)
  case Nil
  then show ?case by (simp add: push_nil)
next
  case (Cons f fs)
  then show ?case using push_append [OF push_enc, of f "concat (map enc fs)"] by simp
qed

text \<open>However the stream is cut, the verdict and the items are those of the whole stream.\<close>

lemma feed_concat:
  assumes "chunks \<noteq> []"
  shows "fst (feed push b chunks) = fst (push b (concat chunks))"
    and "snd (snd (feed push b chunks)) = snd (snd (push b (concat chunks)))"
    and "fst (push b (concat chunks)) \<Longrightarrow> feed push b chunks = push b (concat chunks)"
  using assms
proof (atomize (full), induction chunks arbitrary: b)
  case Nil
  then show ?case by simp
next
  case (Cons c cs)
  obtain r b1 fs where p: "push b c = (r, b1, fs)" by (cases "push b c")
  obtain r2 b2 gs where q: "push b1 (concat cs) = (r2, b2, gs)" by (cases "push b1 (concat cs)")
  show ?case
  proof (cases "r")
    case False
    then obtain b3 where "push b (c @ concat cs) = (False, b3, fs)"
      using push_fail [of b c b1 fs "concat cs"] p by auto
    then show ?thesis using p False by simp
  next
    case True
    then have app: "push b (c @ ys) = (case push b1 ys of (r, b2, gs) \<Rightarrow> (r, b2, fs @ gs))" for ys
      using push_append [of b c b1 fs ys] p by simp
    show ?thesis
    proof (cases "cs = []")
      case True
      with p \<open>r\<close> show ?thesis by simp
    next
      case False
      obtain r3 b3 hs where f: "feed push b1 cs = (r3, b3, hs)" by (cases "feed push b1 cs")
      show ?thesis using Cons.IH [of b1] False app [of "concat cs"] p \<open>r\<close> q f by auto
    qed
  qed
qed

corollary feed_encs:
  assumes "list_all ok fs" and "concat chunks = concat (map enc fs)"
  shows "feed push init chunks = (True, init, fs)"
proof (cases "chunks = []")
  case True
  then have "push init (concat (map enc fs)) = (True, init, [])"
    using assms(2) push_nil by (metis concat.simps(1))
  then have "fs = []" using push_encs [OF assms(1)] by simp
  then show ?thesis using True by simp
next
  case False
  from feed_concat(3) [OF False, of init] push_encs [OF assms(1)] assms(2) show ?thesis by simp
qed

end

text \<open>
  A reader of sequenced replies: \<open>keep\<close> takes a reply (a sequence number and a value that
  may not parse) into a state whose \<open>best\<close> is what it has settled on so far. A value that
  does not parse is ignored, a newer one wins, an older one does not; what happens on a tie
  is left to the reader.
\<close>

locale newest =
  fixes keep :: "'s \<Rightarrow> u64 \<times> 'v \<Rightarrow> 's"
    and best :: "'s \<Rightarrow> (u64 \<times> 'r) option"
    and parse :: "'v \<Rightarrow> 'r option"
  assumes keep_bad: "parse v = None \<Longrightarrow> best (keep s (q, v)) = best s"
    and keep_first: "best s = None \<Longrightarrow> parse v = Some r \<Longrightarrow> best (keep s (q, v)) = Some (q, r)"
    and keep_newer: "best s = Some (q0, r0) \<Longrightarrow> q0 < q \<Longrightarrow> parse v = Some r \<Longrightarrow> best (keep s (q, v)) = Some (q, r)"
    and keep_older: "best s = Some (q0, r0) \<Longrightarrow> q < q0 \<Longrightarrow> best (keep s (q, v)) = Some (q0, r0)"
    and keep_tie: "best s = Some (q, r0) \<Longrightarrow> parse v = Some r \<Longrightarrow>
      best (keep s (q, v)) = Some (q, r0) \<or> best (keep s (q, v)) = Some (q, r)"
begin

definition parsed :: "(u64 \<times> 'v) list \<Rightarrow> (u64 \<times> 'r) list" where
  "parsed rs = concat (map (\<lambda>(q, v). case parse v of None \<Rightarrow> [] | Some r \<Rightarrow> [(q, r)]) rs)"

lemma parsed_append [simp]: "parsed (xs @ ys) = parsed xs @ parsed ys"
  by (simp add: parsed_def)

lemma keep_run:
  assumes "best s = None"
  shows "case best (foldl keep s rs) of
      None \<Rightarrow> parsed rs = []
    | Some (q, r) \<Rightarrow> (q, r) \<in> set (parsed rs) \<and> (\<forall>(q', r') \<in> set (parsed rs). q' \<le> q)"
proof (induction rs rule: rev_induct)
  case Nil
  then show ?case using assms by (simp add: parsed_def)
next
  case (snoc x rs)
  obtain q v where x: "x = (q, v)" by (cases x)
  let ?s = "foldl keep s rs"
  show ?case
  proof (cases "parse v")
    case None
    then have "parsed [x] = []" by (simp add: parsed_def x)
    then show ?thesis using snoc.IH keep_bad [OF None, of ?s q] by (auto simp: x split: option.splits)
  next
    case (Some r)
    then have px: "parsed [x] = [(q, r)]" by (simp add: parsed_def x)
    show ?thesis
    proof (cases "best ?s")
      case None
      then show ?thesis using snoc.IH px keep_first [OF None Some, of q] by (simp add: x)
    next
      case (Some b)
      obtain q0 r0 where b: "best ?s = Some (q0, r0)" using Some by (cases b) auto
      have IH: "(q0, r0) \<in> set (parsed rs)" "\<And>q' r'. (q', r') \<in> set (parsed rs) \<Longrightarrow> q' \<le> q0"
        using snoc.IH b by auto
      consider "q0 < q" | "q < q0" | "q = q0" by (rule linorder_cases)
      then show ?thesis
      proof cases
        case 1
        then show ?thesis
          using IH px keep_newer [OF b 1 \<open>parse v = Some r\<close>] by (auto simp: x intro: order.trans [OF IH(2) order.strict_implies_order [OF 1]])
      next
        case 2
        then show ?thesis using IH px keep_older [OF b 2, of v] by (auto simp: x)
      next
        case 3
        then have "best (keep ?s (q, v)) = Some (q, r0) \<or> best (keep ?s (q, v)) = Some (q, r)"
          using keep_tie b \<open>parse v = Some r\<close> by simp
        then show ?thesis using IH px 3 by (auto simp: x)
      qed
    qed
  qed
qed

end

end
