(* ===== verification/Hs_Keys.thy ===== *)
theory Hs_Keys
  imports Hs_Prelude
begin

unbundle bit_operations_syntax

text \<open>
  The key utilities of \<^verbatim>\<open>src/keys.cpp\<close>: z-base-32, hexadecimal, SHA-256 of a key string,
  random keys and the connection-string parser. libsodium's hash and random generator are
  arguments of the definitions that use them. The 32-bit accumulator of the z-base-32 loops
  is a \<open>32 word\<close>, so its overflow (it is shifted by 8 or 5 bits per input element and never
  masked) is part of the model.
\<close>

section \<open>Alphabets\<close>

definition kAlphabet :: string where
  "kAlphabet = ''ybndrfg8ejkmcpqxot1uwisza345h769''"

definition kHex :: string where
  "kHex = ''0123456789abcdef''"

definition quintet_of :: "char \<Rightarrow> int" where
  "quintet_of c = (case sv_find kAlphabet c of None \<Rightarrow> -1 | Some pos \<Rightarrow> int pos)"

definition nibble_of :: "char \<Rightarrow> int" where
  "nibble_of c =
     (if chr_code CHR ''0'' \<le> chr_code c \<and> chr_code c \<le> chr_code CHR ''9''
      then int (chr_code c) - int (chr_code CHR ''0'')
      else if chr_code CHR ''a'' \<le> chr_code c \<and> chr_code c \<le> chr_code CHR ''f''
      then int (chr_code c) - int (chr_code CHR ''a'') + 10
      else if chr_code CHR ''A'' \<le> chr_code c \<and> chr_code c \<le> chr_code CHR ''F''
      then int (chr_code c) - int (chr_code CHR ''A'') + 10
      else -1)"

text \<open>Facts about the two tables.\<close>

lemma length_kAlphabet [simp]: "length kAlphabet = 32"
  by (simp add: kAlphabet_def)

lemma distinct_kAlphabet [simp]: "distinct kAlphabet"
  by (simp add: kAlphabet_def)

lemma quintet_of_alphabet [simp]: "v < 32 \<Longrightarrow> quintet_of (kAlphabet ! v) = int v"
  by (simp add: quintet_of_def sv_find_nth)

lemma quintet_of_range:
  assumes "0 \<le> quintet_of c"
  shows "nat (quintet_of c) < 32 \<and> kAlphabet ! nat (quintet_of c) = c"
proof (cases "sv_find kAlphabet c")
  case None
  with assms show ?thesis by (simp add: quintet_of_def)
next
  case (Some i)
  then show ?thesis by (simp add: quintet_of_def) (simp add: sv_find_Some_iff)
qed

lemma quintet_of_negative: "quintet_of c < 0 \<longleftrightarrow> c \<notin> set kAlphabet"
  by (auto simp: quintet_of_def sv_find_None_iff [symmetric] split: option.splits)

section \<open>z-base-32 encoding\<close>

text \<open>The inner \<^verbatim>\<open>while (bits >= 5)\<close> loop, then the loop over the bytes.\<close>

fun z32_drain :: "u32 \<Rightarrow> nat \<Rightarrow> string \<Rightarrow> nat \<times> string" where
  "z32_drain acc bits out =
     (if 5 \<le> bits
      then z32_drain acc (bits - 5)
             (out @ [kAlphabet ! unat (drop_bit (bits - 5) acc AND 0x1f)])
      else (bits, out))"

declare z32_drain.simps [simp del]

definition z32_push :: "u32 \<times> nat \<times> string \<Rightarrow> byte \<Rightarrow> u32 \<times> nat \<times> string" where
  "z32_push st b =
     (case st of (acc, bits, out) \<Rightarrow>
        let acc' = push_bit 8 acc OR ucast b;
            (bits', out') = z32_drain acc' (bits + 8) out
        in (acc', bits', out'))"

definition z32_encode :: "byte list \<Rightarrow> string" where
  "z32_encode data =
     (case foldl z32_push (0, 0, []) data of (acc, bits, out) \<Rightarrow>
        if 0 < bits then out @ [kAlphabet ! unat (push_bit (5 - bits) acc AND 0x1f)] else out)"

section \<open>z-base-32 decoding\<close>

fun z32_decode_loop :: "u32 \<Rightarrow> nat \<Rightarrow> byte list \<Rightarrow> string \<Rightarrow> byte list option" where
  "z32_decode_loop acc bits out [] = Some out"
| "z32_decode_loop acc bits out (c # s) =
     (let v = quintet_of c in
      if v < 0 then None
      else let acc' = push_bit 5 acc OR word_of_int v; bits' = bits + 5 in
           if 8 \<le> bits'
           then z32_decode_loop acc' (bits' - 8)
                  (out @ [ucast (drop_bit (bits' - 8) acc' AND 0xff)]) s
           else z32_decode_loop acc' bits' out s)"

definition z32_decode :: "string \<Rightarrow> byte list option" where
  "z32_decode s = z32_decode_loop 0 0 [] s"

section \<open>Hexadecimal, hashing, random keys\<close>

definition to_hex :: "byte list \<Rightarrow> string" where
  "to_hex data =
     concat (map (\<lambda>b. [kHex ! unat (drop_bit 4 b), kHex ! unat (b AND 0x0f)]) data)"

fun from_hex_loop :: "byte list \<Rightarrow> string \<Rightarrow> byte list option" where
  "from_hex_loop out (h # l # s) =
     (let hi = nibble_of h; lo = nibble_of l in
      if hi < 0 \<or> lo < 0 then None
      else from_hex_loop (out @ [word_of_int (push_bit 4 hi OR lo)]) s)"
| "from_hex_loop out _ = Some out"

definition from_hex :: "string \<Rightarrow> byte list option" where
  "from_hex s = (if length s mod 2 \<noteq> 0 then None else from_hex_loop [] s)"

text \<open>
  \<^verbatim>\<open>sha256\<close> hashes the bytes of the key string; \<open>crypto\<close> is libsodium's
  \<^verbatim>\<open>crypto_hash_sha256\<close>. \<^verbatim>\<open>random_hex32\<close> renders the 32 bytes \<open>buf\<close> that
  \<^verbatim>\<open>randombytes_buf\<close> filled in.
\<close>

definition sha256 :: "(byte list \<Rightarrow> byte list) \<Rightarrow> string \<Rightarrow> byte list" where
  "sha256 crypto s = crypto (bytes_of_string s)"

definition random_hex32 :: "byte list \<Rightarrow> string" where
  "random_hex32 buf = to_hex buf"

text \<open>
  The primitives of libsodium and hyperdht the program uses: SHA-256, and the key pair of a
  seed (public key, secret key).
\<close>

record hs_crypto =
  c_sha256 :: "byte list \<Rightarrow> byte list"
  c_keypair :: "byte list \<Rightarrow> byte list \<times> byte list"

text \<open>The sizes the primitives document: a 32-byte digest, a 32-byte public key.\<close>

definition crypto_law :: "hs_crypto \<Rightarrow> bool" where
  "crypto_law cr \<longleftrightarrow> (\<forall>x. length (c_sha256 cr x) = 32) \<and> (\<forall>x. length (fst (c_keypair cr x)) = 32)"

section \<open>Connection strings\<close>

record parsed_url =
  pu_key :: string
  pu_secure :: "bool option"

definition kProtocol :: string where
  "kProtocol = ''hs://''"

definition parse_url :: "string \<Rightarrow> parsed_url" where
  "parse_url url =
     (let out = (if 9 \<le> length url \<and> take (length kProtocol) url = kProtocol
                 then \<lparr>pu_key = drop 9 url, pu_secure = None\<rparr>
                 else \<lparr>pu_key = url, pu_secure = None\<rparr>)
      in if 5 < length url \<and> url ! 5 = CHR ''s'' then out\<lparr>pu_secure := Some True\<rparr> else out)"

section \<open>z-base-32 is base-32 notation\<close>

text \<open>A quintet, read from the wrapped accumulator, is a base-32 digit of the number read so far.\<close>

lemma take_drop_acc:
  fixes acc :: u32
  assumes "unat acc = N mod 2 ^ 32" and "m + k \<le> 32"
  shows "unat (drop_bit m acc AND mask k) = N div 2 ^ m mod 2 ^ k"
proof -
  have "unat acc = take_bit 32 N"
    using assms(1) by (simp add: take_bit_eq_mod)
  then have "unat (drop_bit m acc AND mask k) = take_bit k (drop_bit m (take_bit 32 N))"
    by (simp add: take_bit_eq_mask [symmetric] unsigned_take_bit_eq unsigned_drop_bit_eq)
  also have "\<dots> = take_bit k (drop_bit m N)"
    using assms(2) by (simp add: drop_bit_take_bit take_bit_take_bit)
  finally show ?thesis by (simp add: take_bit_eq_mod drop_bit_eq_div)
qed

lemma mask_5: "(0x1f :: u32) = mask 5" and mask_8: "(0xff :: u32) = mask 8"
  by (simp_all add: mask_eq_exp_minus_1)

definition z32_digits :: "nat list \<Rightarrow> string" where
  "z32_digits ds = map (\<lambda>d. kAlphabet ! d) ds"

lemma z32_drain_digits:
  assumes "unat acc = N mod 2 ^ 32" and "bits \<le> 27 + 5"
    and "out = z32_digits (digits 32 k (N div 2 ^ bits))"
  shows "z32_drain acc bits out =
    (bits mod 5, z32_digits (digits 32 (k + bits div 5) (N div 2 ^ (bits mod 5))))"
  using assms
proof (induction acc bits out arbitrary: k rule: z32_drain.induct)
  case (1 acc bits out)
  show ?case
  proof (cases "5 \<le> bits")
    case False
    then show ?thesis using "1.prems" by (subst z32_drain.simps) simp
  next
    case True
    let ?m = "bits - 5"
    have q: "unat (drop_bit ?m acc AND 0x1f) = N div 2 ^ ?m mod 32"
      using take_drop_acc [OF "1.prems"(1), of ?m 5] "1.prems"(2) True by (simp add: mask_5)
    have shift: "N div 2 ^ ?m div 32 = N div 2 ^ bits"
    proof -
      have "N div 2 ^ ?m div 2 ^ 5 = N div 2 ^ (?m + 5)"
        by (simp add: div_mult2_eq power_add)
      then show ?thesis using True by simp
    qed
    have out: "out @ [kAlphabet ! unat (drop_bit ?m acc AND 0x1f)] =
        z32_digits (digits 32 (Suc k) (N div 2 ^ ?m))"
      using "1.prems"(3) by (simp add: q shift z32_digits_def)
    have "bits div 5 = Suc (?m div 5)" "bits mod 5 = ?m mod 5"
      using True by (simp_all add: le_div_geq le_mod_geq)
    then show ?thesis
      using "1.IH" [OF True "1.prems"(1) _ out] True "1.prems"(2)
      by (subst z32_drain.simps) simp
  qed
qed

text \<open>The loop over the bytes: after \<open>n\<close> bytes of value \<open>N\<close>, all complete quintets are out.\<close>

definition byte_value :: "byte list \<Rightarrow> nat" where
  "byte_value data = num_value 256 (map unat data)"

lemma byte_value_snoc: "byte_value (data @ [b]) = byte_value data * 256 + unat b"
  by (simp add: byte_value_def)

lemma z32_push_acc:
  fixes acc :: u32 and b :: byte
  assumes "unat acc = N mod 2 ^ 32"
  shows "unat (push_bit 8 acc OR ucast b) = (N * 256 + unat b) mod 2 ^ 32"
proof -
  have b8: "bit b n \<Longrightarrow> n < 8" for n using bit_imp_le_length [of b n] by simp
  then have "push_bit 8 acc OR ucast b = push_bit 8 acc + ucast b"
    by (intro disjunctive_add [symmetric])
       (auto simp: bit_push_bit_iff bit_ucast_iff dest: b8)
  moreover have "unat (ucast b :: u32) = unat b"
    using unsigned_less [of b, where 'a = nat]
    by (simp add: unsigned_ucast_eq take_bit_nat_eq_self_iff)
  ultimately show ?thesis using assms
    by (simp add: unat_word_ariths push_bit_eq_mult mod_simps)
qed

lemma z32_push_foldl:
  "\<exists>acc. foldl z32_push (0, 0, []) data =
     (acc, 8 * length data mod 5,
      z32_digits (digits 32 (8 * length data div 5)
        (byte_value data div 2 ^ (8 * length data mod 5)))) \<and>
     unat acc = byte_value data mod 2 ^ 32"
proof (induction data rule: rev_induct)
  case Nil
  then show ?case by (simp add: byte_value_def z32_digits_def)
next
  case (snoc b data)
  let ?n = "length data" and ?N = "byte_value data" and ?N' = "byte_value (data @ [b])"
  from snoc obtain acc where st: "foldl z32_push (0, 0, []) data =
     (acc, 8 * ?n mod 5, z32_digits (digits 32 (8 * ?n div 5) (?N div 2 ^ (8 * ?n mod 5))))"
     and acc: "unat acc = ?N mod 2 ^ 32" by blast
  let ?acc = "push_bit 8 acc OR ucast b" and ?bits = "8 * ?n mod 5 + 8"
  have acc': "unat ?acc = ?N' mod 2 ^ 32"
    using z32_push_acc [OF acc] by (simp add: byte_value_snoc)
  have "?N' div 2 ^ ?bits = ?N' div 256 div 2 ^ (8 * ?n mod 5)"
    by (simp add: power_add div_mult2_eq [symmetric] mult.commute)
  also have "?N' div 256 = ?N"
    using unsigned_less [of b, where 'a = nat] by (simp add: byte_value_snoc)
  finally have "?N div 2 ^ (8 * ?n mod 5) = ?N' div 2 ^ ?bits" by simp
  then have "z32_drain ?acc ?bits (z32_digits (digits 32 (8 * ?n div 5) (?N div 2 ^ (8 * ?n mod 5)))) =
     (?bits mod 5, z32_digits (digits 32 (8 * ?n div 5 + ?bits div 5) (?N' div 2 ^ (?bits mod 5))))"
    using mod_less_divisor [of 5 "8 * ?n"]
    by (intro z32_drain_digits [OF acc']) auto
  moreover have "?bits mod 5 = 8 * length (data @ [b]) mod 5"
    using div_mod_carry(2) [of 5 "8 * ?n" 8] by (simp add: add.commute)
  moreover have "8 * ?n div 5 + ?bits div 5 = 8 * length (data @ [b]) div 5"
    using div_mod_carry(1) [of 5 "8 * ?n" 8] by (simp add: add.commute)
  moreover have "foldl z32_push (0, 0, []) (data @ [b]) = z32_push (foldl z32_push (0, 0, []) data) b"
    by simp
  ultimately show ?case using acc' by (simp only: st) (simp add: z32_push_def Let_def)
qed

text \<open>The number of quintets of \<open>n\<close> bytes, and the zero bits that pad the last one.\<close>

definition z32_len :: "nat \<Rightarrow> nat" where
  "z32_len n = (8 * n + 4) div 5"

lemma ceil5:
  fixes m :: nat
  shows "m \<le> 5 * ((m + 4) div 5)" and "5 * ((m + 4) div 5) - m < 5"
    and "m mod 5 = 0 \<Longrightarrow> (m + 4) div 5 = m div 5 \<and> 5 * (m div 5) - m = 0"
  by presburger+

lemma z32_len_pad: "5 * z32_len n = 8 * n + (5 * z32_len n - 8 * n)" and
  z32_pad_less: "5 * z32_len n - 8 * n < 5"
  using ceil5(1,2) [of "8 * n"] by (simp_all add: z32_len_def)

lemma z32_len_exact: "8 * n mod 5 = 0 \<Longrightarrow> z32_len n = 8 * n div 5 \<and> 5 * z32_len n - 8 * n = 0"
  using ceil5(3) [of "8 * n"] by (simp add: z32_len_def)

lemma z32_len_partial:
  assumes "8 * n mod 5 \<noteq> 0"
  shows "z32_len n = Suc (8 * n div 5)" and "5 * z32_len n - 8 * n = 5 - 8 * n mod 5"
proof -
  let ?k = "8 * n div 5" and ?r = "8 * n mod 5"
  have m: "8 * n = 5 * ?k + ?r" and r: "?r < 5" by simp_all
  have "m = 5 * k + r \<Longrightarrow> r \<noteq> 0 \<Longrightarrow> m + 4 = 5 * Suc k + (r - 1)" for m k r :: nat by simp
  from this [OF m assms] have "8 * n + 4 = 5 * Suc ?k + (?r - 1)" .
  moreover have "?r - 1 < 5" using r by linarith
  ultimately have "(8 * n + 4) div 5 = Suc ?k" by (rule div_mod_unique)
  then show len: "z32_len n = Suc ?k" by (simp add: z32_len_def)
  have "m = 5 * k + r \<Longrightarrow> 5 * Suc k - m = 5 - r" for m k r :: nat by simp
  from this [OF m] have "5 * Suc ?k - 8 * n = 5 - ?r" .
  then show "5 * z32_len n - 8 * n = 5 - ?r" by (simp only: len)
qed

lemma z32_encode_digits:
  "z32_encode data =
     z32_digits (digits 32 (z32_len (length data))
       (byte_value data * 2 ^ (5 * z32_len (length data) - 8 * length data)))"
proof -
  let ?n = "length data" and ?N = "byte_value data"
  let ?r = "8 * length data mod 5" and ?k = "8 * length data div 5"
  obtain acc where st: "foldl z32_push (0, 0, []) data =
      (acc, ?r, z32_digits (digits 32 ?k (?N div 2 ^ ?r)))"
    and acc: "unat acc = ?N mod 2 ^ 32"
    using z32_push_foldl by blast
  show ?thesis
  proof (cases "?r = 0")
    case True
    from z32_len_exact [OF this] show ?thesis using True by (simp add: z32_encode_def st)
  next
    case False
    let ?p = "5 - ?r"
    have r5: "?r < 5" by simp
    note len = z32_len_partial(1) [OF False] and pad = z32_len_partial(2) [OF False]
    have "unat (push_bit ?p acc) = ?N * 2 ^ ?p mod 2 ^ 32"
    proof -
      have "unat (push_bit ?p acc) = take_bit 32 (push_bit ?p (unat acc))"
        by (simp add: unsigned_push_bit_eq)
      then show ?thesis using acc by (simp add: take_bit_eq_mod push_bit_eq_mult mod_simps)
    qed
    then have "unat (push_bit ?p acc AND 0x1f) = ?N * 2 ^ ?p mod 32"
      using take_drop_acc [of "push_bit ?p acc" "?N * 2 ^ ?p" 0 5] by (simp add: mask_5)
    moreover have "?N * 2 ^ ?p div 32 = ?N div 2 ^ ?r"
    proof -
      have "(32::nat) = 2 ^ ?r * 2 ^ ?p"
        using r5 by (simp add: power_add [symmetric])
      then have "?N * 2 ^ ?p div 32 = ?N * 2 ^ ?p div (2 ^ ?r * 2 ^ ?p)" by simp
      also have "\<dots> = ?N div 2 ^ ?r" by (rule div_mult_mult2) simp
      finally show ?thesis .
    qed
    ultimately show ?thesis
      using False by (simp only: pad) (simp add: z32_encode_def st len z32_digits_def)
  qed
qed

corollary length_z32_encode: "length (z32_encode data) = z32_len (length data)"
  by (simp add: z32_encode_digits z32_digits_def)

corollary z32_encode_alphabet: "set (z32_encode data) \<subseteq> set kAlphabet"
proof -
  have "\<forall>d \<in> set (digits 32 n x). d < 32" for n x by (rule digits_bound) simp
  then show ?thesis
    by (auto simp: z32_encode_digits z32_digits_def)
qed

section \<open>Decoding inverts encoding\<close>

definition quintets :: "string \<Rightarrow> nat list" where
  "quintets s = map (\<lambda>c. nat (quintet_of c)) s"

lemma quintets_z32_digits: "\<forall>d \<in> set ds. d < 32 \<Longrightarrow> quintets (z32_digits ds) = ds"
  by (induction ds) (auto simp: quintets_def z32_digits_def)

lemma z32_decode_acc:
  fixes acc :: u32
  assumes "unat acc = M mod 2 ^ 32" and "v < 32"
  shows "unat (push_bit 5 acc OR word_of_int (int v)) = (M * 32 + v) mod 2 ^ 32"
proof -
  have v: "unat (word_of_int (int v) :: u32) = v"
    using assms(2) by (simp add: unat_of_nat)
  have "bit (word_of_int (int v) :: u32) n \<Longrightarrow> n < 5" for n
  proof -
    assume "bit (word_of_int (int v) :: u32) n"
    then have "bit v n" by (simp add: bit_of_nat_iff)
    moreover have "take_bit 5 v = v" using assms(2) by (simp add: take_bit_nat_eq_self_iff)
    ultimately show "n < 5" by (metis bit_take_bit_iff)
  qed
  then have "push_bit 5 acc OR word_of_int (int v) = push_bit 5 acc + word_of_int (int v)"
    by (intro disjunctive_add [symmetric]) (fastforce simp: bit_push_bit_iff)
  then show ?thesis using assms v
    by (simp add: unat_word_ariths push_bit_eq_mult mod_simps mult.commute)
qed

lemma z32_decode_loop_digits:
  assumes "unat acc = M mod 2 ^ 32" and "bits < 8"
    and "out = map word_of_nat (digits 256 k (M div 2 ^ bits))"
    and "set s \<subseteq> set kAlphabet"
  shows "z32_decode_loop acc bits out s =
    (let m = 5 * length s + bits in
     Some (map word_of_nat (digits 256 (k + m div 8)
       (foldl (\<lambda>a d. a * 32 + d) M (quintets s) div 2 ^ (m mod 8)))))"
  using assms
proof (induction s arbitrary: acc bits out k M)
  case Nil
  then show ?case by (simp add: quintets_def)
next
  case (Cons c s)
  obtain v where v: "quintet_of c = int v" "v < 32"
    using Cons.prems(4) quintet_of_negative [of c] quintet_of_range [of c]
    by (metis insert_subset int_nat_eq list.set(2) linorder_not_less)
  let ?acc = "push_bit 5 acc OR word_of_int (int v)" and ?M = "M * 32 + v"
  have acc: "unat ?acc = ?M mod 2 ^ 32"
    using z32_decode_acc Cons.prems(1) v(2) by blast
  have sub: "set s \<subseteq> set kAlphabet" using Cons.prems(4) by simp
  have shift: "?M div 2 ^ (bits + 5) = M div 2 ^ bits"
  proof -
    have "?M div 2 ^ (bits + 5) = ?M div (32 * 2 ^ bits)"
      by (simp add: power_add mult.commute)
    also have "\<dots> = ?M div 32 div 2 ^ bits" by (rule div_mult2_eq)
    finally have "?M div 2 ^ (bits + 5) = ?M div 32 div 2 ^ bits" .
    then show ?thesis using v(2) by simp
  qed
  have q: "quintets (c # s) = v # quintets s" using v by (simp add: quintets_def)
  show ?case
  proof (cases "8 \<le> bits + 5")
    case False
    have "out = map word_of_nat (digits 256 k (?M div 2 ^ (bits + 5)))"
      using Cons.prems(3) shift by simp
    from Cons.IH [OF acc _ this sub] False show ?thesis
      by (simp add: v q Let_def add_ac)
  next
    case True
    let ?b = "bits + 5 - 8"
    have byte: "unat (ucast (drop_bit ?b ?acc AND 0xff) :: byte) = ?M div 2 ^ ?b mod 256"
    proof -
      have "unat (drop_bit ?b ?acc AND 0xff) = ?M div 2 ^ ?b mod 256"
        using take_drop_acc [OF acc, of ?b 8] Cons.prems(2) by (simp add: mask_8)
      then show ?thesis
        by (simp add: unsigned_ucast_eq take_bit_eq_mod)
    qed
    have "?M div 2 ^ ?b div 2 ^ 8 = ?M div 2 ^ (?b + 8)"
      by (simp add: div_mult2_eq power_add)
    also have "?b + 8 = bits + 5" using True by simp
    finally have "?M div 2 ^ ?b div 256 = ?M div 2 ^ (bits + 5)" by simp
    then have "out @ [ucast (drop_bit ?b ?acc AND 0xff)] =
        map word_of_nat (digits 256 (Suc k) (?M div 2 ^ ?b))"
      using Cons.prems(3) byte shift by (simp add: word_unat_eq_iff unat_of_nat)
    from Cons.IH [OF acc _ this sub] True Cons.prems(2) show ?thesis
      by (simp add: v q Let_def) (simp add: add_ac le_div_geq le_mod_geq)
  qed
qed

lemma z32_decode_loop_None:
  "\<not> set s \<subseteq> set kAlphabet \<Longrightarrow> z32_decode_loop acc bits out s = None"
proof (induction s arbitrary: acc bits out)
  case Nil
  then show ?case by simp
next
  case (Cons c s)
  then show ?case
    using quintet_of_negative [of c] by (cases "c \<in> set kAlphabet") (auto simp: Let_def)
qed

lemma z32_decode_digits:
  "z32_decode s =
     (if set s \<subseteq> set kAlphabet
      then Some (map word_of_nat (digits 256 (5 * length s div 8)
             (num_value 32 (quintets s) div 2 ^ (5 * length s mod 8))))
      else None)"
  using z32_decode_loop_digits [of 0 0 0 "[]" 0 s]
  by (simp add: z32_decode_def z32_decode_loop_None num_value_def Let_def)

lemma byte_value_digits: "map word_of_nat (digits 256 (length data) (byte_value data)) = data"
proof -
  have "\<forall>d \<in> set (map unat data). d < 256"
    using unsigned_less [where 'a = nat and 'b = 8] by auto
  from digits_num_value [OF this] show ?thesis
    by (simp add: byte_value_def comp_def)
qed

lemma byte_value_less: "byte_value data < 256 ^ length data"
proof -
  have "\<forall>d \<in> set (map unat data). d < 256"
    using unsigned_less [where 'a = nat and 'b = 8] by auto
  from num_value_bound [OF this] show ?thesis by (simp add: byte_value_def)
qed

lemma z32_decode_encode: "z32_decode (z32_encode data) = Some data"
proof -
  let ?n = "length data" and ?q = "z32_len (length data)"
  let ?p = "5 * ?q - 8 * ?n"
  let ?x = "byte_value data * 2 ^ ?p"
  have b: "\<forall>d \<in> set (digits 32 ?q ?x). d < 32" by (rule digits_bound) simp
  have total: "5 * ?q = 8 * ?n + ?p" and p: "?p < 5"
    by (rule z32_len_pad) (rule z32_pad_less)
  have "?x < 256 ^ ?n * 2 ^ ?p" using byte_value_less [of data] by simp
  also have "\<dots> = 2 ^ (8 * ?n + ?p)" by (simp add: power_add power_mult)
  also have "\<dots> = 2 ^ (5 * ?q)" using total by simp
  finally have x: "?x < 32 ^ ?q" by (simp add: power_mult)
  have "num_value 32 (quintets (z32_encode data)) = ?x"
    using x by (simp add: z32_encode_digits quintets_z32_digits [OF b] num_value_digits)
  moreover have "5 * length (z32_encode data) div 8 = ?n" "5 * length (z32_encode data) mod 8 = ?p"
    using div_mod_unique [OF total] p by (simp_all only: length_z32_encode)
  ultimately show ?thesis
    using z32_encode_alphabet by (simp add: z32_decode_digits byte_value_digits)
qed

interpretation z32: codec z32_encode z32_decode "\<lambda>_. True"
  by unfold_locales (rule z32_decode_encode)

section \<open>Hexadecimal\<close>

definition hex_lower :: "char \<Rightarrow> char" where
  "hex_lower c =
     (if chr_code CHR ''A'' \<le> chr_code c \<and> chr_code c \<le> chr_code CHR ''F''
      then char_of (chr_code c + 32) else c)"

lemma nibble_of_kHex [simp]: "n < 16 \<Longrightarrow> nibble_of (kHex ! n) = int n"
proof -
  have t: "list_all (\<lambda>n. nibble_of (kHex ! n) = int n) [0..<16]" by code_simp
  show "n < 16 \<Longrightarrow> nibble_of (kHex ! n) = int n" by (rule list_all_uptD [OF t]) auto
qed

lemma kHex_chars:
  "48 \<le> n \<and> n \<le> 57 \<Longrightarrow> kHex ! (n - 48) = char_of n"
  "97 \<le> n \<and> n \<le> 102 \<Longrightarrow> kHex ! (n - 87) = char_of n"
  "65 \<le> n \<and> n \<le> 70 \<Longrightarrow> kHex ! (n - 55) = char_of (n + 32)"
proof -
  have d: "list_all (\<lambda>n. kHex ! (n - 48) = char_of n) [48..<58]"
    and l: "list_all (\<lambda>n. kHex ! (n - 87) = char_of n) [97..<103]"
    and u: "list_all (\<lambda>n. kHex ! (n - 55) = char_of (n + 32)) [65..<71]"
    by code_simp+
  show "48 \<le> n \<and> n \<le> 57 \<Longrightarrow> kHex ! (n - 48) = char_of n"
    by (rule list_all_uptD [OF d]) auto
  show "97 \<le> n \<and> n \<le> 102 \<Longrightarrow> kHex ! (n - 87) = char_of n"
    by (rule list_all_uptD [OF l]) auto
  show "65 \<le> n \<and> n \<le> 70 \<Longrightarrow> kHex ! (n - 55) = char_of (n + 32)"
    by (rule list_all_uptD [OF u]) auto
qed

lemma nibble_of_range:
  assumes "0 \<le> nibble_of c"
  shows "nibble_of c < 16 \<and> kHex ! nat (nibble_of c) = hex_lower c"
proof -
  let ?n = "chr_code c"
  consider "48 \<le> ?n \<and> ?n \<le> 57" | "97 \<le> ?n \<and> ?n \<le> 102" | "65 \<le> ?n \<and> ?n \<le> 70"
    using assms by (auto simp: nibble_of_def hs_simps split: if_splits)
  then show ?thesis
  proof cases
    case 1
    then have "nibble_of c = int (?n - 48)" by (simp add: nibble_of_def hs_simps)
    with 1 kHex_chars(1) [OF 1] show ?thesis
      by (simp add: hex_lower_def hs_simps less_diff_conv2 del: of_nat_diff)
  next
    case 2
    then have "nibble_of c = int (?n - 87)" by (simp add: nibble_of_def hs_simps)
    with 2 kHex_chars(2) [OF 2] show ?thesis
      by (simp add: hex_lower_def hs_simps less_diff_conv2 del: of_nat_diff)
  next
    case 3
    then have "nibble_of c = int (?n - 55)" by (simp add: nibble_of_def hs_simps)
    with 3 kHex_chars(3) [OF 3] show ?thesis
      by (simp add: hex_lower_def hs_simps less_diff_conv2 del: of_nat_diff)
  qed
qed

lemma byte_nibbles:
  fixes b :: byte
  shows "unat (drop_bit 4 b) < 16" and "unat (b AND 0x0f) < 16"
    and "word_of_int (push_bit 4 (int (unat (drop_bit 4 b))) OR int (unat (b AND 0x0f))) = b"
proof -
  have m: "(0x0f :: byte) = mask 4" by (simp add: mask_eq_exp_minus_1)
  have "uint b < 2 ^ 8" using unsigned_less [of b, where 'a = int] by simp
  then have tb: "take_bit 8 (uint b) = uint b" by (simp add: take_bit_int_eq_self_iff)
  have hi: "int (unat (drop_bit 4 b)) = drop_bit 4 (uint b)"
    by (simp only: uint_nat [symmetric]) (simp add: unsigned_drop_bit_eq tb)
  have lo: "int (unat (b AND 0x0f)) = take_bit 4 (uint b)"
    by (simp only: uint_nat [symmetric]) (simp add: m take_bit_eq_mask [symmetric] unsigned_take_bit_eq)
  have "drop_bit 4 (uint b) < 16" "take_bit 4 (uint b) < 16"
    using \<open>uint b < 2 ^ 8\<close> by (simp_all add: drop_bit_eq_div take_bit_eq_mod)
  then have "int (unat (drop_bit 4 b)) < 16" "int (unat (b AND 0x0f)) < 16"
    by (simp_all only: hi lo)
  then show "unat (drop_bit 4 b) < 16" "unat (b AND 0x0f) < 16" by linarith+
  have "push_bit 4 (drop_bit 4 (uint b)) OR take_bit 4 (uint b) = uint b"
    by (rule bit_eqI) (auto simp: bit_or_iff bit_push_bit_iff bit_drop_bit_eq bit_take_bit_iff)
  then show "word_of_int (push_bit 4 (int (unat (drop_bit 4 b))) OR int (unat (b AND 0x0f))) = b"
    by (simp only: hi lo) simp
qed

lemma from_hex_loop_to_hex: "from_hex_loop out (to_hex data) = Some (out @ data)"
proof (induction data arbitrary: out)
  case Nil
  then show ?case by (simp add: to_hex_def)
next
  case (Cons b data)
  have "to_hex (b # data) =
      kHex ! unat (drop_bit 4 b) # kHex ! unat (b AND 0x0f) # to_hex data"
    by (simp add: to_hex_def)
  then show ?case
    by (simp only: from_hex_loop.simps nibble_of_kHex [OF byte_nibbles(1)]
          nibble_of_kHex [OF byte_nibbles(2)] byte_nibbles(3) Let_def Cons.IH) simp
qed

lemma length_to_hex [simp]: "length (to_hex data) = 2 * length data"
  by (induction data) (auto simp: to_hex_def)

lemma from_hex_to_hex: "from_hex (to_hex data) = Some data"
  by (simp add: from_hex_def from_hex_loop_to_hex)

interpretation hex: codec to_hex from_hex "\<lambda>_. True"
  by unfold_locales (rule from_hex_to_hex)

lemma nibbles_of_byte:
  assumes "0 \<le> h" "h < 16" "0 \<le> l" "l < 16"
  shows "to_hex [word_of_int (push_bit 4 h OR l)] = [kHex ! nat h, kHex ! nat l]"
proof -
  obtain n m where n: "h = int n" "n < 16" and m: "l = int m" "m < 16"
    using assms by (metis nat_0_le nat_less_numeral_power_cancel_iff nat_less_iff of_nat_numeral zero_le_imp_eq_int)
  let ?w = "word_of_int (push_bit 4 h OR l) :: byte"
  have "bit (int m) i \<Longrightarrow> i < 4" for i
  proof -
    assume "bit (int m) i"
    moreover have "take_bit 4 (int m) = int m" using m by (simp add: take_bit_int_eq_self_iff)
    ultimately show "i < 4" by (metis bit_take_bit_iff)
  qed
  then have "push_bit 4 h OR l = push_bit 4 h + l"
    unfolding n m by (intro disjunctive_add [symmetric]) (fastforce simp: bit_push_bit_iff)
  then have "?w = word_of_nat (n * 16 + m)" using n m by (simp add: push_bit_eq_mult)
  moreover have "unat (word_of_nat (n * 16 + m) :: byte) = n * 16 + m"
    using n m by (simp add: unat_of_nat del: of_nat_add of_nat_mult)
  ultimately have w: "unat ?w = n * 16 + m" by simp
  have "unat (drop_bit 4 ?w) = drop_bit 4 (unat ?w)" by (rule unat_drop_bit_eq)
  also have "\<dots> = n" using m(2) by (simp only: w) (simp add: drop_bit_eq_div)
  finally have "unat (drop_bit 4 ?w) = n" .
  moreover have "unat (?w AND 0x0f) = m"
  proof -
    have "(0x0f :: byte) = mask 4" by (simp add: mask_eq_exp_minus_1)
    then have "unat (?w AND 0x0f) = take_bit 4 (unat ?w)"
      by (simp only: take_bit_eq_mask [symmetric]) (simp add: unsigned_take_bit_eq)
    then show ?thesis using m(2) by (simp only: w) (simp add: take_bit_eq_mod)
  qed
  ultimately show ?thesis using n m by (simp add: to_hex_def)
qed

lemma to_hex_snoc: "to_hex (ds @ [b]) = to_hex ds @ to_hex [b]"
  by (simp add: to_hex_def)

lemma to_hex_from_hex_loop:
  "from_hex_loop out s = Some d \<Longrightarrow> even (length s) \<Longrightarrow> to_hex d = to_hex out @ map hex_lower s"
proof (induction out s rule: from_hex_loop.induct)
  case (1 out h l s)
  then have nn: "0 \<le> nibble_of h" "0 \<le> nibble_of l"
    by (auto simp: Let_def split: if_splits)
  note h = nibble_of_range [OF nn(1)] and l = nibble_of_range [OF nn(2)]
  have "to_hex d = to_hex (out @ [word_of_int (push_bit 4 (nibble_of h) OR nibble_of l)])
      @ map hex_lower s"
    using "1.IH" [OF refl refl] "1.prems" nn by (auto simp: Let_def)
  then show ?case using h l nn by (simp add: to_hex_snoc nibbles_of_byte)
qed (auto simp: to_hex_def)

lemma to_hex_from_hex: "from_hex s = Some d \<Longrightarrow> to_hex d = map hex_lower s"
  by (auto simp: from_hex_def to_hex_def even_iff_mod_2_eq_zero dest!: to_hex_from_hex_loop split: if_splits)

lemma from_hex_loop_None_iff:
  "even (length s) \<Longrightarrow> from_hex_loop out s = None \<longleftrightarrow> (\<exists>c \<in> set s. nibble_of c < 0)"
  by (induction out s rule: from_hex_loop.induct) (auto simp: Let_def)

section \<open>Connection strings\<close>

lemma parse_url_prefixed:
  "length mode = 4 \<Longrightarrow> parse_url (''hs://'' @ mode @ key) =
     \<lparr>pu_key = key, pu_secure = (if mode ! 0 = CHR ''s'' then Some True else None)\<rparr>"
  by (auto simp: parse_url_def kProtocol_def nth_append)

lemma parse_url_secure_never_False: "pu_secure (parse_url url) \<noteq> Some False"
  by (simp add: parse_url_def Let_def)

section \<open>Properties\<close>

text \<open>
  C32: z-base-32 loses nothing: decoding an encoding gives the bytes back, an encoding uses
  only the 32 letters of the alphabet, and it has one letter per five bits, rounded up.
\<close>

theorem z32_roundtrip:
  "z32_decode (z32_encode data) = Some data \<and> set (z32_encode data) \<subseteq> set kAlphabet \<and>
   length (z32_encode data) = (8 * length data + 4) div 5"
  using z32_decode_encode z32_encode_alphabet by (simp add: length_z32_encode z32_len_def)

text \<open>
  C33: The bit-shuffling loops over a 32-bit accumulator are base-32 notation. For inputs of
  any length, encoding is the base-32 numeral of the bytes read as one big-endian number,
  padded with zero bits to a whole letter; decoding reads the letters as one number, drops
  the bits that do not fill a byte, and fails exactly on a letter outside the alphabet.
\<close>

theorem z32_positional:
  "z32_encode data = map (\<lambda>d. kAlphabet ! d) (digits 32 ((8 * length data + 4) div 5)
     (num_value 256 (map unat data) * 2 ^ (5 * ((8 * length data + 4) div 5) - 8 * length data))) \<and>
   z32_decode s =
     (if set s \<subseteq> set kAlphabet
      then Some (map word_of_nat (digits 256 (5 * length s div 8)
             (num_value 32 (map (\<lambda>c. nat (quintet_of c)) s) div 2 ^ (5 * length s mod 8))))
      else None)"
  using z32_encode_digits [of data] z32_decode_digits [of s]
  by (simp only: z32_digits_def z32_len_def byte_value_def quintets_def)

text \<open>
  Hex. Reading back what was printed gives the same bytes; a text is rejected exactly if
  its length is odd or it holds a character that is no hexadecimal digit; and an accepted
  text is the printed form of its bytes up to the case of its letters.
\<close>

theorem hex_roundtrip:
  "from_hex (to_hex data) = Some data \<and>
   (from_hex s = None \<longleftrightarrow> odd (length s) \<or> (\<exists>c \<in> set s. nibble_of c < 0)) \<and>
   (from_hex s = Some d \<longrightarrow> to_hex d = map hex_lower s)"
proof -
  have "from_hex s = None \<longleftrightarrow> odd (length s) \<or> (\<exists>c \<in> set s. nibble_of c < 0)"
    using from_hex_loop_None_iff [of s "[]"] by (auto simp: from_hex_def even_iff_mod_2_eq_zero)
  then show ?thesis using from_hex_to_hex to_hex_from_hex by blast
qed

theorem hex_roundtrip_witness: "to_hex [0xAB] = ''ab'' \<and> from_hex ''aB'' = Some [0xAB]"
proof -
  have "from_hex ''aB'' = Some [0xAB]"
    by (simp add: from_hex_def nibble_of_def hs_simps) (simp add: chr_code_def)
  moreover have "hex_lower CHR ''a'' = CHR ''a''" "hex_lower CHR ''B'' = CHR ''b''"
    by code_simp+
  ultimately show ?thesis using hex_roundtrip [of "[]" "''aB''" "[0xAB]"] by simp
qed

end
