(* ===== verification/Hs_Record.thy ===== *)
theory Hs_Record
  imports Hs_Prelude
begin

unbundle bit_operations_syntax

text \<open>
  The metadata record of \<^verbatim>\<open>src/record.cpp\<close>: the JSON writer and the minimal reader of a flat
  JSON object. The reader's position \<^verbatim>\<open>(s, i)\<close> in the source, a string view and an index that
  only moves forward, is the suffix of the text that is still unread; a reader returns its
  value together with the next suffix. \<^verbatim>\<open>nullopt\<close> is \<open>None\<close>.
\<close>

section \<open>The record\<close>

record hs_record =
  host :: string
  udp :: "bool option"
  port :: "u16 option"

definition empty_record :: hs_record where
  "empty_record = \<lparr>host = [], udp = None, port = None\<rparr>"

abbreviation dq :: char where "dq \<equiv> CHR 0x22"
abbreviation bsl :: char where "bsl \<equiv> CHR 0x5C"

section \<open>Writing\<close>

definition rec_hex :: string where
  "rec_hex = ''0123456789abcdef''"

definition escape_char :: "char \<Rightarrow> string" where
  "escape_char c =
     (if c = dq then [bsl, dq]
      else if c = bsl then [bsl, bsl]
      else if c = CHR 0x0A then bsl # ''n''
      else if c = CHR 0x0D then bsl # ''r''
      else if c = CHR 0x09 then bsl # ''t''
      else if chr_code c < 0x20
      then bsl # ''u00'' @
             [rec_hex ! (drop_bit 4 (chr_code c) AND 0x0f), rec_hex ! (chr_code c AND 0x0f)]
      else [c])"

definition append_escaped :: "string \<Rightarrow> string \<Rightarrow> string" where
  "append_escaped out s = foldl (\<lambda>out c. out @ escape_char c) out s"

definition encode_record :: "string \<Rightarrow> bool option \<Rightarrow> u16 \<Rightarrow> string" where
  "encode_record h u p =
     (let out = ''{'' @ [dq] @ ''host'' @ [dq] @ '':'' @ [dq];
          out = append_escaped out h;
          out = out @ [dq];
          out = (case u of None \<Rightarrow> out
                 | Some b \<Rightarrow> out @ '','' @ [dq] @ ''udp'' @ [dq] @ '':'' @
                     (if b then ''true'' else ''false''));
          out = out @ '','' @ [dq] @ ''port'' @ [dq] @ '':'';
          out = out @ to_dec (unat p)
      in out @ ''}'')"

section \<open>Reading\<close>

definition is_ws :: "char \<Rightarrow> bool" where
  "is_ws c \<longleftrightarrow> c = CHR '' '' \<or> c = CHR 0x09 \<or> c = CHR 0x0A \<or> c = CHR 0x0D"

fun skip_ws :: "string \<Rightarrow> string" where
  "skip_ws [] = []"
| "skip_ws (c # s) = (if is_ws c then skip_ws s else c # s)"

definition hex_val :: "char \<Rightarrow> u32 option" where
  "hex_val h =
     (if chr_code CHR ''0'' \<le> chr_code h \<and> chr_code h \<le> chr_code CHR ''9''
      then Some (word_of_nat (chr_code h - chr_code CHR ''0''))
      else if chr_code CHR ''a'' \<le> chr_code h \<and> chr_code h \<le> chr_code CHR ''f''
      then Some (word_of_nat (chr_code h - chr_code CHR ''a'' + 10))
      else if chr_code CHR ''A'' \<le> chr_code h \<and> chr_code h \<le> chr_code CHR ''F''
      then Some (word_of_nat (chr_code h - chr_code CHR ''A'' + 10))
      else None)"

fun hex4 :: "u32 \<Rightarrow> string \<Rightarrow> u32 option" where
  "hex4 code [] = Some code"
| "hex4 code (h # hs) =
     (case hex_val h of None \<Rightarrow> None | Some v \<Rightarrow> hex4 (push_bit 4 code OR v) hs)"

text \<open>One simple escape (\<^verbatim>\<open>\u\<close> and unknown escapes are not among them).\<close>

definition simple_escape :: "char \<Rightarrow> char option" where
  "simple_escape e =
     (if e = dq then Some dq
      else if e = bsl then Some bsl
      else if e = CHR ''/'' then Some (CHR ''/'')
      else if e = CHR ''n'' then Some (CHR 0x0A)
      else if e = CHR ''r'' then Some (CHR 0x0D)
      else if e = CHR ''t'' then Some (CHR 0x09)
      else if e = CHR ''b'' then Some (CHR 0x08)
      else if e = CHR ''f'' then Some (CHR 0x0C)
      else None)"

fun read_chars :: "string \<Rightarrow> string \<Rightarrow> (string \<times> string) option" where
  "read_chars out [] = None"
| "read_chars out (c # s) =
     (if c = dq then Some (out, s)
      else if c \<noteq> bsl then read_chars (out @ [c]) s
      else (case s of
              [] \<Rightarrow> None
            | e # t \<Rightarrow>
                (case simple_escape e of
                   Some x \<Rightarrow> read_chars (out @ [x]) t
                 | None \<Rightarrow>
                     if e = CHR ''u''
                     then (if length t < 4 then None
                           else case hex4 0 (take 4 t) of
                                  None \<Rightarrow> None
                                | Some code \<Rightarrow>
                                    read_chars
                                      (out @ [if code < 0x80 then char_of (unat code) else CHR ''?''])
                                      (drop 4 t))
                     else None)))"

definition read_string :: "string \<Rightarrow> (string \<times> string) option" where
  "read_string s = (case s of [] \<Rightarrow> None | c # t \<Rightarrow> if c \<noteq> dq then None else read_chars [] t)"

definition scalar_char :: "char \<Rightarrow> bool" where
  "scalar_char c \<longleftrightarrow> c \<noteq> CHR '','' \<and> c \<noteq> CHR ''}''"

definition rtrim_ws :: "string \<Rightarrow> string" where
  "rtrim_ws s = rev (dropWhile is_ws (rev s))"

definition read_scalar :: "string \<Rightarrow> (string \<times> string) option" where
  "read_scalar s =
     (let raw = rtrim_ws (takeWhile scalar_char s)
      in if raw = [] then None else Some (raw, dropWhile scalar_char s))"

text \<open>
  \<^verbatim>\<open>std::strtol(text.c_str(), &end, 10)\<close>: \<^verbatim>\<open>c_str()\<close> stops at the first NUL; leading white
  space and one sign are skipped; the result is clamped to \<^verbatim>\<open>long\<close> (64 bits); without a digit
  nothing is consumed. The second component is the text at \<^verbatim>\<open>end\<close>.
\<close>

definition c_str :: "string \<Rightarrow> string" where
  "c_str s = takeWhile (\<lambda>c. c \<noteq> CHR 0x00) s"

definition is_space :: "char \<Rightarrow> bool" where
  "is_space c \<longleftrightarrow> c = CHR '' '' \<or> (9 \<le> chr_code c \<and> chr_code c \<le> 13)"

definition clamp_long :: "int \<Rightarrow> int" where
  "clamp_long v = max (- (2 ^ 63)) (min (2 ^ 63 - 1) v)"

definition strtol :: "string \<Rightarrow> int \<times> string" where
  "strtol s =
     (let t = dropWhile is_space s;
          (neg, d) = (case t of
             [] \<Rightarrow> (False, t)
           | c # u \<Rightarrow> if c = CHR ''-'' then (True, u)
                      else if c = CHR ''+'' then (False, u) else (False, t));
          ds = takeWhile is_digit d
      in if ds = [] then (0, s)
         else (clamp_long ((if neg then - 1 else 1) * int (dec_value ds)), dropWhile is_digit d))"

definition port_of_text :: "string \<Rightarrow> u16 option" where
  "port_of_text raw =
     (let (v, end) = strtol (c_str raw)
      in if end = [] \<and> 1 \<le> v \<and> v \<le> 65535 then Some (word_of_int v) else None)"

text \<open>
  One key and its value: from the position after the opening brace or a comma to the
  position after the value. A known key with a value of another shape leaves its field as it
  is; an unknown key is skipped.
\<close>

definition read_value :: "hs_record \<Rightarrow> string \<Rightarrow> string \<Rightarrow> (hs_record \<times> string) option" where
  "read_value rec key s =
     (case s of
        [] \<Rightarrow> None
      | c # _ \<Rightarrow>
          if c = dq
          then (case read_string s of
                  None \<Rightarrow> None
                | Some (v, t) \<Rightarrow> Some (if key = ''host'' then rec\<lparr>host := v\<rparr> else rec, t))
          else (case read_scalar s of
                  None \<Rightarrow> None
                | Some (raw, t) \<Rightarrow>
                    Some (if key = ''udp''
                          then (if raw = ''true'' then rec\<lparr>udp := Some True\<rparr>
                                else if raw = ''false'' then rec\<lparr>udp := Some False\<rparr> else rec)
                          else if key = ''port''
                          then (case port_of_text raw of None \<Rightarrow> rec | Some p \<Rightarrow> rec\<lparr>port := Some p\<rparr>)
                          else rec, t)))"

definition read_member :: "hs_record \<Rightarrow> string \<Rightarrow> (hs_record \<times> string) option" where
  "read_member rec s =
     (case read_string (skip_ws s) of
        None \<Rightarrow> None
      | Some (key, s1) \<Rightarrow>
          (case skip_ws s1 of
             [] \<Rightarrow> None
           | c # s2 \<Rightarrow> if c \<noteq> CHR '':'' then None else read_value rec key (skip_ws s2)))"

text \<open>Every reader moves forward, which is why the loop over the members ends.\<close>

lemma skip_ws_length: "length (skip_ws s) \<le> length s"
  by (induction s) auto

lemma read_chars_length: "read_chars out s = Some (v, t) \<Longrightarrow> length t < length s"
  by (induction out s arbitrary: v rule: read_chars.induct)
     (fastforce split: if_splits option.splits list.splits)+

lemma read_string_length: "read_string s = Some (v, t) \<Longrightarrow> length t < length s"
  by (auto simp: read_string_def dest!: read_chars_length split: list.splits if_splits)

lemma read_scalar_length: "read_scalar s = Some (v, t) \<Longrightarrow> length t \<le> length s"
  by (auto simp: read_scalar_def Let_def length_dropWhile_le split: if_splits)

lemma read_value_length: "read_value rec key s = Some (r, t) \<Longrightarrow> length t \<le> length s"
  by (auto simp: read_value_def dest!: read_string_length read_scalar_length
      split: list.splits if_splits option.splits)

lemma read_member_length:
  assumes "read_member rec s = Some (r, t)"
  shows "length t < length s"
proof -
  from assms obtain key s1 c s2 where "read_string (skip_ws s) = Some (key, s1)"
    and "skip_ws s1 = c # s2" and "read_value rec key (skip_ws s2) = Some (r, t)"
    by (auto simp: read_member_def split: option.splits list.splits if_splits)
  then show ?thesis
    using read_string_length [of "skip_ws s" key s1] skip_ws_length [of s] skip_ws_length [of s1]
      read_value_length [of rec key "skip_ws s2" r t] skip_ws_length [of s2] by simp
qed

function decode_loop :: "hs_record \<Rightarrow> string \<Rightarrow> hs_record option" where
  "decode_loop rec s =
     (if s = [] then None
      else case read_member rec s of
             None \<Rightarrow> None
           | Some (rec', s') \<Rightarrow>
               (case skip_ws s' of
                  [] \<Rightarrow> None
                | c # t \<Rightarrow>
                    if c = CHR '','' then decode_loop rec' t
                    else if c = CHR ''}'' then Some rec' else None))"
  by pat_completeness auto
termination
proof (relation "measure (\<lambda>(rec, s). length s)", goal_cases)
  case 1
  show ?case by simp
next
  case (2 rec s x rec' s' c t)
  then have "length s' < length s" by (auto dest: read_member_length)
  moreover have "length (c # t) \<le> length s'" using 2 skip_ws_length [of s'] by simp
  ultimately show ?case by simp
qed

declare decode_loop.simps [simp del]

definition decode_record :: "string \<Rightarrow> hs_record option" where
  "decode_record json =
     (case skip_ws json of
        [] \<Rightarrow> None
      | c # s \<Rightarrow>
          if c \<noteq> CHR ''{'' then None
          else (case skip_ws s of
                  [] \<Rightarrow> decode_loop empty_record []
                | d # t \<Rightarrow> if d = CHR ''}'' then Some empty_record
                           else decode_loop empty_record (d # t)))"

section \<open>Reading back what was written\<close>

lemma append_escaped_eq: "append_escaped out s = out @ concat (map escape_char s)"
  unfolding append_escaped_def by (induction s arbitrary: out) auto

text \<open>An escaped character is read back as that character, whatever follows.\<close>

lemma rec_hex_nth: "k < 16 \<Longrightarrow> rec_hex ! k = char_of (if k < 10 then 48 + k else 87 + k)"
proof -
  have t: "list_all (\<lambda>k. rec_hex ! k = char_of (if k < 10 then 48 + k else 87 + k)) [0..<16]"
    by code_simp
  show "k < 16 \<Longrightarrow> ?thesis" by (rule list_all_uptD [OF t]) auto
qed

lemma hex_val_rec_hex: "k < 16 \<Longrightarrow> hex_val (rec_hex ! k) = Some (word_of_nat k)"
  by (simp add: rec_hex_nth hex_val_def hs_simps)

lemma hex4_two: "a < 16 \<Longrightarrow> b < 16 \<Longrightarrow>
  hex4 0 [CHR ''0'', CHR ''0'', rec_hex ! a, rec_hex ! b] = Some (word_of_nat (push_bit 4 a OR b))"
proof -
  have "CHR ''0'' = rec_hex ! 0" by (simp add: rec_hex_def)
  then have z: "hex_val CHR ''0'' = Some 0" using hex_val_rec_hex [of 0] by simp
  assume "a < 16" "b < 16"
  then show ?thesis by (simp add: z hex_val_rec_hex of_nat_or_eq of_nat_push_bit)
qed

lemma nibbles_join: "push_bit 4 (drop_bit 4 n) OR (n AND 15) = (n :: nat)"
proof -
  have "n AND 15 = take_bit 4 n" by (simp add: take_bit_eq_mask mask_eq_exp_minus_1)
  then show ?thesis
    by (simp only:) (rule bit_eqI, auto simp: bit_or_iff bit_push_bit_iff bit_drop_bit_eq bit_take_bit_iff)
qed

lemma control_escape:
  "n < 32 \<Longrightarrow>
     hex4 0 [CHR ''0'', CHR ''0'', rec_hex ! (drop_bit 4 n AND 0x0f), rec_hex ! (n AND 0x0f)] =
       Some (word_of_nat n)"
proof -
  assume n: "n < 32"
  have m: "x AND 15 = x mod 16" for x :: nat
    using take_bit_eq_mask [of 4 x] by (simp add: take_bit_eq_mod mask_eq_exp_minus_1)
  have "drop_bit 4 n AND 15 = drop_bit 4 n" using n by (simp add: m drop_bit_eq_div)
  moreover have "drop_bit 4 n < 16" "n AND 15 < 16" using n by (simp_all add: m drop_bit_eq_div)
  ultimately show ?thesis using hex4_two [of "drop_bit 4 n" "n AND 15"] nibbles_join [of n] by simp
qed

lemma read_chars_control:
  assumes "chr_code c < 32"
  shows "read_chars out (bsl # ''u00'' @ [rec_hex ! (drop_bit 4 (chr_code c) AND 0x0f),
      rec_hex ! (chr_code c AND 0x0f)] @ s) = read_chars (out @ [c]) s"
proof -
  have w: "unat (word_of_nat (chr_code c) :: u32) = chr_code c"
    using assms by (simp add: unat_of_nat)
  then have "(word_of_nat (chr_code c) :: u32) < 0x80"
    using assms by (simp add: word_less_nat_alt)
  moreover have "simple_escape CHR ''u'' = None" by (simp add: simple_escape_def)
  ultimately show ?thesis
    using control_escape [OF assms] by (simp add: w del: hex4.simps)
qed

lemma read_chars_escape: "read_chars out (escape_char c @ s) = read_chars (out @ [c]) s"
proof -
  consider "c = dq" | "c = bsl" | "c = CHR 0x0A" | "c = CHR 0x0D" | "c = CHR 0x09"
    | "c \<notin> {dq, bsl, CHR 0x0A, CHR 0x0D, CHR 0x09}" "chr_code c < 32"
    | "c \<notin> {dq, bsl, CHR 0x0A, CHR 0x0D, CHR 0x09}" "\<not> chr_code c < 32"
    by blast
  then show ?thesis
  proof cases
    case 6
    then show ?thesis using read_chars_control [of c out s] by (simp add: escape_char_def)
  qed (simp_all add: escape_char_def simple_escape_def)
qed

lemma read_chars_escaped:
  "read_chars out (concat (map escape_char h) @ dq # s) = Some (out @ h, s)"
proof (induction h arbitrary: out)
  case Nil
  then show ?case by simp
next
  case (Cons c h)
  then show ?case by (simp add: read_chars_escape)
qed

lemma read_string_escaped:
  "read_string (dq # concat (map escape_char h) @ dq # s) = Some (h, s)"
  by (simp add: read_string_def read_chars_escaped)

lemma plain_string_escaped:
  "\<forall>c \<in> set h. c \<noteq> dq \<and> c \<noteq> bsl \<and> 32 \<le> chr_code c \<Longrightarrow> concat (map escape_char h) = h"
proof (induction h)
  case (Cons c h)
  have "chr_code CHR 0x0A < 32" "chr_code CHR 0x0D < 32" "chr_code CHR 0x09 < 32"
    by (simp_all add: chr_code_def)
  then have "c \<noteq> CHR 0x0A" "c \<noteq> CHR 0x0D" "c \<noteq> CHR 0x09" "\<not> chr_code c < 32"
    using Cons.prems by (metis list.set_intros(1) linorder_not_less)+
  then have "escape_char c = [c]" using Cons.prems by (simp add: escape_char_def)
  then show ?case using Cons by simp
qed simp

lemma digit_neq: "is_digit c \<Longrightarrow> \<not> is_digit d \<Longrightarrow> c \<noteq> d"
  by blast

lemma not_digit: "\<not> is_digit dq" "\<not> is_digit CHR '',''" "\<not> is_digit CHR ''}''" "\<not> is_digit CHR '' ''"
  "\<not> is_digit CHR 0x09" "\<not> is_digit CHR 0x0A" "\<not> is_digit CHR 0x0D" "\<not> is_digit CHR ''-''"
  "\<not> is_digit CHR ''+''" "\<not> is_digit CHR 0x00"
  by (simp_all add: is_digit_def chr_code_def)

lemma digit_not_special:
  assumes "is_digit c"
  shows "c \<noteq> dq" and "scalar_char c" and "\<not> is_ws c" and "c \<noteq> CHR ''-''" and "c \<noteq> CHR ''+''"
    and "c \<noteq> CHR 0x00"
proof -
  note neq = digit_neq [OF assms]
  show "c \<noteq> dq" "c \<noteq> CHR ''-''" "c \<noteq> CHR ''+''" "c \<noteq> CHR 0x00"
    by (rule neq, rule not_digit)+
  show "scalar_char c" unfolding scalar_char_def
    by (intro conjI neq not_digit)
  show "\<not> is_ws c" unfolding is_ws_def
    using neq [OF not_digit(4)] neq [OF not_digit(5)] neq [OF not_digit(6)] neq [OF not_digit(7)]
    by blast
qed

lemma digit_not_space: "is_digit c \<Longrightarrow> \<not> is_space c"
proof -
  assume "is_digit c"
  moreover from this have "c \<noteq> CHR '' ''" using not_digit(4) by blast
  ultimately show ?thesis unfolding is_digit_def is_space_def by linarith
qed

lemma takeWhile_all: "\<forall>c \<in> set s. P c \<Longrightarrow> takeWhile P (s @ t) = s @ takeWhile P t"
  by (induction s) auto

lemma dropWhile_all: "\<forall>c \<in> set s. P c \<Longrightarrow> dropWhile P (s @ t) = dropWhile P t"
  by (induction s) auto

lemma rtrim_ws_id: "s \<noteq> [] \<Longrightarrow> \<not> is_ws (last s) \<Longrightarrow> rtrim_ws s = s"
  by (cases s rule: rev_cases) (auto simp: rtrim_ws_def)

text \<open>A scalar without white space at its end, up to the comma or brace that ends it.\<close>

lemma read_scalar_raw:
  assumes "raw \<noteq> []" and "\<forall>c \<in> set raw. scalar_char c" and "\<not> is_ws (last raw)"
    and "\<not> scalar_char d"
  shows "read_scalar (raw @ d # s) = Some (raw, d # s)"
  using assms by (simp add: read_scalar_def takeWhile_all dropWhile_all rtrim_ws_id)

lemma strtol_dec: "n < 2 ^ 63 \<Longrightarrow> strtol (to_dec n) = (int n, [])"
proof -
  assume n: "n < 2 ^ 63"
  let ?s = "to_dec n"
  obtain c u where s: "?s = c # u" by (cases "?s") auto
  have ds: "\<forall>c \<in> set ?s. is_digit c" by (rule to_dec_digits)
  then have c: "is_digit c" by (simp add: s)
  have t: "dropWhile is_space ?s = ?s" using digit_not_space [OF c] by (simp add: s)
  have "takeWhile is_digit ?s = ?s" "dropWhile is_digit ?s = []"
    using ds by (simp_all add: dropWhile_eq_Nil_conv)
  moreover have "clamp_long (int n) = int n" using n by (simp add: clamp_long_def)
  ultimately show ?thesis
    using digit_not_special(4,5) [OF c] digit_not_space [OF c] dec_value_to_dec [of n]
    by (simp add: strtol_def t s del: dec_value_to_dec)
qed

lemma c_str_dec [simp]: "c_str (to_dec n) = to_dec n"
proof -
  have "\<forall>c \<in> set (to_dec n). c \<noteq> CHR 0x00"
  proof
    fix c
    assume "c \<in> set (to_dec n)"
    with to_dec_digits have "is_digit c" by (rule bspec)
    then show "c \<noteq> CHR 0x00" by (rule digit_not_special(6))
  qed
  then show ?thesis unfolding c_str_def by (rule takeWhile_eq_all_conv [THEN iffD2])
qed

lemma port_of_dec: "port_of_text (to_dec (unat p)) = (if p = 0 then None else Some p)"
proof -
  have p: "unat p < 65536" using unsigned_less [of p, where 'a = nat] by simp
  then have u: "uint p \<le> 65535" unfolding uint_nat by linarith
  from p have "strtol (to_dec (unat p)) = (int (unat p), [])" by (intro strtol_dec) simp
  moreover have "1 \<le> int (unat p) \<longleftrightarrow> p \<noteq> 0"
    by (metis less_eq_Suc_le of_nat_0_less_iff unat_gt_0 int_one_le_iff_zero_less)
  ultimately show ?thesis using u by (auto simp: port_of_text_def)
qed

lemma read_string_plain:
  "\<forall>c \<in> set k. c \<noteq> dq \<and> c \<noteq> bsl \<and> 32 \<le> chr_code c \<Longrightarrow>
     read_string (dq # k @ dq # s) = Some (k, s)"
  using read_string_escaped [of k s] plain_string_escaped [of k] by simp

text \<open>The members of an encoded record, one by one.\<close>

lemma skip_ws_id: "s = c # t \<Longrightarrow> \<not> is_ws c \<Longrightarrow> skip_ws s = s"
  by simp

lemma not_ws [simp]: "\<not> is_ws dq" "\<not> is_ws CHR '':''" "\<not> is_ws CHR '',''" "\<not> is_ws CHR ''}''"
  "\<not> is_ws CHR ''{''" "\<not> is_ws CHR ''t''" "\<not> is_ws CHR ''f''" "\<not> is_ws CHR ''e''"
  by (simp_all add: is_ws_def)

lemma scalar_chars [simp]: "\<not> scalar_char CHR '',''" "\<not> scalar_char CHR ''}''"
  by (simp_all add: scalar_char_def)

definition plain_char :: "char \<Rightarrow> bool" where
  "plain_char c \<longleftrightarrow> c \<noteq> dq \<and> c \<noteq> bsl \<and> 32 \<le> chr_code c"

lemma plain_keys: "list_all plain_char ''host''" "list_all plain_char ''udp''" "list_all plain_char ''port''"
  by (simp_all add: plain_char_def chr_code_def)

lemma read_string_key:
  "list_all plain_char k \<Longrightarrow> read_string (dq # k @ dq # s) = Some (k, s)"
  by (rule read_string_plain) (simp add: list_all_iff plain_char_def)

lemma read_member_key:
  "list_all plain_char k \<Longrightarrow> read_member rec (dq # k @ dq # CHR '':'' # s) = read_value rec k (skip_ws s)"
  by (simp add: read_member_def read_string_key)

lemma read_value_host:
  "read_value rec ''host'' (dq # concat (map escape_char h) @ dq # s) = Some (rec\<lparr>host := h\<rparr>, s)"
  using read_string_escaped [of h s] by (simp add: read_value_def)

lemma read_scalar_bool:
  "\<not> scalar_char d \<Longrightarrow> read_scalar ((if b then ''true'' else ''false'') @ d # s) =
     Some (if b then ''true'' else ''false'', d # s)"
  by (rule read_scalar_raw) (auto simp: scalar_char_def is_ws_def)

lemma read_value_udp:
  "read_value rec ''udp'' ((if b then ''true'' else ''false'') @ CHR '','' # s) =
     Some (rec\<lparr>udp := Some b\<rparr>, CHR '','' # s)"
  using read_scalar_bool [of "CHR '',''" b s] by (cases b) (simp_all add: read_value_def)

lemma read_value_port:
  "read_value rec ''port'' (to_dec (unat p) @ CHR ''}'' # s) =
     Some (if p = 0 then rec else rec\<lparr>port := Some p\<rparr>, CHR ''}'' # s)"
proof -
  let ?t = "to_dec (unat p)"
  obtain c u where t: "?t = c # u" by (cases ?t) auto
  have ds: "\<forall>c \<in> set ?t. is_digit c" by (rule to_dec_digits)
  then have c: "c \<noteq> dq" using digit_not_special(1) by (simp add: t)
  have r: "read_scalar ((c # u) @ CHR ''}'' # s) = Some (c # u, CHR ''}'' # s)"
    using ds digit_not_special(2,3) by (intro read_scalar_raw) (auto simp: t)
  have pt: "port_of_text (c # u) = (if p = 0 then None else Some p)"
    using port_of_dec [of p] by (simp only: t)
  have "read_value rec ''port'' ((c # u) @ CHR ''}'' # s) =
      Some (if p = 0 then rec else rec\<lparr>port := Some p\<rparr>, CHR ''}'' # s)"
    using r by (simp add: read_value_def c pt)
  then show ?thesis by (simp only: t)
qed

lemma skip_ws_dec [simp]: "skip_ws (to_dec n @ s) = to_dec n @ s"
proof -
  obtain c u where t: "to_dec n = c # u" by (cases "to_dec n") auto
  then have "\<not> is_ws c" using to_dec_digits [of n] digit_not_special(3) by simp
  then show ?thesis by (simp add: t)
qed

lemma skip_ws_bool [simp]:
  "skip_ws ((if b then ''true'' else ''false'') @ s) = (if b then ''true'' else ''false'') @ s"
  by (simp add: is_ws_def)

lemma decode_loop_port:
  "decode_loop rec (dq # ''port'' @ dq # CHR '':'' # to_dec (unat p) @ CHR ''}'' # s) =
     Some (if p = 0 then rec else rec\<lparr>port := Some p\<rparr>)"
  by (subst decode_loop.simps)
     (simp only: read_member_key [OF plain_keys(3)] skip_ws_dec read_value_port, simp)

lemma decode_loop_udp:
  "decode_loop rec (dq # ''udp'' @ dq # CHR '':'' # (if b then ''true'' else ''false'') @ CHR '','' # s) =
     decode_loop (rec\<lparr>udp := Some b\<rparr>) s"
  by (subst decode_loop.simps)
     (simp only: read_member_key [OF plain_keys(2)] skip_ws_bool read_value_udp, simp)

lemma decode_loop_host:
  "decode_loop rec (dq # ''host'' @ dq # CHR '':'' # dq # concat (map escape_char h) @ dq # CHR '','' # s) =
     decode_loop (rec\<lparr>host := h\<rparr>) s"
  by (subst decode_loop.simps)
     (simp only: read_member_key [OF plain_keys(1)] skip_ws.simps not_ws if_False read_value_host, simp)

lemma encode_record_eq:
  "encode_record h u p =
     CHR ''{'' # dq # ''host'' @ dq # CHR '':'' # dq # concat (map escape_char h) @ dq # CHR '','' #
     (case u of None \<Rightarrow> []
      | Some b \<Rightarrow> dq # ''udp'' @ dq # CHR '':'' # (if b then ''true'' else ''false'') @ '','') @
     dq # ''port'' @ dq # CHR '':'' # to_dec (unat p) @ ''}''"
  by (cases u) (simp_all add: encode_record_def append_escaped_eq Let_def)

lemma decode_encode_record:
  "decode_record (encode_record h u p @ junk) =
     Some \<lparr>host = h, udp = u, port = (if p = 0 then None else Some p)\<rparr>"
proof -
  have "decode_record (encode_record h u p @ junk) =
     decode_loop empty_record (tl (encode_record h u p @ junk))"
    by (simp add: decode_record_def encode_record_eq)
  also have "\<dots> = decode_loop (empty_record\<lparr>host := h\<rparr>)
     ((case u of None \<Rightarrow> []
      | Some b \<Rightarrow> dq # ''udp'' @ dq # CHR '':'' # (if b then ''true'' else ''false'') @ '','') @
     dq # ''port'' @ dq # CHR '':'' # to_dec (unat p) @ ''}'' @ junk)"
    using decode_loop_host [of empty_record h] by (simp add: encode_record_eq)
  also have "\<dots> = decode_loop (empty_record\<lparr>host := h, udp := u\<rparr>)
     (dq # ''port'' @ dq # CHR '':'' # to_dec (unat p) @ ''}'' @ junk)"
  proof (cases u)
    case None
    then show ?thesis by (simp add: empty_record_def)
  next
    case (Some b)
    then show ?thesis using decode_loop_udp [of "empty_record\<lparr>host := h\<rparr>" b] by simp
  qed
  also have "\<dots> = Some \<lparr>host = h, udp = u, port = (if p = 0 then None else Some p)\<rparr>"
    using decode_loop_port [of "empty_record\<lparr>host := h, udp := u\<rparr>" p junk]
    by (simp add: empty_record_def)
  finally show ?thesis .
qed

text \<open>The writer and the reader as a codec on the records a server can publish.\<close>

definition write_record :: "hs_record \<Rightarrow> string" where
  "write_record r = encode_record (host r) (udp r) (case port r of None \<Rightarrow> 0 | Some p \<Rightarrow> p)"

definition publishable :: "hs_record \<Rightarrow> bool" where
  "publishable r \<longleftrightarrow> port r \<noteq> Some 0"

interpretation rec_codec: codec write_record decode_record publishable
proof
  fix x assume "publishable x"
  then show "decode_record (write_record x) = Some x"
    using decode_encode_record [of "host x" "udp x" _ "[]"]
    by (cases x) (auto simp: write_record_def publishable_def split: option.splits)
qed

section \<open>What the reader accepts\<close>

text \<open>
  Every record the reader accepts carries a port in range, so it can be published again and
  is read back unchanged.
\<close>

lemma port_of_text_nonzero: "port_of_text raw = Some p \<Longrightarrow> p \<noteq> 0"
proof -
  assume a: "port_of_text raw = Some p"
  obtain v e where "strtol (c_str raw) = (v, e)" by (cases "strtol (c_str raw)")
  with a have v: "1 \<le> v" "v \<le> 65535" and p: "p = word_of_int v"
    by (auto simp: port_of_text_def split: if_splits)
  have "uint p = v" using v by (simp add: p uint_word_of_int_eq take_bit_int_eq_self_iff)
  with v show "p \<noteq> 0" by auto
qed

lemma read_value_publishable:
  "read_value rec key s = Some (r, t) \<Longrightarrow> publishable rec \<Longrightarrow> publishable r"
  by (auto simp: read_value_def publishable_def dest: port_of_text_nonzero
      split: list.splits option.splits if_splits)

lemma read_member_publishable:
  "read_member rec s = Some (r, t) \<Longrightarrow> publishable rec \<Longrightarrow> publishable r"
  by (auto simp: read_member_def dest: read_value_publishable
      split: list.splits option.splits if_splits)

lemma decode_loop_publishable: "decode_loop rec s = Some r \<Longrightarrow> publishable rec \<Longrightarrow> publishable r"
proof (induction rec s rule: decode_loop.induct)
  case (1 rec s)
  from "1.prems"(1) have "s \<noteq> []" by (subst (asm) decode_loop.simps) (auto split: if_splits)
  with "1.prems"(1) obtain r1 s1 c t where m: "read_member rec s = Some (r1, s1)" "skip_ws s1 = c # t"
    and rest: "(if c = CHR '','' then decode_loop r1 t else if c = CHR ''}'' then Some r1 else None) = Some r"
    by (subst (asm) decode_loop.simps) (auto split: option.splits list.splits)
  have pub: "publishable r1" using m(1) "1.prems"(2) by (rule read_member_publishable)
  show ?case
  proof (cases "c = CHR '',''")
    case True
    with rest have "decode_loop r1 t = Some r" by simp
    then show ?thesis using "1.IH" [OF \<open>s \<noteq> []\<close> m(1) refl m(2) True] pub by blast
  next
    case False
    then show ?thesis using rest pub by (simp split: if_splits)
  qed
qed

text \<open>The outermost object: empty, or a sequence of members.\<close>

lemma decode_record_cases:
  assumes "decode_record s = Some r"
  obtains s1 d s2 where "skip_ws s = CHR ''{'' # s1" and "skip_ws s1 = d # s2"
    and "if d = CHR ''}'' then r = empty_record else decode_loop empty_record (d # s2) = Some r"
proof -
  have nil: "decode_loop empty_record [] = None" by (subst decode_loop.simps) simp
  obtain c s1 where s1: "skip_ws s = c # s1"
    using assms by (cases "skip_ws s") (simp_all add: decode_record_def)
  with assms have c: "c = CHR ''{''" by (cases "c = CHR ''{''") (simp_all add: decode_record_def)
  obtain d s2 where s2: "skip_ws s1 = d # s2"
    using assms s1 c nil by (cases "skip_ws s1") (simp_all add: decode_record_def)
  from assms have "if d = CHR ''}'' then r = empty_record else decode_loop empty_record (d # s2) = Some r"
    by (cases "d = CHR ''}''") (simp_all add: decode_record_def s1 c s2)
  then show thesis using that s1 s2 c by blast
qed

lemma decode_record_publishable: "decode_record s = Some r \<Longrightarrow> publishable r"
proof (erule decode_record_cases)
  fix s1 d s2
  have e: "publishable empty_record" by (simp add: publishable_def empty_record_def)
  assume "if d = CHR ''}'' then r = empty_record else decode_loop empty_record (d # s2) = Some r"
  then show "publishable r"
    using e decode_loop_publishable by (cases "d = CHR ''}''") simp_all
qed

text \<open>Reading is decided by the text up to the closing brace; what follows is never looked at.\<close>

lemma skip_ws_append: "skip_ws s = c # u \<Longrightarrow> skip_ws (s @ t) = c # u @ t"
  by (induction s) (auto split: if_splits)

lemma read_chars_append: "read_chars out s = Some (v, u) \<Longrightarrow> read_chars out (s @ t) = Some (v, u @ t)"
  by (induction out s arbitrary: v rule: read_chars.induct)
     (fastforce split: if_splits option.splits list.splits)+

lemma read_string_append: "read_string s = Some (v, u) \<Longrightarrow> read_string (s @ t) = Some (v, u @ t)"
  by (auto simp: read_string_def read_chars_append split: list.splits if_splits)

lemma read_scalar_append:
  assumes "read_scalar s = Some (v, u)" and "u \<noteq> []"
  shows "read_scalar (s @ t) = Some (v, u @ t)"
proof -
  from assms have u: "u = dropWhile scalar_char s" and v: "v = rtrim_ws (takeWhile scalar_char s)" "v \<noteq> []"
    by (auto simp: read_scalar_def Let_def split: if_splits)
  have "\<exists>c \<in> set s. \<not> scalar_char c" using assms(2) u by (auto simp: dropWhile_eq_Nil_conv)
  then have "takeWhile scalar_char (s @ t) = takeWhile scalar_char s"
    "dropWhile scalar_char (s @ t) = dropWhile scalar_char s @ t"
    by (auto simp: takeWhile_append1 dropWhile_append1)
  then show ?thesis using v u by (simp add: read_scalar_def)
qed

lemma read_value_append:
  assumes "read_value rec key s = Some (r, u)" and "u \<noteq> []"
  shows "read_value rec key (s @ t) = Some (r, u @ t)"
proof (cases s)
  case Nil
  with assms show ?thesis by (simp add: read_value_def)
next
  case (Cons c s')
  show ?thesis
  proof (cases "c = dq")
    case True
    with assms Cons obtain v where "read_string s = Some (v, u)"
      by (auto simp: read_value_def split: option.splits)
    then show ?thesis using assms Cons True read_string_append [of s v u t]
      by (simp add: read_value_def)
  next
    case False
    with assms Cons obtain v where "read_scalar s = Some (v, u)"
      by (auto simp: read_value_def split: option.splits)
    then show ?thesis using assms Cons False read_scalar_append [of s v u t]
      by (simp add: read_value_def)
  qed
qed

lemma read_member_append:
  assumes "read_member rec s = Some (r, u)" and "u \<noteq> []"
  shows "read_member rec (s @ t) = Some (r, u @ t)"
proof -
  from assms(1) obtain key s1 s2 where a: "read_string (skip_ws s) = Some (key, s1)"
    "skip_ws s1 = CHR '':'' # s2" "read_value rec key (skip_ws s2) = Some (r, u)"
    by (auto simp: read_member_def split: option.splits list.splits if_splits)
  obtain c s0 where s0: "skip_ws s = c # s0" using a(1) by (cases "skip_ws s") (auto simp: read_string_def)
  obtain d s3 where s3: "skip_ws s2 = d # s3" using a(3) by (cases "skip_ws s2") (auto simp: read_value_def)
  show ?thesis
    using read_string_append [OF a(1), of t] skip_ws_append [OF s0, of t] skip_ws_append [OF a(2), of t]
      skip_ws_append [OF s3, of t] read_value_append [OF a(3) assms(2), of t]
    by (simp add: read_member_def s0 s3)
qed

lemma decode_loop_append: "decode_loop rec s = Some r \<Longrightarrow> decode_loop rec (s @ t) = Some r"
proof (induction rec s rule: decode_loop.induct)
  case (1 rec s)
  from "1.prems" have "s \<noteq> []" by (subst (asm) decode_loop.simps) (auto split: if_splits)
  with "1.prems" obtain r1 s1 c u where m: "read_member rec s = Some (r1, s1)" "skip_ws s1 = c # u"
    and rest: "(if c = CHR '','' then decode_loop r1 u else if c = CHR ''}'' then Some r1 else None) = Some r"
    by (subst (asm) decode_loop.simps) (auto split: option.splits list.splits)
  have "s1 \<noteq> []" using m(2) by auto
  note app = read_member_append [OF m(1) this, of t] skip_ws_append [OF m(2), of t]
  have "c = CHR '','' \<Longrightarrow> decode_loop r1 (u @ t) = Some r"
    using "1.IH" [OF \<open>s \<noteq> []\<close> m(1) refl m(2)] rest by simp
  then show ?case using rest \<open>s \<noteq> []\<close> app
    by (subst decode_loop.simps) (simp split: if_splits)
qed

lemma decode_record_append:
  assumes "decode_record s = Some r"
  shows "decode_record (s @ t) = Some r"
  using assms
proof (rule decode_record_cases)
  fix s1 d s2
  assume s1: "skip_ws s = CHR ''{'' # s1" and s2: "skip_ws s1 = d # s2"
    and r: "if d = CHR ''}'' then r = empty_record else decode_loop empty_record (d # s2) = Some r"
  show ?thesis
    using r skip_ws_append [OF s1, of t] skip_ws_append [OF s2, of t]
      decode_loop_append [of empty_record "d # s2" r t]
    by (cases "d = CHR ''}''") (simp_all add: decode_record_def)
qed

section \<open>Properties\<close>


text \<open>
  C31: What the decoder accepts from the network is always usable: a port, if present, lies
  between 1 and 65535, and the record can be published again and is then read back unchanged.
\<close>

theorem record_reader_sound:
  assumes "decode_record s = Some r"
  shows "(case port r of None \<Rightarrow> True | Some p \<Rightarrow> 1 \<le> unat p \<and> unat p \<le> 65535) \<and>
    decode_record (write_record r) = Some r"
proof -
  have pub: "publishable r" using assms by (rule decode_record_publishable)
  have "unat p \<le> 65535" for p :: u16 using unsigned_less [of p, where 'a = nat] by simp
  then show ?thesis
    using pub rec_codec.dec_enc [OF pub] by (auto simp: publishable_def Suc_le_eq unat_gt_0 split: option.split)
qed

theorem record_reader_sound_witness:
  "decode_record (write_record \<lparr>host = ''a'', udp = Some True, port = Some 80\<rparr>) =
     Some \<lparr>host = ''a'', udp = Some True, port = Some 80\<rparr>"
proof -
  have "decode_record (encode_record ''a'' (Some True) 80 @ ''x'') =
      Some \<lparr>host = ''a'', udp = Some True, port = Some 80\<rparr>"
    using decode_encode_record [of "''a''" "Some True" 80 "''x''"] by simp
  from record_reader_sound [OF this] show ?thesis by simp
qed

text \<open>
  The decoder does not ask for a well-formed document, only for a well-formed first
  object: whatever it accepts, it also accepts, with the same result, with any text appended.
\<close>

theorem record_trailing_ignored:
  assumes "decode_record s = Some r"
  shows "decode_record (s @ t) = Some r"
  using assms by (rule decode_record_append)

theorem record_trailing_ignored_witness:
  "decode_record (encode_record ''a'' None 80 @ '' {['') = Some \<lparr>host = ''a'', udp = None, port = Some 80\<rparr>"
proof -
  have "decode_record (encode_record ''a'' None 80) = Some \<lparr>host = ''a'', udp = None, port = Some 80\<rparr>"
    using decode_encode_record [of "''a''" None 80 "[]"] by simp
  from record_trailing_ignored [OF this] show ?thesis .
qed

end
