(* ===== verification/Hs_Frame.thy ===== *)
theory Hs_Frame
  imports Hs_Prelude
begin

unbundle bit_operations_syntax

text \<open>
  The datagram framing of \<^verbatim>\<open>src/udp_pipe.cpp\<close>: \<^verbatim>\<open>frame\<close> and \<^verbatim>\<open>FrameDecoder\<close>. A frame is a
  32-bit big-endian length followed by the payload. The decoder keeps the bytes it could
  not use yet; \<^verbatim>\<open>push\<close> appends a chunk, hands every complete frame to its callback in order
  (here: the list of emitted payloads) and reports \<open>False\<close> on an oversized header.
\<close>

section \<open>Frames\<close>

definition kMaxDatagram :: nat where "kMaxDatagram = 65535"

text \<open>The four header bytes of a \<^verbatim>\<open>size_t\<close> length (the bits above 32 are not written).\<close>

definition frame_header :: "u64 \<Rightarrow> byte list" where
  "frame_header len =
     [ucast (drop_bit 24 len AND 0xff), ucast (drop_bit 16 len AND 0xff),
      ucast (drop_bit 8 len AND 0xff), ucast (len AND 0xff)]"

definition frame :: "byte list \<Rightarrow> byte list" where
  "frame data = frame_header (word_of_nat (length data)) @ data"

definition frame_len_at :: "byte list \<Rightarrow> u32" where
  "frame_len_at p =
     push_bit 24 (ucast (p ! 0)) OR push_bit 16 (ucast (p ! 1)) OR
     push_bit 8 (ucast (p ! 2)) OR ucast (p ! 3)"

section \<open>The decoder\<close>

text \<open>
  The loop of \<^verbatim>\<open>push\<close> over the buffer, from \<open>offset\<close>; \<open>out\<close> is what the callback has seen.
  The result is the return value, the final offset and the emitted payloads. The addition
  of the header size is on \<^verbatim>\<open>size_t\<close>, so it does not wrap.
\<close>

function push_loop :: "byte list \<Rightarrow> nat \<Rightarrow> byte list list \<Rightarrow> bool \<times> nat \<times> byte list list" where
  "push_loop buf offset out =
     (if offset + 4 \<le> length buf then
        let frame_len = frame_len_at (drop offset buf) in
        if kMaxDatagram < unat frame_len then (False, offset, out)
        else let total = 4 + unat frame_len in
             if length buf - offset < total then (True, offset, out)
             else push_loop buf (offset + total)
                    (out @ [take (unat frame_len) (drop (offset + 4) buf)])
      else (True, offset, out))"
  by pat_completeness auto
termination
  by (relation "measure (\<lambda>(buf, offset, out). length buf - offset)") auto

declare push_loop.simps [simp del]

text \<open>\<^verbatim>\<open>FrameDecoder::push\<close> on the bytes \<open>buffer\<close> kept so far: result, bytes kept, payloads.\<close>

definition decoder_push :: "byte list \<Rightarrow> byte list \<Rightarrow> bool \<times> byte list \<times> byte list list" where
  "decoder_push buffer data =
     (let buf = buffer @ data
      in case push_loop buf 0 [] of (ok, offset, out) \<Rightarrow> (ok, drop offset buf, out))"

definition decoder_reset :: "byte list \<Rightarrow> byte list" where
  "decoder_reset buffer = []"

section \<open>The header is a codec\<close>

lemma byte_of_word: "(ucast (w AND 0xff) :: byte) = ucast (w :: u64)"
proof -
  have m: "(0xff :: u64) = mask 8" by (simp add: mask_eq_exp_minus_1)
  show ?thesis unfolding m by (rule bit_word_eqI) (simp add: bit_simps del: mask_numeral)
qed

lemma length_frame_header [simp]: "length (frame_header len) = 4"
  by (simp add: frame_header_def)

lemma frame_len_at_header: "frame_len_at (frame_header len @ p) = ucast len"
proof -
  have "bit (frame_len_at (frame_header len @ p)) i = bit (ucast len :: u32) i" if "i < 32" for i
  proof -
    consider "i < 8" | "8 \<le> i \<and> i < 16" | "16 \<le> i \<and> i < 24" | "24 \<le> i" by linarith
    then show ?thesis using that
      by cases (auto simp: frame_len_at_def frame_header_def byte_of_word bit_simps)
  qed
  then show ?thesis by (intro bit_word_eqI) simp
qed

lemma frame_header_len_at:
  assumes "length p = 4"
  shows "frame_header (ucast (frame_len_at p)) = p"
proof -
  from assms obtain a b c d where p: "p = [a, b, c, d]"
    by (auto simp: length_Suc_conv numeral_eq_Suc)
  have b8: "8 \<le> n \<Longrightarrow> \<not> bit (x :: byte) n" for x n using bit_imp_le_length [of x n] by auto
  show ?thesis
    unfolding p frame_header_def frame_len_at_def byte_of_word
    by (auto intro!: bit_word_eqI simp: bit_simps b8)
qed

text \<open>The header as a canonical codec of 32-bit lengths.\<close>

definition header_enc :: "u32 \<Rightarrow> byte list" where
  "header_enc n = frame_header (ucast n)"

definition header_dec :: "byte list \<Rightarrow> u32 option" where
  "header_dec p = (if length p = 4 then Some (frame_len_at p) else None)"

interpretation header: canonical_codec header_enc header_dec "\<lambda>_. True"
proof
  fix n :: u32
  have "ucast (ucast n :: u64) = n" by (rule bit_word_eqI) (simp add: bit_simps)
  then show "header_dec (header_enc n) = Some n"
    using frame_len_at_header [of "ucast n" "[]"] by (simp add: header_dec_def header_enc_def)
next
  fix p n
  assume "header_dec p = Some n"
  then show "True \<and> header_enc n = p"
    by (auto simp: header_dec_def header_enc_def frame_header_len_at split: if_splits)
qed

section \<open>The reference decoder\<close>

text \<open>What a byte string means as a sequence of frames: verdict, undecoded rest, payloads.\<close>

function deframe :: "byte list \<Rightarrow> bool \<times> byte list \<times> byte list list" where
  "deframe bs =
     (if 4 \<le> length bs then
        let n = unat (frame_len_at bs) in
        if kMaxDatagram < n then (False, bs, [])
        else if length bs < 4 + n then (True, bs, [])
        else (case deframe (drop (4 + n) bs) of (ok, r, fs) \<Rightarrow> (ok, r, take n (drop 4 bs) # fs))
      else (True, bs, []))"
  by pat_completeness auto
termination
  by (relation "measure length") auto

declare deframe.simps [simp del]

lemma deframe_short: "length bs < 4 \<Longrightarrow> deframe bs = (True, bs, [])"
  by (subst deframe.simps) simp

lemma frame_len_at_append [simp]: "4 \<le> length p \<Longrightarrow> frame_len_at (p @ q) = frame_len_at p"
proof -
  assume "4 \<le> length p"
  then have "0 < length p" "1 < length p" "2 < length p" "3 < length p" by linarith+
  then show ?thesis by (simp add: frame_len_at_def nth_append)
qed

lemma deframe_Cons_frame:
  assumes "4 \<le> length bs" and "unat (frame_len_at bs) \<le> kMaxDatagram"
    and "4 + unat (frame_len_at bs) \<le> length bs"
  shows "deframe bs =
    (case deframe (drop (4 + unat (frame_len_at bs)) bs) of
       (ok, r, fs) \<Rightarrow> (ok, r, take (unat (frame_len_at bs)) (drop 4 bs) # fs))"
  using assms by (subst deframe.simps) (simp add: Let_def)

text \<open>The shape of the result, by the three ways the loop ends.\<close>

lemma deframe_cases:
  obtains (short) "length bs < 4" "deframe bs = (True, bs, [])"
  | (oversized) "4 \<le> length bs" "kMaxDatagram < unat (frame_len_at bs)" "deframe bs = (False, bs, [])"
  | (waiting) "4 \<le> length bs" "unat (frame_len_at bs) \<le> kMaxDatagram"
      "length bs < 4 + unat (frame_len_at bs)" "deframe bs = (True, bs, [])"
  | (frame) "4 \<le> length bs" "unat (frame_len_at bs) \<le> kMaxDatagram"
      "4 + unat (frame_len_at bs) \<le> length bs"
proof -
  show thesis
  proof (cases "length bs < 4")
    case True
    then show ?thesis using short deframe_short by blast
  next
    case False
    then have l: "4 \<le> length bs" by simp
    show ?thesis
    proof (cases "kMaxDatagram < unat (frame_len_at bs)")
      case True
      have "deframe bs = (False, bs, [])" using l True by (subst deframe.simps) simp
      then show ?thesis using oversized l True by blast
    next
      case no: False
      show ?thesis
      proof (cases "length bs < 4 + unat (frame_len_at bs)")
        case True
        have "deframe bs = (True, bs, [])" using l no True by (subst deframe.simps) simp
        then show ?thesis using waiting l no True by simp
      next
        case False
        then show ?thesis using frame l no by simp
      qed
    qed
  qed
qed

lemma deframe_suffix:
  "deframe bs = (ok, r, fs) \<Longrightarrow> \<exists>u. bs = u @ r"
proof (induction bs arbitrary: ok r fs rule: deframe.induct)
  case (1 bs)
  show ?case
  proof (cases bs rule: deframe_cases)
    case frame
    let ?n = "unat (frame_len_at bs)"
    obtain ok' r' fs' where d: "deframe (drop (4 + ?n) bs) = (ok', r', fs')"
      by (cases "deframe (drop (4 + ?n) bs)")
    with "1.prems" have r: "r' = r" by (simp add: deframe_Cons_frame [OF frame])
    obtain u where "drop (4 + ?n) bs = u @ r'"
      using "1.IH" [OF frame(1) refl _ _ d] frame by auto
    then have "bs = (take (4 + ?n) bs @ u) @ r" using r by (metis append.assoc append_take_drop_id)
    then show ?thesis by blast
  qed (use "1.prems" in auto)
qed

text \<open>\<^verbatim>\<open>push\<close> is the reference decoder on the kept bytes and the chunk.\<close>

lemma push_loop_deframe:
  "offset \<le> length buf \<Longrightarrow> push_loop buf offset out =
     (case deframe (drop offset buf) of (ok, r, fs) \<Rightarrow> (ok, length buf - length r, out @ fs))"
proof (induction buf offset out rule: push_loop.induct)
  case (1 buf offset out)
  let ?bs = "drop offset buf" and ?n = "unat (frame_len_at (drop offset buf))"
  show ?case
  proof (cases ?bs rule: deframe_cases)
    case frame
    have o: "offset + 4 \<le> length buf" "offset + (4 + ?n) \<le> length buf"
      using frame "1.prems" by auto
    have "push_loop buf offset out =
        push_loop buf (offset + (4 + ?n)) (out @ [take ?n (drop (offset + 4) buf)])"
      using o frame by (subst push_loop.simps) (simp add: Let_def)
    also have "\<dots> = (case deframe (drop (offset + (4 + ?n)) buf) of
        (ok, r, fs) \<Rightarrow> (ok, length buf - length r, (out @ [take ?n (drop (offset + 4) buf)]) @ fs))"
      using "1.IH" [OF o(1) refl _ refl] frame o by simp
    finally show ?thesis
      by (simp add: deframe_Cons_frame [OF frame] add_ac split: prod.splits)
  next
    case short
    then show ?thesis using "1.prems" by (subst push_loop.simps) auto
  next
    case oversized
    then have "offset + 4 \<le> length buf" by auto
    then show ?thesis using "1.prems" oversized by (subst push_loop.simps) (simp add: Let_def)
  next
    case waiting
    then have "offset + 4 \<le> length buf" by auto
    then show ?thesis using "1.prems" waiting by (subst push_loop.simps) (simp add: Let_def)
  qed
qed

lemma decoder_push_deframe: "decoder_push buffer data = deframe (buffer @ data)"
proof -
  obtain ok r fs where d: "deframe (buffer @ data) = (ok, r, fs)" by (cases "deframe (buffer @ data)")
  then obtain u where "buffer @ data = u @ r" using deframe_suffix by blast
  then have "drop (length (buffer @ data) - length r) (buffer @ data) = r" by simp
  then show ?thesis
    using push_loop_deframe [of 0 "buffer @ data" "[]"] d by (simp add: decoder_push_def Let_def)
qed

section \<open>Chunks do not matter, nothing is lost\<close>

lemma deframe_append:
  "deframe a = (ok, r, fs) \<Longrightarrow> deframe (a @ b) =
     (if ok then case deframe (r @ b) of (ok2, r2, gs) \<Rightarrow> (ok2, r2, fs @ gs) else (False, r @ b, fs))"
proof (induction a arbitrary: ok r fs rule: deframe.induct)
  case (1 a)
  show ?case
  proof (cases a rule: deframe_cases)
    case oversized
    then have "deframe (a @ b) = (False, a @ b, [])" by (subst deframe.simps) (simp add: Let_def)
    then show ?thesis using "1.prems" oversized by simp
  next
    case frame
    let ?n = "unat (frame_len_at a)"
    obtain ok' r' fs' where d: "deframe (drop (4 + ?n) a) = (ok', r', fs')"
      by (cases "deframe (drop (4 + ?n) a)")
    with "1.prems" have eq: "ok = ok'" "r = r'" "fs = take ?n (drop 4 a) # fs'"
      by (auto simp: deframe_Cons_frame [OF frame])
    have IH: "deframe (drop (4 + ?n) a @ b) = (if ok' then case deframe (r' @ b) of
        (ok2, r2, gs) \<Rightarrow> (ok2, r2, fs' @ gs) else (False, r' @ b, fs'))"
      using "1.IH" [OF frame(1) refl _ _ d] frame by simp
    have "deframe (a @ b) = (case deframe (drop (4 + ?n) a @ b) of
        (ok, r, fs) \<Rightarrow> (ok, r, take ?n (drop 4 a) # fs))"
      using frame deframe_Cons_frame [of "a @ b"] by simp
    then show ?thesis using IH eq by (simp split: prod.splits)
  qed (use "1.prems" in \<open>auto split: prod.splits\<close>)
qed

lemma frame_len_at_frame:
  assumes "length d \<le> kMaxDatagram"
  shows "unat (frame_len_at (frame d @ p)) = length d"
  using assms by (simp add: frame_def frame_len_at_header unsigned_ucast_eq unat_of_nat
      take_bit_nat_eq_self_iff kMaxDatagram_def)

lemma length_frame [simp]: "length (frame d) = 4 + length d"
  by (simp add: frame_def)

lemma drop_frame: "drop 4 (frame d @ p) = d @ p"
  by (simp add: frame_def)

lemma deframe_frame:
  assumes "length d \<le> kMaxDatagram"
  shows "deframe (frame d @ p) = (case deframe p of (ok, r, fs) \<Rightarrow> (ok, r, d # fs))"
proof -
  have n: "unat (frame_len_at (frame d)) = length d"
    using frame_len_at_frame [OF assms, of "[]"] by simp
  have "drop 4 (frame d) = d" using drop_frame [of d "[]"] by simp
  then show ?thesis
    using deframe_Cons_frame [of "frame d @ p"] assms by (simp add: n)
qed

lemma frame_take:
  assumes "4 \<le> length bs" and "4 + unat (frame_len_at bs) \<le> length bs"
  shows "frame (take (unat (frame_len_at bs)) (drop 4 bs)) = take (4 + unat (frame_len_at bs)) bs"
proof -
  have "frame_len_at (take 4 bs) = frame_len_at bs"
    using assms(1) frame_len_at_append [of "take 4 bs" "drop 4 bs"] by simp
  then have "frame_header (ucast (frame_len_at bs)) = take 4 bs"
    using frame_header_len_at [of "take 4 bs"] assms(1) by simp
  moreover have "word_of_nat (unat (frame_len_at bs)) = (ucast (frame_len_at bs) :: u64)"
    by simp
  ultimately show ?thesis using assms by (simp add: frame_def take_add)
qed

text \<open>Whatever arrives, it is the frames of the payloads emitted so far and the kept bytes.\<close>

lemma deframe_conservation: "deframe bs = (ok, r, fs) \<Longrightarrow> bs = concat (map frame fs) @ r"
proof (induction bs arbitrary: ok r fs rule: deframe.induct)
  case (1 bs)
  show ?case
  proof (cases bs rule: deframe_cases)
    case frame
    let ?n = "unat (frame_len_at bs)"
    obtain ok' r' fs' where d: "deframe (drop (4 + ?n) bs) = (ok', r', fs')"
      by (cases "deframe (drop (4 + ?n) bs)")
    with "1.prems" have eq: "r = r'" "fs = take ?n (drop 4 bs) # fs'"
      by (auto simp: deframe_Cons_frame [OF frame])
    have "drop (4 + ?n) bs = concat (map frame fs') @ r'"
      using "1.IH" [OF frame(1) refl _ _ d] frame by simp
    then show ?thesis
      using append_take_drop_id [of "4 + ?n" bs] frame_take [OF frame(1,3)] eq by simp
  qed (use "1.prems" in auto)
qed

lemma deframe_bounds:
  "deframe bs = (ok, r, fs) \<Longrightarrow>
     (ok \<longrightarrow> length r < 4 + kMaxDatagram) \<and> (\<forall>f \<in> set fs. length f \<le> kMaxDatagram) \<and>
     (\<not> ok \<longrightarrow> 4 \<le> length r \<and> kMaxDatagram < unat (frame_len_at r))"
proof (induction bs arbitrary: ok r fs rule: deframe.induct)
  case (1 bs)
  show ?case
  proof (cases bs rule: deframe_cases)
    case frame
    let ?n = "unat (frame_len_at bs)"
    obtain ok' r' fs' where d: "deframe (drop (4 + ?n) bs) = (ok', r', fs')"
      by (cases "deframe (drop (4 + ?n) bs)")
    then show ?thesis
      using "1.IH" [OF frame(1) refl _ _ d] "1.prems" frame by (auto simp: deframe_Cons_frame [OF frame])
  qed (use "1.prems" in \<open>auto simp: kMaxDatagram_def\<close>)
qed

interpretation framing: incremental decoder_push "[]" frame "\<lambda>d. length d \<le> kMaxDatagram"
proof
  show "decoder_push [] [] = (True, [], [])"
    by (simp add: decoder_push_deframe deframe_short)
next
  fix b xs b1 fs ys
  assume "decoder_push b xs = (True, b1, fs)"
  then show "decoder_push b (xs @ ys) = (case decoder_push b1 ys of (r, b2, gs) \<Rightarrow> (r, b2, fs @ gs))"
    using deframe_append [of "b @ xs" True b1 fs ys] by (simp add: decoder_push_deframe)
next
  fix b xs b1 fs ys
  assume "decoder_push b xs = (False, b1, fs)"
  then show "\<exists>b2. decoder_push b (xs @ ys) = (False, b2, fs)"
    using deframe_append [of "b @ xs" False b1 fs ys] by (simp add: decoder_push_deframe)
next
  fix f :: "byte list"
  assume "length f \<le> kMaxDatagram"
  from deframe_frame [OF this, of "[]"] show "decoder_push [] (frame f) = (True, [], [f])"
    by (simp add: decoder_push_deframe deframe_short)
qed

section \<open>Properties\<close>

text \<open>
  C8: The incremental decoder is the reference decoder on all the bytes seen so far, and it
  neither loses nor invents any: its input is the frames of the payloads it emitted followed
  by what it keeps; every payload fits the cap; while it accepts, it keeps less than one
  maximal frame; and it rejects only when a complete header claims more than the cap.
\<close>

theorem frame_decoder_sound:
  assumes "decoder_push buffer data = (ok, kept, payloads)"
  shows "deframe (buffer @ data) = (ok, kept, payloads) \<and>
    buffer @ data = concat (map frame payloads) @ kept \<and>
    list_all (\<lambda>d. length d \<le> kMaxDatagram) payloads \<and>
    (if ok then length kept < 4 + kMaxDatagram
     else 4 \<le> length kept \<and> kMaxDatagram < unat (frame_len_at kept))"
proof -
  have d: "deframe (buffer @ data) = (ok, kept, payloads)"
    using assms by (simp add: decoder_push_deframe)
  then show ?thesis
    using deframe_conservation [OF d] deframe_bounds [OF d] by (simp add: list_all_iff)
qed

theorem frame_decoder_sound_witness:
  "decoder_push [0, 0] [0, 1, 7, 0] = (True, [0], [[7]]) \<and> [0, 0, 0, 1, 7, 0] = concat (map frame [[7]]) @ [0]"
proof -
  have f: "[0, 0, 0, 1, 7, 0] = frame [7] @ [0 :: byte]" by (simp add: frame_def frame_header_def)
  have "deframe [0, 0, 0, 1, 7, 0] = (True, [0], [[7]])"
    unfolding f using deframe_frame [of "[7]" "[0]"] by (simp add: deframe_short kMaxDatagram_def)
  then have "decoder_push [0, 0] [0, 1, 7, 0] = (True, [0], [[7]])" by (simp add: decoder_push_deframe)
  from this frame_decoder_sound [OF this] show ?thesis by simp
qed

text \<open>
  C24: Framing is transparent. Any sequence of datagrams within the cap, empty ones included,
  written as frames and cut into chunks anywhere, comes out as the same sequence, the stream
  stays accepted, and nothing is left over.
\<close>

theorem frame_stream_roundtrip:
  assumes "list_all (\<lambda>d. length d \<le> kMaxDatagram) ds" and "concat chunks = concat (map frame ds)"
  shows "feed decoder_push [] chunks = (True, [], ds)"
  using assms by (rule framing.feed_encs)

theorem frame_stream_roundtrip_witness:
  "feed decoder_push [] [[0], [0, 0, 1, 7, 0, 0], [0, 0]] = (True, [], [[7], []])"
  by (rule frame_stream_roundtrip) (simp_all add: kMaxDatagram_def frame_def frame_header_def)

end
