(* ===== verification/Hs_Logger.thy ===== *)
theory Hs_Logger
  imports Hs_Prelude
begin

text \<open>
  Terminal colours (\<^verbatim>\<open>include/holesail/colors.hpp\<close>) and the logger (\<^verbatim>\<open>src/logger.cpp\<close>). The sink
  and the clock are the test seams of the class: the clock's answer is an argument, and
  \<open>log\<close> returns the line handed to the sink, or nothing when the message is filtered.
\<close>

section \<open>Colours\<close>

definition esc :: string where "esc = [CHR 0x1B]"

definition wrap :: "string \<Rightarrow> string \<Rightarrow> string" where
  "wrap code s = code @ s @ esc @ ''[0m''"

definition red :: "string \<Rightarrow> string" where "red s = wrap (esc @ ''[31m'') s"
definition green :: "string \<Rightarrow> string" where "green s = wrap (esc @ ''[32m'') s"
definition yellow :: "string \<Rightarrow> string" where "yellow s = wrap (esc @ ''[33m'') s"
definition blue :: "string \<Rightarrow> string" where "blue s = wrap (esc @ ''[34m'') s"
definition magenta :: "string \<Rightarrow> string" where "magenta s = wrap (esc @ ''[35m'') s"
definition cyan :: "string \<Rightarrow> string" where "cyan s = wrap (esc @ ''[36m'') s"
definition bright_black :: "string \<Rightarrow> string" where "bright_black s = wrap (esc @ ''[90m'') s"
definition bold :: "string \<Rightarrow> string" where "bold s = wrap (esc @ ''[1m'') s"
definition dim :: "string \<Rightarrow> string" where "dim s = wrap (esc @ ''[2m'') s"
definition underline :: "string \<Rightarrow> string" where "underline s = wrap (esc @ ''[4m'') s"

lemma wrap_inject [simp]: "wrap code s = wrap code t \<longleftrightarrow> s = t"
  by (simp add: wrap_def)

section \<open>Levels\<close>

datatype level = Debug | Info | Warn | Error

text \<open>The values of the enumeration, which \<^verbatim>\<open>log\<close> compares after a cast to \<^verbatim>\<open>int\<close>.\<close>

definition level_int :: "level \<Rightarrow> int" where
  "level_int l = (case l of Debug \<Rightarrow> 0 | Info \<Rightarrow> 1 | Warn \<Rightarrow> 2 | Error \<Rightarrow> 3)"

lemma level_int_inject [simp]: "level_int a = level_int b \<longleftrightarrow> a = b"
  by (cases a; cases b) (simp_all add: level_int_def)

instantiation level :: linorder
begin

definition less_eq_level :: "level \<Rightarrow> level \<Rightarrow> bool" where
  "less_eq_level a b \<longleftrightarrow> level_int a \<le> level_int b"

definition less_level :: "level \<Rightarrow> level \<Rightarrow> bool" where
  "less_level a b \<longleftrightarrow> level_int a < level_int b"

instance
  by standard (auto simp: less_eq_level_def less_level_def dest: antisym)

end

text \<open>\<^verbatim>\<open>static_cast<Level>(i)\<close> on the range the facade clamps to.\<close>

definition level_of_int :: "int \<Rightarrow> level" where
  "level_of_int i = (if i = 0 then Debug else if i = 1 then Info else if i = 2 then Warn else Error)"

lemma level_int_of_int: "0 \<le> i \<Longrightarrow> i \<le> 3 \<Longrightarrow> level_int (level_of_int i) = i"
  by (simp add: level_int_def level_of_int_def)

section \<open>The logger\<close>

record logger =
  lg_prefix :: string
  lg_enabled :: bool
  lg_min_level :: level

definition style_of :: "level \<Rightarrow> string \<times> (string \<Rightarrow> string)" where
  "style_of l = (case l of
     Debug \<Rightarrow> (''DEBUG'', bright_black)
   | Info \<Rightarrow> (''INFO'', green)
   | Warn \<Rightarrow> (''WARN'', yellow)
   | Error \<Rightarrow> (''ERROR'', red))"

datatype out_stream = Stdout | Stderr

text \<open>\<^verbatim>\<open>fprintf(out, "%.*s\n", ...)\<close>: the line up to its first NUL, and a newline.\<close>

definition default_sink :: "level \<Rightarrow> string \<Rightarrow> out_stream \<times> string" where
  "default_sink l line =
     (if l = Warn \<or> l = Error then Stderr else Stdout,
      takeWhile (\<lambda>c. c \<noteq> CHR 0x00) line @ [CHR 0x0A])"

definition log_line :: "string \<Rightarrow> logger \<Rightarrow> level \<Rightarrow> string \<Rightarrow> string" where
  "log_line clock lg l msg =
     (case style_of l of (label, color) \<Rightarrow>
        bright_black clock @ '' '' @ blue (''['' @ lg_prefix lg @ '']'') @ '' '' @
        color (''['' @ label @ '']'') @ '' '' @ msg)"

definition log :: "string \<Rightarrow> logger \<Rightarrow> level \<Rightarrow> string \<Rightarrow> (level \<times> string) option" where
  "log clock lg l msg =
     (if \<not> lg_enabled lg then None
      else if level_int l < level_int (lg_min_level lg) then None
      else Some (l, log_line clock lg l msg))"

text \<open>
  \<^verbatim>\<open>iso8601_now\<close> on the broken-down UTC time: \<^verbatim>\<open>snprintf\<close> with zero padding into a buffer of
  32 bytes, so at most 31 characters are kept.
\<close>

record utc_time =
  tm_year :: nat
  tm_mon :: nat
  tm_mday :: nat
  tm_hour :: nat
  tm_min :: nat
  tm_sec :: nat
  tv_usec :: nat

definition zpad :: "nat \<Rightarrow> nat \<Rightarrow> string" where
  "zpad w n = (let s = to_dec n in replicate (w - length s) CHR ''0'' @ s)"

definition iso8601 :: "utc_time \<Rightarrow> string" where
  "iso8601 t = take 31
     (zpad 4 (tm_year t + 1900) @ ''-'' @ zpad 2 (tm_mon t + 1) @ ''-'' @ zpad 2 (tm_mday t) @ ''T'' @
      zpad 2 (tm_hour t) @ '':'' @ zpad 2 (tm_min t) @ '':'' @ zpad 2 (tm_sec t) @ ''.'' @
      zpad 3 (tv_usec t div 1000) @ ''Z'')"

section \<open>Properties of the logger\<close>

lemma log_Some_iff:
  "log clock lg l msg = Some r \<longleftrightarrow>
     lg_enabled lg \<and> lg_min_level lg \<le> l \<and> r = (l, log_line clock lg l msg)"
  by (auto simp: log_def less_eq_level_def)

lemma length_to_dec: "0 < k \<Longrightarrow> n < 10 ^ k \<Longrightarrow> length (to_dec n) \<le> k"
proof (induction n arbitrary: k rule: to_dec.induct)
  case (1 n)
  show ?case
  proof (cases "n < 10")
    case True
    then show ?thesis using "1.prems" by (subst to_dec.simps) simp
  next
    case False
    obtain j where k: "k = Suc j" using "1.prems" by (cases k) auto
    have "0 < j" using False "1.prems" k by (cases j) auto
    moreover have "n div 10 < 10 ^ j" using "1.prems" k by (simp add: less_mult_imp_div_less mult.commute)
    ultimately have "length (to_dec (n div 10)) \<le> j" using "1.IH" False by blast
    then show ?thesis using False k by (subst to_dec.simps) simp
  qed
qed

lemma length_zpad: "0 < w \<Longrightarrow> n < 10 ^ w \<Longrightarrow> length (zpad w n) = w"
  using length_to_dec [of w n] by (simp add: zpad_def Let_def)

lemma length_iso8601:
  assumes "tm_year t + 1900 < 10000" and "tm_mon t < 12" and "tm_mday t \<le> 31" and "tm_hour t < 24"
    and "tm_min t < 60" and "tm_sec t \<le> 60" and "tv_usec t < 1000000"
  shows "length (iso8601 t) = 24"
proof -
  have "tv_usec t div 1000 < 1000" using assms(7) by (simp add: less_mult_imp_div_less)
  then show ?thesis using assms by (simp add: iso8601_def length_zpad)
qed

section \<open>Properties\<close>

text \<open>
  A line is written exactly when logging is on and its level reaches the threshold, and
  then once, at its own level; warnings and errors go to the error stream. A timestamp of any
  date before the year 10000 fits its 32-byte buffer: it is never truncated.
\<close>

theorem logger_threshold:
  "(log clock lg l msg \<noteq> None \<longleftrightarrow> lg_enabled lg \<and> level_int (lg_min_level lg) \<le> level_int l) \<and>
   (\<forall>r. log clock lg l msg = Some r \<longrightarrow> fst r = l \<and>
      (fst (default_sink (fst r) (snd r)) = Stderr \<longleftrightarrow> level_int Warn \<le> level_int l)) \<and>
   (tm_year t + 1900 < 10000 \<and> tm_mon t < 12 \<and> tm_mday t \<le> 31 \<and> tm_hour t < 24 \<and> tm_min t < 60 \<and>
      tm_sec t \<le> 60 \<and> tv_usec t < 1000000 \<longrightarrow> length (iso8601 t) = 24)"
proof -
  have "log clock lg l msg \<noteq> None \<longleftrightarrow> lg_enabled lg \<and> level_int (lg_min_level lg) \<le> level_int l"
    using log_Some_iff [of clock lg l msg] by (auto simp: less_eq_level_def)
  moreover have "fst (default_sink l m) = Stderr \<longleftrightarrow> level_int Warn \<le> level_int l" for m
    by (cases l) (simp_all add: default_sink_def level_int_def)
  ultimately show ?thesis
    using log_Some_iff [of clock lg l msg] length_iso8601 [of t] by auto
qed

theorem logger_threshold_witness:
  "length (iso8601 \<lparr>tm_year = 124, tm_mon = 1, tm_mday = 29, tm_hour = 23, tm_min = 59, tm_sec = 59,
     tv_usec = 999999\<rparr>) = 24"
  using logger_threshold [where t = "\<lparr>tm_year = 124, tm_mon = 1, tm_mday = 29, tm_hour = 23, tm_min = 59, tm_sec = 59,
     tv_usec = 999999\<rparr>"] by simp

end
