(* ===== verification/Hs_Addr.thy ===== *)
theory Hs_Addr
  imports Hs_Prelude
begin

text \<open>
  Address resolution (\<^verbatim>\<open>src/addr.cpp\<close>). libuv's numeric parser and its resolver are the two
  fields of \<open>resolver\<close>: a status and the address or addresses they filled in. A socket
  address holds its port in host order, so the \<^verbatim>\<open>htons\<close> and \<^verbatim>\<open>ntohs\<close> of the source, which
  are inverse to each other, do not appear.
\<close>

record sockaddr_in =
  sin_addr :: u32
  sin_port :: u16

record resolver =
  uv_ip4_addr :: "string \<Rightarrow> int \<Rightarrow> int \<times> sockaddr_in"
  uv_getaddrinfo :: "string \<Rightarrow> int \<times> sockaddr_in list"

definition resolve_ip4 ::
  "resolver \<Rightarrow> bool \<Rightarrow> string \<Rightarrow> int \<Rightarrow> sockaddr_in option \<Rightarrow> int \<times> sockaddr_in option" where
  "resolve_ip4 rv loop host port out =
     (case out of
        None \<Rightarrow> (UV_EINVAL, None)
      | Some out0 \<Rightarrow>
          if \<not> loop then (UV_EINVAL, out)
          else case uv_ip4_addr rv host port of
                 (rc, a) \<Rightarrow>
                   if rc = 0 then (0, Some a)
                   else case uv_getaddrinfo rv host of
                          (rc, infos) \<Rightarrow>
                            if rc \<noteq> 0 then (rc, Some a)
                            else (case infos of
                                    [] \<Rightarrow> (UV_EAI_NONAME, Some a)
                                  | i # _ \<Rightarrow> (0, Some (i\<lparr>sin_port := word_of_int port\<rparr>))))"

text \<open>How the callers use it: a live loop and a stack variable for the result.\<close>

definition resolve :: "resolver \<Rightarrow> string \<Rightarrow> u16 \<Rightarrow> int \<times> sockaddr_in" where
  "resolve rv host port =
     (case resolve_ip4 rv True host (uint port) (Some \<lparr>sin_addr = 0, sin_port = 0\<rparr>) of
        (rc, Some a) \<Rightarrow> (rc, a)
      | (rc, None) \<Rightarrow> (rc, \<lparr>sin_addr = 0, sin_port = 0\<rparr>))"

text \<open>What libuv documents of \<^verbatim>\<open>uv_ip4_addr\<close>: on success the address carries the given port.\<close>

definition ip4_port_law :: "resolver \<Rightarrow> bool" where
  "ip4_port_law rv \<longleftrightarrow>
     (\<forall>h p a. uv_ip4_addr rv h p = (0, a) \<longrightarrow> sin_port a = word_of_int p)"

lemma resolve_port:
  assumes "ip4_port_law rv" and "resolve rv host port = (0, a)"
  shows "sin_port a = port"
  using assms
  by (auto simp: resolve_def resolve_ip4_def ip4_port_law_def uv_codes
      split: prod.splits if_splits list.splits)

lemma resolve_numeric:
  "uv_ip4_addr rv host (uint port) = (0, a) \<Longrightarrow> resolve rv host port = (0, a)"
  by (simp add: resolve_def resolve_ip4_def)

text \<open>A resolver that knows the loopback and the wildcard address only, for concrete runs.\<close>

definition loopback_resolver :: resolver where
  "loopback_resolver =
     \<lparr>uv_ip4_addr = (\<lambda>h p. if h = ''127.0.0.1'' then (0, \<lparr>sin_addr = 0x7F000001, sin_port = word_of_int p\<rparr>)
                       else if h = ''0.0.0.0'' then (0, \<lparr>sin_addr = 0, sin_port = word_of_int p\<rparr>)
                       else (UV_EINVAL, \<lparr>sin_addr = 0, sin_port = 0\<rparr>)),
      uv_getaddrinfo = (\<lambda>h. (UV_EAI_NONAME, []))\<rparr>"

section \<open>Properties\<close>

text \<open>
  Resolution. A numeric address is used as it is, without asking the resolver; a name
  takes the first address the resolver returns, with the caller's port; a resolver error is
  passed on; an empty answer is reported as an unknown name. A success always carries the
  port that was asked for.
\<close>

theorem resolve_spec:
  assumes "ip4_port_law rv"
  shows "resolve rv h p =
    (let (rc, a) = uv_ip4_addr rv h (uint p) in
     if rc = 0 then (0, a)
     else case uv_getaddrinfo rv h of
       (rc', infos) \<Rightarrow> if rc' \<noteq> 0 then (rc', a)
         else if infos = [] then (UV_EAI_NONAME, a) else (0, (hd infos)\<lparr>sin_port := p\<rparr>)) \<and>
    (fst (resolve rv h p) = 0 \<longrightarrow> sin_port (snd (resolve rv h p)) = p)"
proof -
  have "fst (resolve rv h p) = 0 \<Longrightarrow> sin_port (snd (resolve rv h p)) = p"
    using resolve_port [OF assms, of h p "snd (resolve rv h p)"] by (metis prod.collapse)
  then show ?thesis
    by (auto simp: resolve_def resolve_ip4_def split: prod.split list.split)
qed

theorem resolve_spec_witness:
  "resolve loopback_resolver ''127.0.0.1'' 80 = (0, \<lparr>sin_addr = 0x7F000001, sin_port = 80\<rparr>)"
proof -
  have "ip4_port_law loopback_resolver" by (auto simp: ip4_port_law_def loopback_resolver_def uv_codes)
  from resolve_spec [OF this, of "''127.0.0.1''" 80] show ?thesis by (simp add: loopback_resolver_def)
qed

end
