(* ===== verification/Hs_Pipe.thy ===== *)
theory Hs_Pipe
  imports Hs_Prelude Hs_Logger Hs_Addr
begin

text \<open>
  \<^verbatim>\<open>TcpPipe\<close> and \<^verbatim>\<open>TcpProxy\<close> (\<^verbatim>\<open>src/pipe.cpp\<close>). A pipe is a record with the fields of the
  class; each method and each libuv callback is a function on it. What a call of libuv or of
  the logger does is appended to the trace \<open>acts\<close>; what libuv answers during a callback is
  the argument \<open>uv_env\<close>. The encrypted stream is the record of callbacks \<open>stream_side\<close>, as
  in the source: its closures share the state \<open>'s\<close> of whoever made them, which the pipe
  carries in \<open>side_st\<close> and never looks into. The drain callback a write passes along
  captures only the pipe and the length, so it is represented by that length and run by
  \<open>drained\<close>. A callback of the stream side acts on its own state; it does not call back
  into the pipe before it returns.
\<close>

section \<open>The stream side\<close>

text \<open>An empty \<^verbatim>\<open>std::function\<close> is \<open>None\<close>, also for the drain argument of a write.\<close>

record 's stream_side =
  ss_write :: "('s \<Rightarrow> byte list \<Rightarrow> nat option \<Rightarrow> 's \<times> int) option"
  ss_pause :: "('s \<Rightarrow> 's) option"
  ss_resume :: "('s \<Rightarrow> 's) option"
  ss_close :: "('s \<Rightarrow> 's) option"

text \<open>The owner's \<^verbatim>\<open>on_destroy\<close> callback, which acts on the same state.\<close>

record 's pipe_side = "'s stream_side" +
  on_destroy_cb :: "'s \<Rightarrow> 's"

definition call :: "('s \<Rightarrow> 's) option \<Rightarrow> 's \<Rightarrow> 's" where
  "call f st = (case f of None \<Rightarrow> st | Some g \<Rightarrow> g st)"

section \<open>State of a pipe\<close>

definition kHighWaterMark :: nat where "kHighWaterMark = 64 * 1024"
definition kStreamHighWaterMark :: nat where "kStreamHighWaterMark = 256 * 1024"
definition kScratch :: nat where "kScratch = 64 * 1024"

text \<open>The \<^verbatim>\<open>uv_tcp_t\<close> behind a non-null \<^verbatim>\<open>tcp_\<close>: open, or closing after \<^verbatim>\<open>uv_close\<close>.\<close>

datatype uv_handle = Open | Closing

datatype act =
    ALog level string
  | AInit
  | ANodelay
  | AConnect sockaddr_in
  | AReadStart
  | AReadStop
  | AWrite "byte list"
  | AClose
  | AReady int
  | ADestroyed
  | ATerminate

record uv_env =
  e_tcp_init :: int
  e_tcp_connect :: int
  e_read_start :: int
  e_write :: int
  e_strerror :: "int \<Rightarrow> string"
  e_resolver :: resolver

record 's tcp_pipe =
  tcp :: "uv_handle option"
  has_on_ready :: bool
  has_on_destroy :: bool
  pending_bytes :: nat
  stream_pending_bytes :: nat
  inflight_writes :: int
  reading :: bool
  stream_paused :: bool
  stream_closed :: bool
  closing :: bool
  destroyed :: bool
  side_st :: 's
  acts :: "act list"

text \<open>The constructor, with the owner's \<^verbatim>\<open>set_on_destroy\<close> done.\<close>

definition new_pipe :: "bool \<Rightarrow> 's \<Rightarrow> 's tcp_pipe" where
  "new_pipe on_destroy st =
     \<lparr>tcp = None, has_on_ready = False, has_on_destroy = on_destroy, pending_bytes = 0,
      stream_pending_bytes = 0, inflight_writes = 0, reading = False, stream_paused = False,
      stream_closed = False, closing = False, destroyed = False, side_st = st, acts = []\<rparr>"

definition emit :: "act \<Rightarrow> 's tcp_pipe \<Rightarrow> 's tcp_pipe" where
  "emit a p = p\<lparr>acts := acts p @ [a]\<rparr>"

definition on_side :: "('s \<Rightarrow> 's) option \<Rightarrow> 's tcp_pipe \<Rightarrow> 's tcp_pipe" where
  "on_side f p = p\<lparr>side_st := call f (side_st p)\<rparr>"

section \<open>Reading and destruction\<close>

definition start_reading :: "uv_env \<Rightarrow> 's tcp_pipe \<Rightarrow> 's tcp_pipe" where
  "start_reading e p =
     (if reading p \<or> destroyed p \<or> tcp p = None then p
      else let p = emit AReadStart p
           in if e_read_start e = 0 then p\<lparr>reading := True\<rparr> else p)"

definition stop_reading :: "'s tcp_pipe \<Rightarrow> 's tcp_pipe" where
  "stop_reading p =
     (if \<not> reading p \<or> tcp p = None then p else (emit AReadStop p)\<lparr>reading := False\<rparr>)"

definition resume_reading :: "uv_env \<Rightarrow> 's tcp_pipe \<Rightarrow> 's tcp_pipe" where
  "resume_reading e p = (if destroyed p then p else start_reading e p)"

text \<open>The \<^verbatim>\<open>on_destroy_\<close> call both ends of the teardown share: at most once.\<close>

definition fire_on_destroy :: "'s pipe_side \<Rightarrow> 's tcp_pipe \<Rightarrow> 's tcp_pipe" where
  "fire_on_destroy sd p =
     (if has_on_destroy p
      then on_side (Some (on_destroy_cb sd)) (emit ADestroyed (p\<lparr>has_on_destroy := False\<rparr>))
      else p)"

definition tcp_destroy :: "'s pipe_side \<Rightarrow> 's tcp_pipe \<Rightarrow> 's tcp_pipe" where
  "tcp_destroy sd p =
     (if destroyed p then p
      else let p = p\<lparr>destroyed := True\<rparr>;
               p = stop_reading p;
               p = on_side (ss_close sd) p
           in if tcp p \<noteq> None \<and> \<not> closing p
              then let p = p\<lparr>closing := True\<rparr>
                   in if tcp p = Some Open
                      then (emit AClose p)\<lparr>tcp := Some Closing\<rparr>
                      else fire_on_destroy sd p
              else fire_on_destroy sd p)"

definition closed_cb :: "'s pipe_side \<Rightarrow> 's tcp_pipe \<Rightarrow> 's tcp_pipe" where
  "closed_cb sd p = fire_on_destroy sd (p\<lparr>tcp := None\<rparr>)"

definition flush_finished :: "'s pipe_side \<Rightarrow> 's tcp_pipe \<Rightarrow> 's tcp_pipe" where
  "flush_finished sd p =
     (if \<not> stream_closed p \<or> 0 < inflight_writes p then p else tcp_destroy sd p)"

section \<open>Establishing the local side\<close>

definition tcp_connect ::
  "uv_env \<Rightarrow> 's pipe_side \<Rightarrow> string \<Rightarrow> u16 \<Rightarrow> bool \<Rightarrow> 's tcp_pipe \<Rightarrow> 's tcp_pipe \<times> int" where
  "tcp_connect e sd host port on_ready p =
     (if destroyed p then (p, UV_ECANCELED)
      else let p = emit AInit p; rc = e_tcp_init e
           in if rc \<noteq> 0 then (p\<lparr>tcp := None\<rparr>, rc)
              else let p = emit ANodelay (p\<lparr>tcp := Some Open\<rparr>)
                   in case resolve (e_resolver e) host port of
                        (rc, addr) \<Rightarrow>
                          if rc \<noteq> 0
                          then (tcp_destroy sd (emit (ALog Error (''Invalid local address '' @ host)) p), rc)
                          else let p = emit (AConnect addr) (p\<lparr>has_on_ready := on_ready\<rparr>);
                                   rc = e_tcp_connect e
                               in (if rc \<noteq> 0 then tcp_destroy sd p else p, rc))"

definition call_on_ready :: "int \<Rightarrow> 's tcp_pipe \<Rightarrow> 's tcp_pipe" where
  "call_on_ready status p = (if has_on_ready p then emit (AReady status) p else p)"

definition tcp_connect_cb :: "uv_env \<Rightarrow> 's pipe_side \<Rightarrow> int \<Rightarrow> 's tcp_pipe \<Rightarrow> 's tcp_pipe" where
  "tcp_connect_cb e sd status p =
     (if status \<noteq> 0
      then tcp_destroy sd (call_on_ready status
             (emit (ALog Error (''Local connect failed: '' @ e_strerror e status)) p))
      else call_on_ready 0 (start_reading e (emit (ALog Debug ''Connected'') p)))"

definition adopt :: "uv_env \<Rightarrow> bool \<Rightarrow> 's tcp_pipe \<Rightarrow> 's tcp_pipe \<times> int" where
  "adopt e accepted p =
     (if destroyed p \<or> \<not> accepted then (p, UV_EINVAL)
      else (start_reading e (emit ANodelay (p\<lparr>tcp := Some Open\<rparr>)), 0))"

section \<open>Local socket to stream\<close>

definition alloc_len :: "nat \<Rightarrow> nat" where
  "alloc_len suggested = (if suggested < kScratch then suggested else kScratch)"

text \<open>Both subtractions of the source are guarded against going below zero.\<close>

definition less_pending :: "nat \<Rightarrow> nat \<Rightarrow> nat" where
  "less_pending len pending = pending - (if len < pending then len else pending)"

text \<open>The lambda a write passes as its drain callback.\<close>

definition drained :: "uv_env \<Rightarrow> nat \<Rightarrow> 's tcp_pipe \<Rightarrow> 's tcp_pipe" where
  "drained e len p =
     (let p = p\<lparr>stream_pending_bytes := less_pending len (stream_pending_bytes p)\<rparr>
      in if stream_pending_bytes p < kStreamHighWaterMark then resume_reading e p else p)"

definition read_cb ::
  "uv_env \<Rightarrow> 's pipe_side \<Rightarrow> int \<Rightarrow> byte list \<Rightarrow> 's tcp_pipe \<Rightarrow> 's tcp_pipe" where
  "read_cb e sd nread buf p =
     (if destroyed p then p
      else if nread = 0 then p
      else if nread < 0 then
        (if nread = UV_EOF
         then on_side (ss_close sd) (stop_reading (emit (ALog Debug ''Local end, ending connection'') p))
         else tcp_destroy sd (emit (ALog Debug (''Local error: '' @ e_strerror e nread)) p))
      else
        let len = nat nread;
            p = p\<lparr>stream_pending_bytes := stream_pending_bytes p + len\<rparr>
        in case ss_write sd of
             None \<Rightarrow> emit ATerminate p
           | Some write \<Rightarrow>
               (case write (side_st p) (take len buf) (Some len) of
                  (st, rc) \<Rightarrow>
                    let p = p\<lparr>side_st := st\<rparr>
                    in if rc < 0
                       then tcp_destroy sd
                              (p\<lparr>stream_pending_bytes := less_pending len (stream_pending_bytes p)\<rparr>)
                       else if kStreamHighWaterMark \<le> stream_pending_bytes p then stop_reading p
                       else p))"

section \<open>Stream to local socket\<close>

definition tcp_on_stream_data ::
  "uv_env \<Rightarrow> 's pipe_side \<Rightarrow> byte list \<Rightarrow> 's tcp_pipe \<Rightarrow> 's tcp_pipe" where
  "tcp_on_stream_data e sd data p =
     (if destroyed p \<or> tcp p = None \<or> closing p then p
      else if data = [] then p
      else let p = emit (AWrite data) p
           in if e_write e \<noteq> 0 then tcp_destroy sd p
              else let p = p\<lparr>inflight_writes := inflight_writes p + 1,
                             pending_bytes := pending_bytes p + length data\<rparr>
                   in if \<not> stream_paused p \<and> kHighWaterMark \<le> pending_bytes p
                      then on_side (ss_pause sd) (p\<lparr>stream_paused := True\<rparr>)
                      else p)"

definition write_cb :: "'s pipe_side \<Rightarrow> nat \<Rightarrow> int \<Rightarrow> 's tcp_pipe \<Rightarrow> 's tcp_pipe" where
  "write_cb sd bytes status p =
     (let p = p\<lparr>inflight_writes := inflight_writes p - 1,
                pending_bytes := less_pending bytes (pending_bytes p)\<rparr>
      in if status \<noteq> 0 then tcp_destroy sd p
         else let p = (if stream_paused p \<and> pending_bytes p < kHighWaterMark
                       then on_side (ss_resume sd) (p\<lparr>stream_paused := False\<rparr>)
                       else p)
              in flush_finished sd p)"

definition tcp_on_stream_close :: "'s pipe_side \<Rightarrow> 's tcp_pipe \<Rightarrow> 's tcp_pipe" where
  "tcp_on_stream_close sd p =
     (if destroyed p then p
      else flush_finished sd
             ((emit (ALog Debug ''Connection end, ending local'') p)\<lparr>stream_closed := True\<rparr>))"

lemmas pipe_defs = start_reading_def stop_reading_def resume_reading_def fire_on_destroy_def
  tcp_destroy_def closed_cb_def flush_finished_def call_on_ready_def drained_def read_cb_def
  tcp_on_stream_data_def write_cb_def tcp_on_stream_close_def tcp_connect_cb_def emit_def on_side_def
  Let_def

section \<open>The listener\<close>

text \<open>
  \<^verbatim>\<open>TcpProxy\<close>. The listening handle is open while \<open>px_handle\<close> is set; what libuv answers to
  the four calls of \<^verbatim>\<open>listen\<close> and to \<^verbatim>\<open>getsockname\<close> is in \<open>proxy_env\<close>.
\<close>

record proxy_env =
  pe_init :: int
  pe_resolver :: resolver
  pe_bind :: int
  pe_listen :: int
  pe_sockname :: "u16 option"

record tcp_proxy =
  px_handle :: bool
  px_on_connection :: bool
  px_bound_port :: u16
  px_closes :: nat

definition new_proxy :: tcp_proxy where
  "new_proxy = \<lparr>px_handle = False, px_on_connection = False, px_bound_port = 0, px_closes = 0\<rparr>"

definition proxy_close :: "tcp_proxy \<Rightarrow> tcp_proxy" where
  "proxy_close x =
     (if \<not> px_handle x then x else x\<lparr>px_handle := False, px_closes := px_closes x + 1\<rparr>)"

definition proxy_listen ::
  "proxy_env \<Rightarrow> string \<Rightarrow> u16 \<Rightarrow> bool \<Rightarrow> tcp_proxy \<Rightarrow> tcp_proxy \<times> int" where
  "proxy_listen e host port on_connection x =
     (let rc = pe_init e in
      if rc \<noteq> 0 then (x\<lparr>px_handle := False\<rparr>, rc)
      else let x = x\<lparr>px_handle := True, px_on_connection := on_connection\<rparr>;
               rc = fst (resolve (pe_resolver e) host port) in
           if rc \<noteq> 0 then (proxy_close x, rc)
           else if pe_bind e \<noteq> 0 then (proxy_close x, pe_bind e)
           else if pe_listen e \<noteq> 0 then (proxy_close x, pe_listen e)
           else (case pe_sockname e of None \<Rightarrow> (x, 0) | Some p \<Rightarrow> (x\<lparr>px_bound_port := p\<rparr>, 0)))"

text \<open>
  A pending connection: \<open>True\<close> hands an accepted socket to \<^verbatim>\<open>on_connection_\<close>. A closed
  listener has a null \<^verbatim>\<open>data\<close> pointer.
\<close>

definition proxy_connection_cb :: "int \<Rightarrow> int \<Rightarrow> int \<Rightarrow> tcp_proxy \<Rightarrow> bool" where
  "proxy_connection_cb init_rc accept_rc status x =
     (if \<not> px_handle x \<or> status \<noteq> 0 then False
      else if init_rc \<noteq> 0 then False
      else if accept_rc \<noteq> 0 then False
      else px_on_connection x)"

section \<open>The pipe and its event loop\<close>

text \<open>
  A pipe together with what libuv and the stream owe it: the sizes of the writes queued on
  the local socket, the lengths of the stream writes whose drain callback is outstanding, and
  whether a connect request is pending.
\<close>

record 's tcp_sys =
  sys_pipe :: "'s tcp_pipe"
  wq :: "nat list"
  dq :: "nat list"
  conn_req :: bool

datatype tcp_event =
    EvConnect string u16 bool
  | EvAdopt
  | EvConnected int
  | EvRead int "byte list"
  | EvData "byte list"
  | EvWritten int
  | EvDrained nat
  | EvStreamClose
  | EvDestroy
  | EvClosed

definition write_accepted :: "'s pipe_side \<Rightarrow> int \<Rightarrow> byte list \<Rightarrow> 's tcp_pipe \<Rightarrow> bool" where
  "write_accepted sd nread buf p =
     (\<not> destroyed p \<and> 0 < nread \<and>
      (case ss_write sd of
         None \<Rightarrow> False
       | Some write \<Rightarrow> 0 \<le> snd (write (side_st p) (take (nat nread) buf) (Some (nat nread)))))"

definition data_queued :: "uv_env \<Rightarrow> byte list \<Rightarrow> 's tcp_pipe \<Rightarrow> bool" where
  "data_queued e data p =
     (\<not> destroyed p \<and> tcp p \<noteq> None \<and> \<not> closing p \<and> data \<noteq> [] \<and> e_write e = 0)"

text \<open>One turn of the loop: the callback that runs, and the bookkeeping of what is owed.\<close>

definition tcp_step :: "'s pipe_side \<Rightarrow> 's tcp_sys \<Rightarrow> uv_env \<times> tcp_event \<Rightarrow> 's tcp_sys" where
  "tcp_step sd s ev =
     (let e = fst ev; p = sys_pipe s in
      case snd ev of
        EvConnect host port on_ready \<Rightarrow>
          (case tcp_connect e sd host port on_ready p of
             (p', rc) \<Rightarrow> s\<lparr>sys_pipe := p', conn_req := conn_req s \<or> (rc = 0 \<and> \<not> destroyed p)\<rparr>)
      | EvAdopt \<Rightarrow> s\<lparr>sys_pipe := fst (adopt e True p)\<rparr>
      | EvConnected status \<Rightarrow> s\<lparr>sys_pipe := tcp_connect_cb e sd status p, conn_req := False\<rparr>
      | EvRead nread buf \<Rightarrow>
          s\<lparr>sys_pipe := read_cb e sd nread buf p,
            dq := dq s @ (if write_accepted sd nread buf p then [nat nread] else [])\<rparr>
      | EvData data \<Rightarrow>
          s\<lparr>sys_pipe := tcp_on_stream_data e sd data p,
            wq := wq s @ (if data_queued e data p then [length data] else [])\<rparr>
      | EvWritten status \<Rightarrow> s\<lparr>sys_pipe := write_cb sd (hd (wq s)) status p, wq := tl (wq s)\<rparr>
      | EvDrained len \<Rightarrow> s\<lparr>sys_pipe := drained e len p, dq := remove1 len (dq s)\<rparr>
      | EvStreamClose \<Rightarrow> s\<lparr>sys_pipe := tcp_on_stream_close sd p\<rparr>
      | EvDestroy \<Rightarrow> s\<lparr>sys_pipe := tcp_destroy sd p\<rparr>
      | EvClosed \<Rightarrow> s\<lparr>sys_pipe := closed_cb sd p\<rparr>)"

text \<open>
  What the environment may do. libuv reads only while reading is on, never more than the
  scratch buffer holds, and only a pipe whose stream side has a write function is read from
  (every owner sets one); it completes queued writes in order; it runs the close callback of
  a closing handle after every request has completed; the owner connects or adopts a pipe
  that has no socket.
\<close>

definition tcp_enabled :: "'s pipe_side \<Rightarrow> 's tcp_sys \<Rightarrow> uv_env \<times> tcp_event \<Rightarrow> bool" where
  "tcp_enabled sd s ev =
     (let p = sys_pipe s in
      case snd ev of
        EvConnect _ _ _ \<Rightarrow> tcp p = None
      | EvAdopt \<Rightarrow> tcp p = None
      | EvConnected _ \<Rightarrow> conn_req s
      | EvRead nread buf \<Rightarrow>
          reading p \<and> nread \<le> int kScratch \<and> ss_write sd \<noteq> None
      | EvData _ \<Rightarrow> True
      | EvWritten _ \<Rightarrow> wq s \<noteq> []
      | EvDrained len \<Rightarrow> len \<in> set (dq s)
      | EvStreamClose \<Rightarrow> True
      | EvDestroy \<Rightarrow> True
      | EvClosed \<Rightarrow> tcp p = Some Closing \<and> wq s = [] \<and> \<not> conn_req s)"

text \<open>The callbacks among these: the rest are calls of the owner.\<close>

definition loop_tcp :: "tcp_event \<Rightarrow> bool" where
  "loop_tcp v \<longleftrightarrow>
     (case v of EvConnected _ \<Rightarrow> True | EvRead _ _ \<Rightarrow> True | EvWritten _ \<Rightarrow> True | EvClosed \<Rightarrow> True | _ \<Rightarrow> False)"

definition tcp_start :: "'s tcp_sys \<Rightarrow> bool" where
  "tcp_start s \<longleftrightarrow>
     sys_pipe s = new_pipe (has_on_destroy (sys_pipe s)) (side_st (sys_pipe s)) \<and>
     wq s = [] \<and> dq s = [] \<and> \<not> conn_req s"

text \<open>
  The invariant, over the pipe \<open>p\<close>, the queued writes \<open>w\<close>, the outstanding drains \<open>d\<close> and
  the pending connect \<open>c\<close>. First what teardown needs and keeps: the counters are the sums of
  what is owed; reading is on only on an open handle of a live pipe; a destroyed pipe is
  closing its handle or has none, and its owner has been told, or will be by the close
  callback, at most once.
\<close>

definition tcp_core :: "'s tcp_pipe \<Rightarrow> nat list \<Rightarrow> nat list \<Rightarrow> bool \<Rightarrow> bool" where
  "tcp_core p w d c \<longleftrightarrow>
     pending_bytes p = sum_list w \<and> inflight_writes p = int (length w) \<and>
     stream_pending_bytes p = sum_list d \<and>
     stream_pending_bytes p < kStreamHighWaterMark + kScratch \<and>
     (reading p \<longrightarrow> \<not> destroyed p \<and> tcp p = Some Open) \<and>
     (\<not> destroyed p \<longrightarrow> \<not> closing p \<and> tcp p \<noteq> Some Closing \<and> (tcp p = None \<longrightarrow> d = [])) \<and>
     (destroyed p \<longrightarrow> tcp p \<noteq> Some Open \<and> (has_on_destroy p \<longrightarrow> tcp p = Some Closing)) \<and>
     (has_on_destroy p \<longrightarrow> ADestroyed \<notin> set (acts p)) \<and>
     count_list (acts p) ADestroyed \<le> 1 \<and>
     (c \<longrightarrow> d = [] \<and> \<not> reading p \<and> (\<not> destroyed p \<longrightarrow> tcp p = Some Open))"

text \<open>
  And what holds of a live pipe between callbacks: it reads only below the stream's mark, it
  has paused the stream exactly when its own queue is at or above its mark, and if the stream
  has closed there is still a write to flush.
\<close>

definition tcp_live :: "'s tcp_pipe \<Rightarrow> nat list \<Rightarrow> bool" where
  "tcp_live p w \<longleftrightarrow>
     (reading p \<longrightarrow> stream_pending_bytes p < kStreamHighWaterMark) \<and>
     (stream_paused p \<longleftrightarrow> kHighWaterMark \<le> pending_bytes p) \<and>
     (stream_closed p \<longrightarrow> w \<noteq> [])"

definition tcp_ok :: "'s tcp_pipe \<Rightarrow> nat list \<Rightarrow> nat list \<Rightarrow> bool \<Rightarrow> bool" where
  "tcp_ok p w d c \<longleftrightarrow> tcp_core p w d c \<and> (\<not> destroyed p \<longrightarrow> tcp_live p w)"

text \<open>
  The owner is told last: then the pipe is destroyed and has no handle. A pipe without a
  handle has nothing in flight.
\<close>

definition tcp_quiet :: "'s tcp_pipe \<Rightarrow> nat list \<Rightarrow> bool \<Rightarrow> bool" where
  "tcp_quiet p w c \<longleftrightarrow>
     (ADestroyed \<in> set (acts p) \<longrightarrow> destroyed p \<and> tcp p = None) \<and> (tcp p = None \<longrightarrow> w = [] \<and> \<not> c)"

definition tcp_inv :: "'s tcp_sys \<Rightarrow> bool" where
  "tcp_inv s \<longleftrightarrow> tcp_ok (sys_pipe s) (wq s) (dq s) (conn_req s) \<and>
     tcp_quiet (sys_pipe s) (wq s) (conn_req s)"

lemmas tcp_inv_defs = tcp_core_def tcp_live_def tcp_ok_def

lemma marks_pos [simp]: "0 < kHighWaterMark" "kHighWaterMark \<noteq> 0" "0 < kStreamHighWaterMark" "0 < kScratch"
  by (simp_all add: kStreamHighWaterMark_def kHighWaterMark_def kScratch_def)

lemma less_pending_add [simp]: "less_pending n (m + n) = m" "less_pending n (n + m) = m"
  by (auto simp: less_pending_def)

lemma less_pending_remove1: "n \<in> set ns \<Longrightarrow> less_pending n (sum_list ns) = sum_list (remove1 n ns)"
  using sum_list_map_remove1 [of n ns id] by simp

lemma less_pending_tl: "ns \<noteq> [] \<Longrightarrow> less_pending (hd ns) (sum_list ns) = sum_list (tl ns)"
  by (cases ns) auto

lemma tcp_inv_start: "tcp_start s \<Longrightarrow> tcp_inv s"
proof -
  assume a: "tcp_start s"
  then obtain b st where "sys_pipe s = new_pipe b st" by (auto simp: tcp_start_def)
  with a show ?thesis by (simp add: tcp_start_def tcp_inv_def tcp_inv_defs tcp_quiet_def new_pipe_def)
qed

text \<open>Teardown keeps the counters and leaves the handle closing or absent.\<close>

lemma tcp_destroy_frame [simp]:
  "destroyed (tcp_destroy sd p)" "pending_bytes (tcp_destroy sd p) = pending_bytes p"
  "stream_pending_bytes (tcp_destroy sd p) = stream_pending_bytes p"
  "inflight_writes (tcp_destroy sd p) = inflight_writes p"
  "stream_paused (tcp_destroy sd p) = stream_paused p"
  "stream_closed (tcp_destroy sd p) = stream_closed p"
  by (simp_all add: pipe_defs)

lemma tcp_destroy_dead: "destroyed p \<Longrightarrow> tcp_destroy sd p = p"
  by (simp add: tcp_destroy_def)

interpretation tcp_teardown: teardown "tcp_destroy sd" destroyed
  by unfold_locales (simp_all add: tcp_destroy_dead)

lemma tcp_core_destroy: "tcp_core p w d c \<Longrightarrow> tcp_ok (tcp_destroy sd p) w d c"
  by (cases "tcp p"; cases "destroyed p") (auto simp: tcp_inv_defs pipe_defs)

lemma tcp_core_emit: "a \<noteq> ADestroyed \<Longrightarrow> tcp_core p w d c \<Longrightarrow> tcp_core (emit a p) w d c"
  by (simp add: tcp_core_def emit_def)

lemma tcp_ok_emit: "a \<noteq> ADestroyed \<Longrightarrow> tcp_ok p w d c \<Longrightarrow> tcp_ok (emit a p) w d c"
  by (auto simp: tcp_inv_defs emit_def)

lemma tcp_ok_side: "tcp_ok p w d c \<Longrightarrow> tcp_ok (on_side f p) w d c"
  by (auto simp: tcp_inv_defs on_side_def)

lemma tcp_ok_start_reading:
  "tcp_ok p w d False \<Longrightarrow> stream_pending_bytes p < kStreamHighWaterMark \<Longrightarrow>
   tcp_ok (start_reading e p) w d False"
  by (auto simp: tcp_inv_defs start_reading_def emit_def Let_def) (metis (full_types) option.exhaust uv_handle.exhaust)+

lemma tcp_ok_stop_reading: "tcp_ok p w d c \<Longrightarrow> tcp_ok (stop_reading p) w d c"
  by (auto simp: tcp_inv_defs stop_reading_def emit_def)

lemma tcp_ok_flush:
  assumes "tcp_core p w d c" and "\<not> destroyed p \<Longrightarrow> reading p \<Longrightarrow> stream_pending_bytes p < kStreamHighWaterMark"
    and "\<not> destroyed p \<Longrightarrow> stream_paused p \<longleftrightarrow> kHighWaterMark \<le> pending_bytes p"
  shows "tcp_ok (flush_finished sd p) w d c"
proof (cases "stream_closed p \<and> w = []")
  case True
  then show ?thesis
    using assms tcp_core_destroy [OF assms(1)] by (simp add: flush_finished_def tcp_core_def)
next
  case False
  show ?thesis
  proof (cases "stream_closed p")
    case True
    with False assms show ?thesis by (simp add: flush_finished_def tcp_inv_defs)
  next
    case False
    with assms show ?thesis by (simp add: flush_finished_def tcp_inv_defs)
  qed
qed

text \<open>One lemma per callback.\<close>

lemma tcp_ok_connected:
  "tcp_ok p w d True \<Longrightarrow> tcp_ok (tcp_connect_cb e sd status p) w d False"
proof -
  assume ok: "tcp_ok p w d True"
  then have ok': "tcp_ok p w d False" and small: "stream_pending_bytes p < kStreamHighWaterMark"
    by (auto simp: tcp_inv_defs)
  have e: "tcp_ok (emit a p') w d False" if "tcp_ok p' w d False" "a \<noteq> ADestroyed" for a p'
    using that by (rule tcp_ok_emit [rotated])
  have r: "tcp_ok (call_on_ready st p') w d False" if "tcp_ok p' w d False" for st p'
    using that by (simp add: call_on_ready_def e)
  show ?thesis
  proof (cases "status = 0")
    case True
    have "tcp_ok (start_reading e (emit (ALog Debug ''Connected'') p)) w d False"
      by (rule tcp_ok_start_reading) (simp_all add: e ok' small, simp add: emit_def small)
    then show ?thesis using True by (simp add: tcp_connect_cb_def r)
  next
    case False
    have "tcp_core (call_on_ready status (emit a p)) w d False" if "a \<noteq> ADestroyed" for a
      using r [OF e [OF ok' that]] by (simp add: tcp_ok_def)
    then show ?thesis using False by (simp add: tcp_connect_cb_def tcp_core_destroy)
  qed
qed

lemma tcp_ok_open:
  "tcp_ok p w d c \<Longrightarrow> tcp p = None \<Longrightarrow> \<not> destroyed p \<Longrightarrow>
   tcp_ok (p\<lparr>tcp := Some Open\<rparr>) w [] False \<and> d = [] \<and> \<not> c \<and> stream_pending_bytes p = 0"
  by (auto simp: tcp_inv_defs)

lemma tcp_ok_adopt:
  assumes "tcp_ok p w d c" and "tcp p = None"
  shows "tcp_ok (fst (adopt e a p)) w d c"
proof (cases "destroyed p \<or> \<not> a")
  case True
  then show ?thesis using assms by (auto simp: adopt_def)
next
  case False
  with assms tcp_ok_open [OF assms] have o: "tcp_ok (p\<lparr>tcp := Some Open\<rparr>) w d False" "\<not> c" "stream_pending_bytes p = 0"
    by auto
  have "tcp_ok (emit ANodelay (p\<lparr>tcp := Some Open\<rparr>)) w d False" using o by (simp add: tcp_ok_emit)
  then have "tcp_ok (start_reading e (emit ANodelay (p\<lparr>tcp := Some Open\<rparr>))) w d False"
    using o(3) by (intro tcp_ok_start_reading) (simp_all add: emit_def)
  then show ?thesis using False o(2) by (simp add: adopt_def)
qed

lemma tcp_ok_connect:
  assumes ok: "tcp_ok p w d c" and t: "tcp p = None"
  shows "case tcp_connect e sd h pt b p of
           (p', rc) \<Rightarrow> tcp_ok p' w d (c \<or> (rc = 0 \<and> \<not> destroyed p))"
proof (cases "destroyed p")
  case True
  then show ?thesis using ok by (simp add: tcp_connect_def)
next
  case False
  note live = False
  have c: "\<not> c" and d: "d = []" and o: "tcp_ok (p\<lparr>tcp := Some Open\<rparr>) w d False"
    using tcp_ok_open [OF ok t False] by auto
  have q: "tcp_ok (emit AInit p) w d False" using ok c by (simp add: tcp_ok_emit)
  show ?thesis
  proof (cases "e_tcp_init e = 0")
    case False
    have "(emit AInit p)\<lparr>tcp := None\<rparr> = emit AInit p" using t by (simp add: emit_def)
    then show ?thesis using live False q c by (simp add: tcp_connect_def)
  next
    case True
    let ?q = "emit ANodelay ((emit AInit p)\<lparr>tcp := Some Open\<rparr>)"
    have oq: "tcp_ok ?q w d False"
      using q t live by (auto simp: tcp_inv_defs emit_def)
    obtain rc a where r: "resolve (e_resolver e) h pt = (rc, a)" by (cases "resolve (e_resolver e) h pt")
    have core: "tcp_core (emit a (?q\<lparr>has_on_ready := b\<rparr>)) w d False" if "a \<noteq> ADestroyed" for a b
      using oq that by (auto simp: tcp_ok_def tcp_core_def emit_def)
    have core': "tcp_core (emit a ?q) w d False" if "a \<noteq> ADestroyed" for a
      using oq that by (auto simp: tcp_ok_def tcp_core_def emit_def)
    have rd: "\<not> reading p" using ok t by (auto simp: tcp_inv_defs)
    show ?thesis
    proof (cases "rc = 0")
      case False
      then show ?thesis
        using live True r c core' by (simp add: tcp_connect_def tcp_core_destroy)
    next
      case rc: True
      show ?thesis
      proof (cases "e_tcp_connect e = 0")
        case False
        then show ?thesis
          using live True r rc c core by (simp add: tcp_connect_def tcp_core_destroy)
      next
        case conn: True
        have "tcp_ok (emit (AConnect a) (?q\<lparr>has_on_ready := b\<rparr>)) w d True"
          using oq d rd by (auto simp: tcp_inv_defs emit_def)
        then show ?thesis using live True r rc conn c by (simp add: tcp_connect_def)
      qed
    qed
  qed
qed

lemma tcp_ok_read:
  assumes ok: "tcp_ok p w d c" and rd: "reading p" and n: "nread \<le> int kScratch"
    and wr: "ss_write sd \<noteq> None"
  shows "tcp_ok (read_cb e sd nread buf p) w
           (d @ (if write_accepted sd nread buf p then [nat nread] else [])) c"
proof -
  obtain f where wr: "ss_write sd = Some f" using wr by blast
  have live: "\<not> destroyed p" and c: "\<not> c" and o: "tcp p = Some Open"
    and lt: "stream_pending_bytes p < kStreamHighWaterMark"
    using ok rd by (auto simp: tcp_inv_defs)
  consider "nread = 0" | "nread < 0" | "0 < nread" by linarith
  then show ?thesis
  proof cases
    case 1
    then show ?thesis using ok by (simp add: read_cb_def write_accepted_def)
  next
    case 2
    have e: "tcp_ok (emit (ALog Debug l) p) w d c" for l using ok by (simp add: tcp_ok_emit)
    then have core: "tcp_core (emit (ALog Debug l) p) w d c" for l by (simp add: tcp_ok_def)
    show ?thesis
      using 2 live e core
      by (simp add: read_cb_def write_accepted_def tcp_ok_side tcp_ok_stop_reading tcp_core_destroy)
  next
    case 3
    let ?len = "nat nread"
    obtain st rc where w: "f (side_st p) (take ?len buf) (Some ?len) = (st, rc)"
      by (cases "f (side_st p) (take ?len buf) (Some ?len)")
    let ?q = "p\<lparr>stream_pending_bytes := stream_pending_bytes p + ?len, side_st := st\<rparr>"
    show ?thesis
    proof (cases "rc < 0")
      case True
      have "tcp_core (?q\<lparr>stream_pending_bytes := stream_pending_bytes p\<rparr>) w d c"
        using ok by (auto simp: tcp_ok_def tcp_core_def)
      then show ?thesis
        using True 3 live wr w by (simp add: read_cb_def write_accepted_def tcp_core_destroy)
    next
      case False
      have core: "tcp_core ?q w (d @ [?len]) c"
        using ok o live c lt n by (auto simp: tcp_ok_def tcp_core_def)
      have "tcp_ok (if kStreamHighWaterMark \<le> stream_pending_bytes ?q then stop_reading ?q else ?q)
              w (d @ [?len]) c"
        using core ok rd o by (auto simp: tcp_inv_defs stop_reading_def emit_def)
      then show ?thesis using False 3 live wr w by (simp add: read_cb_def write_accepted_def Let_def)
    qed
  qed
qed

lemma tcp_ok_data:
  assumes ok: "tcp_ok p w d c"
  shows "tcp_ok (tcp_on_stream_data e sd data p) (w @ (if data_queued e data p then [length data] else [])) d c"
proof (cases "destroyed p \<or> tcp p = None \<or> closing p \<or> data = []")
  case True
  then show ?thesis using ok by (auto simp: tcp_on_stream_data_def data_queued_def)
next
  case False
  have e: "tcp_ok (emit (AWrite data) p) w d c" using ok by (simp add: tcp_ok_emit)
  show ?thesis
  proof (cases "e_write e = 0")
    case True
    let ?q = "(emit (AWrite data) p)\<lparr>inflight_writes := inflight_writes p + 1,
                pending_bytes := pending_bytes p + length data\<rparr>"
    have core: "tcp_core ?q (w @ [length data]) d c"
      using e by (auto simp: tcp_ok_def tcp_core_def emit_def)
    have "tcp_ok (if \<not> stream_paused ?q \<and> kHighWaterMark \<le> pending_bytes ?q
                  then ?q\<lparr>stream_paused := True\<rparr> else ?q) (w @ [length data]) d c"
      using core e False by (auto simp: tcp_inv_defs emit_def)
    then have "tcp_ok (if \<not> stream_paused ?q \<and> kHighWaterMark \<le> pending_bytes ?q
                  then on_side (ss_pause sd) (?q\<lparr>stream_paused := True\<rparr>) else ?q) (w @ [length data]) d c"
      by (auto split: if_splits intro: tcp_ok_side)
    moreover have "inflight_writes (emit (AWrite data) p) = inflight_writes p"
      "pending_bytes (emit (AWrite data) p) = pending_bytes p" by (simp_all add: emit_def)
    ultimately show ?thesis using False True
      by (auto simp: tcp_on_stream_data_def data_queued_def Let_def)
  next
    case wf: False
    have "tcp_core (emit (AWrite data) p) w d c" using e by (simp add: tcp_ok_def)
    then show ?thesis using False wf
      by (auto simp: tcp_on_stream_data_def data_queued_def tcp_core_destroy)
  qed
qed

lemma tcp_ok_written:
  assumes ok: "tcp_ok p w d c" and w: "w \<noteq> []"
  shows "tcp_ok (write_cb sd (hd w) status p) (tl w) d c"
proof -
  let ?q = "p\<lparr>inflight_writes := inflight_writes p - 1,
              pending_bytes := less_pending (hd w) (pending_bytes p)\<rparr>"
  have core: "tcp_core ?q (tl w) d c"
    using ok w less_pending_tl [OF w] by (auto simp: tcp_ok_def tcp_core_def of_nat_diff Suc_le_eq)
  show ?thesis
  proof (cases "status = 0")
    case False
    then show ?thesis using core by (simp add: write_cb_def tcp_core_destroy)
  next
    case True
    let ?r = "on_side (ss_resume sd) (?q\<lparr>stream_paused := False\<rparr>)"
    have le: "less_pending (hd w) (pending_bytes p) \<le> pending_bytes p" by (simp add: less_pending_def)
    have rcore: "tcp_core ?r (tl w) d c" using core by (simp add: tcp_core_def on_side_def)
    have live: "\<not> destroyed p \<Longrightarrow> tcp_live p w" using ok by (simp add: tcp_ok_def)
    show ?thesis
    proof (cases "stream_paused p \<and> less_pending (hd w) (pending_bytes p) < kHighWaterMark")
      case resume: True
      have "tcp_ok (flush_finished sd ?r) (tl w) d c"
        using rcore live resume by (intro tcp_ok_flush) (simp_all add: on_side_def tcp_live_def)
      then show ?thesis using True resume by (simp add: write_cb_def Let_def)
    next
      case keep: False
      have "tcp_ok (flush_finished sd ?q) (tl w) d c"
      proof (rule tcp_ok_flush [OF core])
        assume "\<not> destroyed ?q"
        then have "tcp_live p w" using live by simp
        then show "stream_paused ?q \<longleftrightarrow> kHighWaterMark \<le> pending_bytes ?q"
          using keep le by (auto simp: tcp_live_def)
      next
        assume "\<not> destroyed ?q" "reading ?q"
        then show "stream_pending_bytes ?q < kStreamHighWaterMark" using live by (simp add: tcp_live_def)
      qed
      then show ?thesis using True keep by (auto simp: write_cb_def Let_def)
    qed
  qed
qed

lemma tcp_ok_drained:
  assumes ok: "tcp_ok p w d c" and len: "len \<in> set d"
  shows "tcp_ok (drained e len p) w (remove1 len d) c"
proof -
  let ?q = "p\<lparr>stream_pending_bytes := less_pending len (stream_pending_bytes p)\<rparr>"
  have c: "\<not> c" using ok len by (auto simp: tcp_inv_defs)
  have le: "less_pending len (stream_pending_bytes p) \<le> stream_pending_bytes p"
    by (simp add: less_pending_def)
  have "tcp_ok ?q w (remove1 len d) False"
    using ok le less_pending_remove1 [OF len] c len by (auto simp: tcp_inv_defs)
  then show ?thesis
    using c tcp_ok_start_reading [of ?q] by (simp add: drained_def resume_reading_def Let_def)
qed

lemma tcp_ok_stream_close:
  assumes ok: "tcp_ok p w d c"
  shows "tcp_ok (tcp_on_stream_close sd p) w d c"
proof (cases "destroyed p")
  case True
  then show ?thesis using ok by (simp add: tcp_on_stream_close_def)
next
  case False
  have "tcp_ok (flush_finished sd ((emit (ALog Debug l) p)\<lparr>stream_closed := True\<rparr>)) w d c" for l
    using ok by (intro tcp_ok_flush) (auto simp: tcp_inv_defs emit_def)
  with False show ?thesis by (simp add: tcp_on_stream_close_def)
qed

lemma tcp_ok_closed:
  "tcp_ok p w d False \<Longrightarrow> tcp p = Some Closing \<Longrightarrow> tcp_ok (closed_cb sd p) w d False"
  by (auto simp: tcp_inv_defs closed_cb_def fire_on_destroy_def on_side_def emit_def)

text \<open>The second half of the invariant, callback by callback.\<close>

lemma tcp_quiet_frame [simp]:
  "a \<noteq> ADestroyed \<Longrightarrow> tcp_quiet (emit a p) w c = tcp_quiet p w c"
  "tcp_quiet (on_side f p) w c = tcp_quiet p w c"
  "tcp_quiet (p\<lparr>pending_bytes := n\<rparr>) w c = tcp_quiet p w c"
  "tcp_quiet (p\<lparr>stream_pending_bytes := n\<rparr>) w c = tcp_quiet p w c"
  "tcp_quiet (p\<lparr>inflight_writes := i\<rparr>) w c = tcp_quiet p w c"
  "tcp_quiet (p\<lparr>reading := b\<rparr>) w c = tcp_quiet p w c"
  "tcp_quiet (p\<lparr>stream_paused := b\<rparr>) w c = tcp_quiet p w c"
  "tcp_quiet (p\<lparr>stream_closed := b\<rparr>) w c = tcp_quiet p w c"
  "tcp_quiet (p\<lparr>side_st := st\<rparr>) w c = tcp_quiet p w c"
  "tcp_quiet (p\<lparr>has_on_ready := b\<rparr>) w c = tcp_quiet p w c"
  by (auto simp: tcp_quiet_def emit_def on_side_def)

lemma tcp_quiet_reading [simp]:
  "tcp_quiet (start_reading e p) w c = tcp_quiet p w c"
  "tcp_quiet (stop_reading p) w c = tcp_quiet p w c"
  "tcp_quiet (resume_reading e p) w c = tcp_quiet p w c"
  "tcp_quiet (call_on_ready st p) w c = tcp_quiet p w c"
  by (simp_all add: start_reading_def stop_reading_def resume_reading_def call_on_ready_def Let_def)

text \<open>A live pipe has not begun to close its handle.\<close>

definition unclosed :: "'s tcp_pipe \<Rightarrow> bool" where
  "unclosed p \<longleftrightarrow> (\<not> destroyed p \<longrightarrow> tcp p \<noteq> Some Closing \<and> \<not> closing p)"

lemma tcp_ok_unclosed: "tcp_ok p w d c \<Longrightarrow> unclosed p"
  by (simp add: tcp_ok_def tcp_core_def unclosed_def)

lemma unclosed_frame [simp]:
  "unclosed (emit a p) = unclosed p" "unclosed (on_side f p) = unclosed p"
  "unclosed (start_reading e p) = unclosed p" "unclosed (stop_reading p) = unclosed p"
  "unclosed (call_on_ready rc p) = unclosed p"
  "unclosed (p\<lparr>pending_bytes := n\<rparr>) = unclosed p" "unclosed (p\<lparr>stream_pending_bytes := n\<rparr>) = unclosed p"
  "unclosed (p\<lparr>inflight_writes := i\<rparr>) = unclosed p" "unclosed (p\<lparr>stream_paused := b\<rparr>) = unclosed p"
  "unclosed (p\<lparr>stream_closed := b\<rparr>) = unclosed p" "unclosed (p\<lparr>side_st := st\<rparr>) = unclosed p"
  "unclosed (p\<lparr>has_on_ready := b\<rparr>) = unclosed p"
  by (simp_all add: unclosed_def emit_def on_side_def start_reading_def stop_reading_def
      call_on_ready_def Let_def)

lemma uv_handle_other: "h \<noteq> Closing \<longleftrightarrow> h = Open"
  by (cases h) simp_all

lemma tcp_quiet_destroy:
  "tcp_quiet p w c \<Longrightarrow> unclosed p \<Longrightarrow> tcp_quiet (tcp_destroy sd p) w c"
  by (cases "tcp p = Some Open"; cases "tcp p"; cases "destroyed p")
    (auto simp: uv_handle_other unclosed_def tcp_quiet_def tcp_destroy_def fire_on_destroy_def stop_reading_def emit_def on_side_def Let_def)

lemma tcp_quiet_handle: "tcp_quiet p w c \<Longrightarrow> w \<noteq> [] \<or> c \<Longrightarrow> tcp p \<noteq> None"
  by (auto simp: tcp_quiet_def)

lemma tcp_quiet_queue: "tcp_quiet p w c \<Longrightarrow> tcp p \<noteq> None \<Longrightarrow> tcp_quiet p w' c'"
  by (auto simp: tcp_quiet_def)

lemma tcp_quiet_tl: "tcp_quiet p w c \<Longrightarrow> tcp_quiet p (tl w) c"
  by (auto simp: tcp_quiet_def)

lemma tcp_quiet_events:
  assumes q: "tcp_quiet p w c" and u: "unclosed p"
  shows "tcp_quiet (tcp_destroy sd p) w c"
    and "tcp p = None \<Longrightarrow> tcp_quiet (fst (adopt e True p)) w c"
    and "c \<Longrightarrow> tcp_quiet (tcp_connect_cb e sd status p) w False"
    and "tcp_quiet (read_cb e sd nread buf p) w c"
    and "tcp_quiet (tcp_on_stream_data e sd data p)
           (w @ (if data_queued e data p then [length data] else [])) c"
    and "tcp_quiet (write_cb sd n status p) (tl w) c"
    and "tcp_quiet (drained e n p) w c"
    and "tcp_quiet (tcp_on_stream_close sd p) w c"
    and "w = [] \<Longrightarrow> \<not> c \<Longrightarrow> destroyed p \<Longrightarrow> tcp_quiet (closed_cb sd p) w c"
proof -
  have t: "tcp_quiet p (tl w) c" using q by (rule tcp_quiet_tl)
  note d = tcp_quiet_destroy
  show "tcp_quiet (tcp_destroy sd p) w c" using q u by (rule d)
  show "tcp p = None \<Longrightarrow> tcp_quiet (fst (adopt e True p)) w c"
    using q by (auto simp: adopt_def tcp_quiet_def start_reading_def emit_def Let_def)
  show "c \<Longrightarrow> tcp_quiet (tcp_connect_cb e sd status p) w False"
    using tcp_quiet_queue [OF q] tcp_quiet_handle [OF q] u by (simp add: tcp_connect_cb_def d)
  show "tcp_quiet (read_cb e sd nread buf p) w c"
    using q u by (simp add: read_cb_def Let_def d split: option.split prod.split)
  show "tcp_quiet (tcp_on_stream_data e sd data p)
      (w @ (if data_queued e data p then [length data] else [])) c"
  proof (cases "tcp p = None")
    case True
    then show ?thesis using q by (simp add: tcp_on_stream_data_def data_queued_def)
  next
    case False
    then show ?thesis
      using tcp_quiet_queue [OF q False] u by (simp add: tcp_on_stream_data_def Let_def d)
  qed
  show "tcp_quiet (write_cb sd n status p) (tl w) c"
    using t u by (simp add: write_cb_def flush_finished_def Let_def d)
  show "tcp_quiet (drained e n p) w c" using q by (simp add: drained_def Let_def)
  show "tcp_quiet (tcp_on_stream_close sd p) w c"
    using q u by (simp add: tcp_on_stream_close_def flush_finished_def d)
  show "w = [] \<Longrightarrow> \<not> c \<Longrightarrow> destroyed p \<Longrightarrow> tcp_quiet (closed_cb sd p) w c"
    by (simp add: tcp_quiet_def closed_cb_def fire_on_destroy_def emit_def on_side_def)
qed

lemma tcp_quiet_connect:
  assumes "tcp_quiet p w c" and "tcp p = None" and "tcp_ok p w d c"
  shows "case tcp_connect e sd h pt b p of (p', rc) \<Rightarrow> tcp_quiet p' w (c \<or> (rc = 0 \<and> \<not> destroyed p))"
proof (cases "destroyed p")
  case True
  then show ?thesis using assms by (simp add: tcp_connect_def)
next
  case False
  have n: "\<not> c" "w = []" "ADestroyed \<notin> set (acts p)" "\<not> closing p"
    using assms False by (simp_all add: tcp_quiet_def tcp_ok_def tcp_core_def)
  have o: "tcp_quiet ((emit AInit p)\<lparr>tcp := Some Open\<rparr>) w x" "tcp_quiet ((emit AInit p)\<lparr>tcp := None\<rparr>) w False"
    for x using n by (simp_all add: tcp_quiet_def emit_def)
  have u: "unclosed ((emit AInit p)\<lparr>tcp := Some Open\<rparr>)" using n by (simp add: unclosed_def emit_def)
  show ?thesis
    using False n o u by (simp add: tcp_connect_def Let_def tcp_quiet_destroy split: prod.split)
qed

lemmas tcp_ok_events = tcp_ok_adopt tcp_ok_connected tcp_ok_read tcp_ok_data tcp_ok_written
  tcp_ok_drained tcp_ok_stream_close tcp_ok_closed

lemma tcp_ok_step:
  assumes ok: "tcp_ok (sys_pipe s) (wq s) (dq s) (conn_req s)" and en: "tcp_enabled sd s (e, v)"
    and t: "t = tcp_step sd s (e, v)"
  shows "tcp_ok (sys_pipe t) (wq t) (dq t) (conn_req t)"
proof (cases v)
  case (EvConnect h pt b)
  obtain p' rc where r: "tcp_connect e sd h pt b (sys_pipe s) = (p', rc)"
    by (cases "tcp_connect e sd h pt b (sys_pipe s)")
  show ?thesis
    using ok en t EvConnect r tcp_ok_connect [of "sys_pipe s" "wq s" "dq s" "conn_req s" e sd h pt b]
    by (simp add: tcp_enabled_def tcp_step_def)
next
  case (EvRead n buf)
  then show ?thesis
    using ok en t tcp_ok_read [of "sys_pipe s" "wq s" "dq s" "conn_req s" n sd e buf]
    by (simp add: tcp_enabled_def tcp_step_def Let_def)
next
  case (EvData data)
  then show ?thesis
    using ok t tcp_ok_data [of "sys_pipe s" "wq s" "dq s" "conn_req s" e sd data]
    by (simp add: tcp_step_def Let_def)
next
  case EvDestroy
  have "tcp_core (sys_pipe s) (wq s) (dq s) (conn_req s)" using ok by (simp add: tcp_ok_def)
  then show ?thesis using t EvDestroy by (simp add: tcp_step_def tcp_core_destroy)
qed (use ok en t in \<open>simp_all add: tcp_enabled_def tcp_step_def tcp_ok_events Let_def\<close>)

lemma tcp_quiet_step:
  assumes ok: "tcp_ok (sys_pipe s) (wq s) (dq s) (conn_req s)"
    and q: "tcp_quiet (sys_pipe s) (wq s) (conn_req s)" and en: "tcp_enabled sd s (e, v)"
    and t: "t = tcp_step sd s (e, v)"
  shows "tcp_quiet (sys_pipe t) (wq t) (conn_req t)"
proof (cases v)
  case (EvConnect h pt b)
  obtain p' rc where r: "tcp_connect e sd h pt b (sys_pipe s) = (p', rc)"
    by (cases "tcp_connect e sd h pt b (sys_pipe s)")
  show ?thesis
    using q ok en t EvConnect r tcp_quiet_connect [of "sys_pipe s" "wq s" "conn_req s" "dq s" e sd h pt b]
    by (simp add: tcp_enabled_def tcp_step_def)
next
  case (EvData data)
  then show ?thesis using t tcp_quiet_events(5) [OF q tcp_ok_unclosed [OF ok]]
    by (simp add: tcp_step_def Let_def)
next
  case EvClosed
  have "destroyed (sys_pipe s)" using ok en EvClosed by (auto simp: tcp_enabled_def tcp_ok_def tcp_core_def)
  then show ?thesis using t en EvClosed tcp_quiet_events(9) [OF q tcp_ok_unclosed [OF ok]]
    by (simp add: tcp_step_def tcp_enabled_def)
qed (use en t tcp_quiet_events [OF q tcp_ok_unclosed [OF ok]] in
      \<open>simp_all add: tcp_enabled_def tcp_step_def Let_def\<close>)

lemma tcp_inv_step: "tcp_inv s \<Longrightarrow> tcp_enabled sd s ev \<Longrightarrow> tcp_inv (tcp_step sd s ev)"
  by (cases ev) (simp add: tcp_inv_def tcp_ok_step [OF _ _ refl] tcp_quiet_step [OF _ _ _ refl])

interpretation tcp_machine: machine "tcp_step sd" "tcp_enabled sd" tcp_start tcp_inv
  by unfold_locales (rule tcp_inv_start, assumption, rule tcp_inv_step)

interpretation proxy_teardown: teardown proxy_close "\<lambda>x. \<not> px_handle x"
  by unfold_locales (simp_all add: proxy_close_def)

text \<open>The states a pipe can be in, whatever the peer, the kernel and the owner do.\<close>

definition tcp_reachable :: "'s pipe_side \<Rightarrow> 's tcp_sys \<Rightarrow> bool" where
  "tcp_reachable sd = machine.reach (tcp_step sd) (tcp_enabled sd) tcp_start"

lemma tcp_reachable_start: "tcp_start s \<Longrightarrow> tcp_reachable sd s"
  unfolding tcp_reachable_def by (rule tcp_machine.reach_start)

lemma tcp_reachable_step: "tcp_reachable sd s \<Longrightarrow> tcp_enabled sd s ev \<Longrightarrow> tcp_reachable sd (tcp_step sd s ev)"
  unfolding tcp_reachable_def by (rule tcp_machine.reach_step)

lemma tcp_reachable_inv: "tcp_reachable sd s \<Longrightarrow> tcp_inv s"
  unfolding tcp_reachable_def by (rule tcp_machine.reach_inv)

definition tcp_run :: "'s pipe_side \<Rightarrow> 's tcp_sys \<Rightarrow> (uv_env \<times> tcp_event) list \<Rightarrow> 's tcp_sys" where
  "tcp_run sd s evs = foldl (tcp_step sd) s evs"

lemma write_cb_closed [simp]: "stream_closed (write_cb sd n st p) = stream_closed p"
  by (simp add: write_cb_def flush_finished_def on_side_def Let_def)

lemma tcp_step_written:
  "tcp_step sd s (e, EvWritten st) = s\<lparr>sys_pipe := write_cb sd (hd (wq s)) st (sys_pipe s), wq := tl (wq s)\<rparr>"
  by (simp add: tcp_step_def Let_def)

lemma tcp_flush_run:
  assumes "tcp_inv s" and "\<not> destroyed (sys_pipe s)" and "stream_closed (sys_pipe s)"
    and "k \<le> length (wq s)"
  shows "wq (tcp_run sd s (replicate k (e, EvWritten 0))) = drop k (wq s) \<and>
    (destroyed (sys_pipe (tcp_run sd s (replicate k (e, EvWritten 0)))) \<longleftrightarrow> k = length (wq s))"
  using assms
proof (induction k arbitrary: s)
  case 0
  then show ?case by (auto simp: tcp_run_def tcp_inv_def tcp_inv_defs)
next
  case (Suc k)
  let ?s1 = "tcp_step sd s (e, EvWritten 0)"
  have inv: "tcp_inv ?s1"
    using Suc.prems by (intro tcp_inv_step) (auto simp: tcp_enabled_def)
  have w1: "wq ?s1 = tl (wq s)" and c1: "stream_closed (sys_pipe ?s1)"
    using Suc.prems by (simp_all add: tcp_step_written)
  show ?case
  proof (cases "destroyed (sys_pipe ?s1)")
    case False
    have "k \<le> length (wq ?s1)" using Suc.prems w1 by simp
    from Suc.IH [OF inv False c1 this] show ?thesis
      using Suc.prems w1 by (cases "wq s") (auto simp: tcp_run_def)
  next
    case True
    have "inflight_writes (sys_pipe s) = int (length (wq s))"
      using Suc.prems by (simp add: tcp_inv_def tcp_inv_defs)
    then have "length (wq s) = 1" using True Suc.prems
      by (auto simp: tcp_step_written write_cb_def flush_finished_def on_side_def Let_def split: if_splits)
    then show ?thesis using True Suc.prems w1 by (cases "wq s") (auto simp: tcp_run_def)
  qed
qed

section \<open>Properties\<close>


text \<open>A library that always succeeds, and a stream that accepts every write, counting bytes.\<close>

definition demo_env :: uv_env where
  "demo_env = \<lparr>e_tcp_init = 0, e_tcp_connect = 0, e_read_start = 0, e_write = 0,
     e_strerror = (\<lambda>_. ''error''), e_resolver = loopback_resolver\<rparr>"

definition demo_side :: "nat pipe_side" where
  "demo_side = \<lparr>ss_write = Some (\<lambda>st bs _. (st + length bs, 0)), ss_pause = None, ss_resume = None,
     ss_close = None, on_destroy_cb = id\<rparr>"

definition demo_sys :: "nat tcp_sys" where
  "demo_sys = \<lparr>sys_pipe = new_pipe True 0, wq = [], dq = [], conn_req = False\<rparr>"

lemma demo_start: "tcp_start demo_sys"
  by (simp add: tcp_start_def demo_sys_def new_pipe_def)

lemmas pipe_run_defs = pipe_defs adopt_def demo_env_def demo_side_def demo_sys_def new_pipe_def
  tcp_step_def tcp_enabled_def write_accepted_def data_queued_def kScratch_def
  kStreamHighWaterMark_def kHighWaterMark_def call_def

definition demo_adopted :: "nat tcp_sys" where
  "demo_adopted = tcp_step demo_side demo_sys (demo_env, EvAdopt)"

lemma demo_adopted_reachable: "tcp_reachable demo_side demo_adopted"
  unfolding demo_adopted_def
  by (intro tcp_reachable_step tcp_reachable_start demo_start) (simp add: pipe_run_defs)


text \<open>
  C19: Flushing before teardown. When the stream of a live pipe closes while writes to the
  local socket are in flight, the pipe stays up, and as the writes complete one by one it is
  destroyed exactly when the last one has: no byte the peer sent before closing is dropped.
\<close>

theorem pipe_flush_before_close:
  fixes e e' :: uv_env and s :: "'s tcp_sys"
  assumes "tcp_reachable sd s" and "\<not> destroyed (sys_pipe s)" and "wq s \<noteq> []" and "k \<le> length (wq s)"
  defines "t \<equiv> tcp_run sd s ((e, EvStreamClose) # replicate k (e', EvWritten 0))"
  shows "wq t = drop k (wq s) \<and> (destroyed (sys_pipe t) \<longleftrightarrow> k = length (wq s))"
proof -
  let ?s1 = "tcp_step sd s (e, EvStreamClose)"
  have i: "tcp_inv ?s1"
    by (rule tcp_inv_step [OF tcp_reachable_inv [OF assms(1)]]) (simp add: tcp_enabled_def)
  have n: "inflight_writes (sys_pipe s) = int (length (wq s))"
    using tcp_reachable_inv [OF assms(1)] by (simp add: tcp_inv_def tcp_inv_defs)
  have "\<not> destroyed (sys_pipe ?s1) \<and> stream_closed (sys_pipe ?s1) \<and> wq ?s1 = wq s"
    using assms(2,3) n by (simp add: tcp_step_def tcp_on_stream_close_def flush_finished_def emit_def Let_def)
  then show ?thesis
    using tcp_flush_run [OF i, of k sd e'] assms(4) by (simp add: t_def tcp_run_def)
qed

theorem pipe_flush_before_close_witness:
  defines "s \<equiv> tcp_step demo_side demo_adopted (demo_env, EvData [1, 2])"
  shows "wq s = [2] \<and>
    destroyed (sys_pipe (tcp_run demo_side s [(demo_env, EvStreamClose), (demo_env, EvWritten 0)]))"
proof -
  have r: "tcp_reachable demo_side s"
    unfolding s_def
    by (intro tcp_reachable_step demo_adopted_reachable) (simp add: tcp_enabled_def)
  have w: "wq s = [2]" "\<not> destroyed (sys_pipe s)" by (simp_all add: s_def demo_adopted_def pipe_run_defs)
  show ?thesis
    using pipe_flush_before_close [OF r w(2), of 1 demo_env demo_env] w(1) by simp
qed

end
