(* ===== verification/Hs_Udp.thy ===== *)
theory Hs_Udp
  imports Hs_Frame Hs_Pipe
begin

text \<open>
  \<^verbatim>\<open>UdpPipe\<close> (\<^verbatim>\<open>src/udp_pipe.cpp\<close>), the server's bridge between one local UDP socket and one
  encrypted stream, and the helpers it shares with \<^verbatim>\<open>UdpProxy\<close>. The conventions are those of
  the TCP pipe: calls of libuv go to a trace, its answers come with the environment, the
  stream side acts on the state its owner shares with the pipe.
\<close>

section \<open>Sending and receiving\<close>

datatype uact =
    ULog level string
  | UBind sockaddr_in
  | URecvStart
  | URecvStop
  | USend sockaddr_in "byte list"
  | UClose
  | UDestroyed

text \<open>
  \<open>ue_send\<close> is the status \<^verbatim>\<open>uv_udp_send\<close> returns. The only effect of a failure is that the
  request is freed at once instead of in its callback.
\<close>

record udp_env =
  ue_init :: int
  ue_bind :: int
  ue_recv_start :: int
  ue_send :: int
  ue_sockname :: "u16 option"
  ue_strerror :: "int \<Rightarrow> string"
  ue_resolver :: resolver

definition send_datagram :: "udp_env \<Rightarrow> sockaddr_in \<Rightarrow> byte list \<Rightarrow> uact list \<Rightarrow> uact list \<times> int" where
  "send_datagram e dst data tr = (tr @ [USend dst data], ue_send e)"

text \<open>The frame callback of both classes: every payload goes out, the status is dropped.\<close>

definition send_all :: "udp_env \<Rightarrow> sockaddr_in \<Rightarrow> byte list list \<Rightarrow> uact list \<Rightarrow> uact list" where
  "send_all e dst ds tr = foldl (\<lambda>t d. fst (send_datagram e dst d t)) tr ds"

lemma send_all_trace: "send_all e dst ds tr = tr @ map (USend dst) ds"
  by (induction ds rule: rev_induct) (auto simp: send_all_def send_datagram_def)

text \<open>
  \<^verbatim>\<open>client_key\<close>. \<^verbatim>\<open>uv_ip4_name\<close> is the parameter \<open>ip4_name\<close>.
\<close>

definition client_key :: "(u32 \<Rightarrow> string) \<Rightarrow> sockaddr_in \<Rightarrow> string" where
  "client_key ip4_name a = ip4_name (sin_addr a) @ '':'' @ to_dec (unat (sin_port a))"

definition alloc_from :: "nat \<Rightarrow> nat \<Rightarrow> nat" where
  "alloc_from scratch_len suggested = (if suggested < scratch_len then suggested else scratch_len)"

text \<open>\<^verbatim>\<open>alloc_cb\<close> of either class: a handle whose object is gone gets no buffer.\<close>

definition udp_alloc_cb :: "bool \<Rightarrow> nat \<Rightarrow> nat \<Rightarrow> nat" where
  "udp_alloc_cb has_self scratch_len suggested = (if \<not> has_self then 0 else alloc_from scratch_len suggested)"

definition is_end_of_pass :: "int \<Rightarrow> sockaddr_in option \<Rightarrow> bool" where
  "is_end_of_pass nread addr \<longleftrightarrow> nread = 0 \<and> addr = None"

section \<open>State and operations\<close>

record 's udp_pipe =
  u_sock :: "uv_handle option"
  u_local :: sockaddr_in
  u_buf :: "byte list"
  u_has_on_destroy :: bool
  u_destroyed :: bool
  u_side :: 's
  u_acts :: "uact list"

definition new_udp_pipe :: "bool \<Rightarrow> 's \<Rightarrow> 's udp_pipe" where
  "new_udp_pipe on_destroy st =
     \<lparr>u_sock = None, u_local = \<lparr>sin_addr = 0, sin_port = 0\<rparr>, u_buf = [], u_has_on_destroy = on_destroy,
      u_destroyed = False, u_side = st, u_acts = []\<rparr>"

definition uemit :: "uact \<Rightarrow> 's udp_pipe \<Rightarrow> 's udp_pipe" where
  "uemit a p = p\<lparr>u_acts := u_acts p @ [a]\<rparr>"

definition udp_fire :: "'s pipe_side \<Rightarrow> 's udp_pipe \<Rightarrow> 's udp_pipe" where
  "udp_fire sd p =
     (if u_has_on_destroy p
      then (let p = uemit UDestroyed (p\<lparr>u_has_on_destroy := False\<rparr>)
            in p\<lparr>u_side := on_destroy_cb sd (u_side p)\<rparr>)
      else p)"

definition udp_destroy :: "'s pipe_side \<Rightarrow> 's udp_pipe \<Rightarrow> 's udp_pipe" where
  "udp_destroy sd p =
     (if u_destroyed p then p
      else let p = p\<lparr>u_destroyed := True\<rparr>;
               p = (if u_sock p \<noteq> None then uemit URecvStop p else p);
               p = p\<lparr>u_side := call (ss_close sd) (u_side p)\<rparr>
           in if u_sock p = Some Open
              then (uemit UClose p)\<lparr>u_sock := Some Closing\<rparr>
              else udp_fire sd p)"

text \<open>The close callback of the socket.\<close>

definition udp_closed_cb :: "'s pipe_side \<Rightarrow> 's udp_pipe \<Rightarrow> 's udp_pipe" where
  "udp_closed_cb sd p = udp_fire sd (p\<lparr>u_sock := None\<rparr>)"

text \<open>The destructor. A socket it closes has lost its pipe, so the close callback does nothing.\<close>

definition udp_delete :: "'s udp_pipe \<Rightarrow> 's udp_pipe" where
  "udp_delete p =
     (if u_sock p = None then p
      else (if u_sock p = Some Open then uemit UClose p else p)\<lparr>u_sock := None\<rparr>)"

definition udp_start ::
  "udp_env \<Rightarrow> 's pipe_side \<Rightarrow> string \<Rightarrow> u16 \<Rightarrow> 's udp_pipe \<Rightarrow> 's udp_pipe \<times> int" where
  "udp_start e sd host port p =
     (if u_destroyed p then (p, UV_ECANCELED)
      else case resolve (ue_resolver e) host port of
        (rc, addr) \<Rightarrow>
          let p = p\<lparr>u_local := addr\<rparr> in
          if rc \<noteq> 0 then (uemit (ULog Error (''Invalid local address '' @ host)) p, rc)
          else if ue_init e \<noteq> 0 then (p\<lparr>u_sock := None\<rparr>, ue_init e)
          else let p = p\<lparr>u_sock := Some Open\<rparr> in
            case uv_ip4_addr (ue_resolver e) ''0.0.0.0'' 0 of
              (rc0, any) \<Rightarrow>
                let (p, rc) = (if rc0 = 0 then (uemit (UBind any) p, ue_bind e) else (p, rc0));
                    (p, rc) = (if rc = 0 then (uemit URecvStart p, ue_recv_start e) else (p, rc))
                in if rc \<noteq> 0
                   then (udp_destroy sd
                           (uemit (ULog Error (''Local UDP socket failed: '' @ ue_strerror e rc)) p), rc)
                   else (uemit (ULog Debug ''Local UDP socket ready'') p, 0))"

definition udp_recv_cb ::
  "udp_env \<Rightarrow> 's pipe_side \<Rightarrow> int \<Rightarrow> byte list \<Rightarrow> sockaddr_in option \<Rightarrow> bool \<Rightarrow> 's udp_pipe \<Rightarrow> 's udp_pipe" where
  "udp_recv_cb e sd nread buf addr partial p =
     (if u_destroyed p then p
      else if is_end_of_pass nread addr then p
      else if nread < 0 then
        udp_destroy sd (uemit (ULog Error (''Local UDP socket error: '' @ ue_strerror e nread)) p)
      else if addr = None then p
      else if partial then uemit (ULog Warn ''Dropping a truncated local datagram'') p
      else case ss_write sd of
             None \<Rightarrow> p
           | Some write \<Rightarrow>
               (case write (u_side p) (frame (take (nat nread) buf)) None of
                  (st, rc) \<Rightarrow> let p = p\<lparr>u_side := st\<rparr> in if rc < 0 then udp_destroy sd p else p))"

definition udp_on_stream_data ::
  "udp_env \<Rightarrow> 's pipe_side \<Rightarrow> byte list \<Rightarrow> 's udp_pipe \<Rightarrow> 's udp_pipe" where
  "udp_on_stream_data e sd data p =
     (if u_destroyed p \<or> u_sock p = None \<or> data = [] then p
      else case decoder_push (u_buf p) data of
        (ok, buf, ds) \<Rightarrow>
          let p = p\<lparr>u_buf := buf, u_acts := send_all e (u_local p) ds (u_acts p)\<rparr>
          in if ok then p
             else udp_destroy sd (uemit (ULog Error ''Oversized UDP frame from peer, destroying stream'') p))"

definition udp_on_stream_close :: "'s pipe_side \<Rightarrow> 's udp_pipe \<Rightarrow> 's udp_pipe" where
  "udp_on_stream_close sd p =
     (if u_destroyed p then p
      else udp_destroy sd (uemit (ULog Debug ''Connection end, closing local UDP socket'') p))"

lemmas udp_defs = uemit_def udp_fire_def udp_destroy_def udp_closed_cb_def udp_start_def udp_recv_cb_def
  udp_on_stream_data_def udp_on_stream_close_def Let_def

lemma udp_destroy_frame [simp]:
  "u_destroyed (udp_destroy sd p)" "u_local (udp_destroy sd p) = u_local p"
  "u_buf (udp_destroy sd p) = u_buf p"
  by (simp_all add: udp_defs)

interpretation udp_teardown: teardown "udp_destroy sd" u_destroyed
  by unfold_locales (rule udp_destroy_frame(1), simp add: udp_destroy_def)

section \<open>Invariant\<close>

datatype udp_event =
    UEvStart string u16
  | UEvRecv int "byte list" "sockaddr_in option" bool
  | UEvData "byte list"
  | UEvStreamClose
  | UEvDestroy
  | UEvClosed

definition udp_step :: "'s pipe_side \<Rightarrow> 's udp_pipe \<Rightarrow> udp_env \<times> udp_event \<Rightarrow> 's udp_pipe" where
  "udp_step sd p ev =
     (let e = fst ev in
      case snd ev of
        UEvStart host port \<Rightarrow> fst (udp_start e sd host port p)
      | UEvRecv nread buf addr partial \<Rightarrow> udp_recv_cb e sd nread buf addr partial p
      | UEvData data \<Rightarrow> udp_on_stream_data e sd data p
      | UEvStreamClose \<Rightarrow> udp_on_stream_close sd p
      | UEvDestroy \<Rightarrow> udp_destroy sd p
      | UEvClosed \<Rightarrow> udp_closed_cb sd p)"

text \<open>
  The owner starts a pipe that has no socket, libuv receives on an open socket and runs the
  close callback of a closing one. The peer may send anything at any time.
\<close>

definition udp_enabled :: "'s udp_pipe \<Rightarrow> udp_env \<times> udp_event \<Rightarrow> bool" where
  "udp_enabled p ev =
     (case snd ev of
        UEvStart host port \<Rightarrow> u_sock p = None
      | UEvRecv nread buf addr partial \<Rightarrow> u_sock p = Some Open
      | UEvClosed \<Rightarrow> u_sock p = Some Closing
      | _ \<Rightarrow> True)"

definition udp_begin :: "'s udp_pipe \<Rightarrow> bool" where
  "udp_begin p \<longleftrightarrow> p = new_udp_pipe (u_has_on_destroy p) (u_side p)"

text \<open>
  A live pipe never keeps a whole frame's worth of undecoded bytes, whatever lengths the peer
  claims, and every datagram it ever sent fits the cap; the socket is open only while the pipe
  is live; the owner's destroy callback runs at most once and, until it has, a destroyed pipe
  has a close callback to come.
\<close>

definition udp_sound :: "'s udp_pipe \<Rightarrow> bool" where
  "udp_sound p \<longleftrightarrow>
     (u_sock p = Some Closing \<longrightarrow> u_destroyed p) \<and>
     (u_destroyed p \<longrightarrow> u_sock p \<noteq> Some Open \<and> (u_has_on_destroy p \<longrightarrow> u_sock p = Some Closing)) \<and>
     (u_has_on_destroy p \<longrightarrow> UDestroyed \<notin> set (u_acts p)) \<and>
     count_list (u_acts p) UDestroyed \<le> 1 \<and>
     (\<forall>dst d. USend dst d \<in> set (u_acts p) \<longrightarrow> length d \<le> kMaxDatagram)"

definition udp_inv :: "'s udp_pipe \<Rightarrow> bool" where
  "udp_inv p \<longleftrightarrow> udp_sound p \<and> (\<not> u_destroyed p \<longrightarrow> length (u_buf p) < 4 + kMaxDatagram)"

lemma count_sends [simp]: "count_list (map (USend dst) ds) UDestroyed = 0"
  by (induction ds) auto

lemma udp_sound_destroy: "udp_sound p \<Longrightarrow> udp_inv (udp_destroy sd p)"
  by (cases "u_sock p"; cases "u_destroyed p") (auto simp: udp_inv_def udp_sound_def udp_defs)

lemma udp_sound_emit:
  "(\<And>dst d. a \<noteq> USend dst d) \<Longrightarrow> a \<noteq> UDestroyed \<Longrightarrow> udp_sound (uemit a p) = udp_sound p"
  by (auto simp: udp_sound_def uemit_def)

lemma uemit_frame [simp]:
  "u_destroyed (uemit a p) = u_destroyed p" "u_buf (uemit a p) = u_buf p" "u_sock (uemit a p) = u_sock p"
  by (simp_all add: uemit_def)

lemma udp_inv_emit:
  "(\<And>dst d. a \<noteq> USend dst d) \<Longrightarrow> a \<noteq> UDestroyed \<Longrightarrow> udp_inv (uemit a p) = udp_inv p"
  by (simp add: udp_inv_def udp_sound_emit)

lemma udp_inv_begin: "udp_begin p \<Longrightarrow> udp_inv p"
proof -
  assume "udp_begin p"
  then obtain b st where "p = new_udp_pipe b st" by (auto simp: udp_begin_def)
  then show ?thesis by (simp add: udp_inv_def udp_sound_def new_udp_pipe_def)
qed

lemma udp_inv_start:
  assumes inv: "udp_inv p" and "u_sock p = None"
  shows "udp_inv (fst (udp_start e sd host port p))"
proof (cases "u_destroyed p")
  case True
  then show ?thesis using inv by (simp add: udp_start_def)
next
  case False
  have l: "udp_inv (p\<lparr>u_local := a\<rparr>)" and o: "udp_inv (p\<lparr>u_local := a, u_sock := Some Open\<rparr>)"
    and n: "udp_inv (p\<lparr>u_local := a, u_sock := None\<rparr>)" for a
    using inv False by (auto simp: udp_inv_def udp_sound_def)
  have s: "udp_inv p' \<Longrightarrow> udp_inv (udp_destroy sd p')" for p'
    by (simp add: udp_inv_def [of p'] udp_sound_destroy)
  show ?thesis using False
    by (simp add: udp_start_def Let_def l o n s udp_inv_emit split: prod.split)
qed

lemma udp_inv_recv: "udp_inv p \<Longrightarrow> udp_inv (udp_recv_cb e sd nread buf addr partial p)"
proof -
  assume inv: "udp_inv p"
  have w: "udp_inv (p\<lparr>u_side := st\<rparr>)" for st using inv by (simp add: udp_inv_def udp_sound_def)
  have s: "udp_inv p' \<Longrightarrow> udp_inv (udp_destroy sd p')" for p'
    by (simp add: udp_inv_def [of p'] udp_sound_destroy)
  show ?thesis
    using inv by (simp add: udp_recv_cb_def Let_def udp_inv_emit s w split: option.split prod.split)
qed

lemma udp_inv_data: "udp_inv p \<Longrightarrow> udp_inv (udp_on_stream_data e sd data p)"
proof -
  assume inv: "udp_inv p"
  obtain ok r ds where d: "decoder_push (u_buf p) data = (ok, r, ds)" by (cases "decoder_push (u_buf p) data")
  have b: "(ok \<longrightarrow> length r < 4 + kMaxDatagram) \<and> (\<forall>f \<in> set ds. length f \<le> kMaxDatagram)"
    using deframe_bounds [of "u_buf p @ data" ok r ds] d by (simp add: decoder_push_deframe)
  let ?q = "p\<lparr>u_buf := r, u_acts := send_all e (u_local p) ds (u_acts p)\<rparr>"
  have q: "udp_sound ?q"
    using inv b by (auto simp: udp_inv_def udp_sound_def send_all_trace)
  have u: "udp_sound (uemit (ULog Error l) ?q)" for l using q by (simp add: udp_sound_emit)
  show ?thesis
    using inv b q by (simp add: udp_on_stream_data_def d Let_def udp_sound_destroy [OF u] udp_inv_def [of ?q])
qed

lemma udp_inv_step: "udp_inv p \<Longrightarrow> udp_enabled p ev \<Longrightarrow> udp_inv (udp_step sd p ev)"
proof -
  assume inv: "udp_inv p" and en: "udp_enabled p ev"
  then have sound: "udp_sound p" by (simp add: udp_inv_def)
  obtain e v where ev: "ev = (e, v)" by (cases ev)
  show ?thesis
  proof (cases v)
    case UEvClosed
    then show ?thesis
      using inv en ev by (auto simp: udp_step_def udp_enabled_def udp_inv_def udp_sound_def udp_defs)
  qed (use inv en sound ev in \<open>simp_all add: udp_step_def udp_enabled_def Let_def udp_inv_start udp_inv_recv
      udp_inv_data udp_sound_destroy udp_on_stream_close_def udp_sound_emit\<close>)
qed

interpretation udp_machine: machine "udp_step sd" udp_enabled udp_begin udp_inv
  by unfold_locales (rule udp_inv_begin, assumption, rule udp_inv_step)

definition udp_reachable :: "'s pipe_side \<Rightarrow> 's udp_pipe \<Rightarrow> bool" where
  "udp_reachable sd = machine.reach (udp_step sd) udp_enabled udp_begin"

lemma udp_reachable_begin: "udp_begin p \<Longrightarrow> udp_reachable sd p"
  unfolding udp_reachable_def by (rule udp_machine.reach_start)

lemma udp_reachable_step: "udp_reachable sd p \<Longrightarrow> udp_enabled p ev \<Longrightarrow> udp_reachable sd (udp_step sd p ev)"
  unfolding udp_reachable_def by (rule udp_machine.reach_step)

lemma udp_reachable_inv: "udp_reachable sd p \<Longrightarrow> udp_inv p"
  unfolding udp_reachable_def by (rule udp_machine.reach_inv)

section \<open>What a stream of chunks does\<close>

text \<open>The datagrams a pipe has sent, with their destinations.\<close>

definition sends_of :: "uact list \<Rightarrow> (sockaddr_in \<times> byte list) list" where
  "sends_of tr = concat (map (\<lambda>a. case a of USend dst d \<Rightarrow> [(dst, d)] | _ \<Rightarrow> []) tr)"

lemma sends_of_append [simp]: "sends_of (xs @ ys) = sends_of xs @ sends_of ys"
  by (simp add: sends_of_def)

lemma sends_of_sends [simp]: "sends_of (map (USend dst) ds) = map (Pair dst) ds"
  by (induction ds) (auto simp: sends_of_def)

lemma sends_of_others [simp]:
  "sends_of [ULog l t] = []" "sends_of [URecvStop] = []" "sends_of [UClose] = []"
  "sends_of [UDestroyed] = []" "sends_of (ULog l t # tr) = sends_of tr" "sends_of (URecvStart # tr) = sends_of tr"
  "sends_of (UBind a # tr) = sends_of tr" "sends_of [UBind a] = []" "sends_of [URecvStart] = []" "sends_of [] = []"
  by (simp_all add: sends_of_def)

lemma sends_of_fire [simp]: "sends_of (u_acts (udp_fire sd p)) = sends_of (u_acts p)"
  by (simp add: udp_fire_def uemit_def Let_def)

lemma sends_of_destroy [simp]: "sends_of (u_acts (udp_destroy sd p)) = sends_of (u_acts p)"
  by (simp add: udp_destroy_def uemit_def Let_def)

definition udp_feed :: "udp_env \<Rightarrow> 's pipe_side \<Rightarrow> byte list list \<Rightarrow> 's udp_pipe \<Rightarrow> 's udp_pipe" where
  "udp_feed e sd chunks p = foldl (\<lambda>p c. udp_on_stream_data e sd c p) p chunks"

lemma udp_feed_dead: "u_destroyed p \<Longrightarrow> udp_feed e sd chunks p = p"
  by (induction chunks) (auto simp: udp_feed_def udp_on_stream_data_def)

lemma udp_feed_feed:
  assumes "\<not> u_destroyed p" and "u_sock p \<noteq> None"
  shows "case feed decoder_push (u_buf p) (filter (\<lambda>c. c \<noteq> []) chunks) of (ok, r, ds) \<Rightarrow>
    sends_of (u_acts (udp_feed e sd chunks p)) = sends_of (u_acts p) @ map (Pair (u_local p)) ds \<and>
    (u_destroyed (udp_feed e sd chunks p) \<longleftrightarrow> \<not> ok) \<and> (ok \<longrightarrow> u_buf (udp_feed e sd chunks p) = r)"
  using assms
proof (induction chunks arbitrary: p)
  case Nil
  then show ?case by (simp add: udp_feed_def)
next
  case (Cons c cs)
  have step: "udp_feed e sd (c # cs) p = udp_feed e sd cs (udp_on_stream_data e sd c p)"
    by (simp add: udp_feed_def)
  show ?case
  proof (cases "c = []")
    case True
    then show ?thesis using Cons.IH [OF Cons.prems] step by (simp add: udp_on_stream_data_def)
  next
    case False
    obtain ok r ds where d: "decoder_push (u_buf p) c = (ok, r, ds)" by (cases "decoder_push (u_buf p) c")
    let ?q = "p\<lparr>u_buf := r, u_acts := send_all e (u_local p) ds (u_acts p)\<rparr>"
    show ?thesis
    proof (cases ok)
      case True
      then have "udp_on_stream_data e sd c p = ?q"
        using d False Cons.prems by (auto simp: udp_on_stream_data_def)
      then show ?thesis
        using Cons.IH [of ?q] Cons.prems d False True step
        by (auto simp: send_all_trace split: prod.splits)
    next
      case bad: False
      then have "udp_on_stream_data e sd c p =
          udp_destroy sd (uemit (ULog Error ''Oversized UDP frame from peer, destroying stream'') ?q)"
        using d False Cons.prems by (auto simp: udp_on_stream_data_def)
      then show ?thesis
        using bad d False step by (simp add: udp_feed_dead uemit_def send_all_trace)
    qed
  qed
qed

lemma concat_filter_nonempty: "concat (filter (\<lambda>c. c \<noteq> []) cs) = concat cs"
  by (induction cs) auto

section \<open>Properties\<close>

text \<open>
  C25: A UDP pipe against any peer: in every reachable state a live pipe keeps fewer undecoded
  bytes than one header and one maximal datagram, so a hostile length cannot make it buffer
  without bound; no datagram above the cap was ever sent; and the owner's destroy callback
  has run at most once, with a close callback still to come if it is owed.
\<close>

theorem udp_pipe_bounded:
  assumes "udp_reachable sd p"
  shows "(\<not> u_destroyed p \<longrightarrow> length (u_buf p) < 4 + kMaxDatagram) \<and>
    (\<forall>(dst, d) \<in> set (sends_of (u_acts p)). length d \<le> kMaxDatagram) \<and>
    count_list (u_acts p) UDestroyed \<le> 1 \<and>
    (u_destroyed p \<and> u_has_on_destroy p \<longrightarrow> u_sock p = Some Closing)"
proof -
  have i: "udp_inv p" using assms by (rule udp_reachable_inv)
  then have "\<forall>(dst, d) \<in> set (sends_of (u_acts p)). length d \<le> kMaxDatagram"
    by (auto simp: udp_inv_def udp_sound_def sends_of_def split: uact.splits)
  then show ?thesis using i by (simp add: udp_inv_def udp_sound_def)
qed

definition demo_udp_env :: udp_env where
  "demo_udp_env = \<lparr>ue_init = 0, ue_bind = 0, ue_recv_start = 0, ue_send = 0, ue_sockname = Some 4000,
     ue_strerror = (\<lambda>_. ''error''), ue_resolver = loopback_resolver\<rparr>"

definition demo_udp :: "nat udp_pipe" where
  "demo_udp = udp_step demo_side (new_udp_pipe True 0) (demo_udp_env, UEvStart ''127.0.0.1'' 53)"

lemma demo_udp_reachable: "udp_reachable demo_side demo_udp"
  unfolding demo_udp_def
  by (intro udp_reachable_step udp_reachable_begin)
    (simp_all add: udp_begin_def new_udp_pipe_def udp_enabled_def)

lemma demo_udp_state:
  "\<not> u_destroyed demo_udp" "u_sock demo_udp = Some Open" "u_buf demo_udp = []"
  "sends_of (u_acts demo_udp) = []" "u_local demo_udp = \<lparr>sin_addr = 0x7F000001, sin_port = 53\<rparr>"
  "u_side demo_udp = 0"
  by (simp_all add: demo_udp_def new_udp_pipe_def udp_step_def udp_start_def resolve_def resolve_ip4_def
      demo_udp_env_def loopback_resolver_def uv_codes Let_def udp_destroy_def uemit_def demo_side_def
      call_def udp_fire_def)

text \<open>
  Whatever way the peer's bytes are cut into chunks, a UDP pipe sends exactly the payloads
  the reference decoder finds in their concatenation, in order, all to its local service, and
  destroys itself exactly when the reference decoder rejects the bytes.
\<close>

lemma udp_pipe_chunking:
  assumes "\<not> u_destroyed p" and "u_sock p \<noteq> None" and "concat chunks \<noteq> []"
  shows "case deframe (u_buf p @ concat chunks) of (ok, r, ds) \<Rightarrow>
    sends_of (u_acts (udp_feed e sd chunks p)) = sends_of (u_acts p) @ map (Pair (u_local p)) ds \<and>
    (u_destroyed (udp_feed e sd chunks p) \<longleftrightarrow> \<not> ok)"
proof -
  let ?cs = "filter (\<lambda>c. c \<noteq> []) chunks"
  have "?cs \<noteq> []" using assms(3) by (metis concat.simps(1) concat_filter_nonempty)
  from framing.feed_concat(1,2) [OF this, of "u_buf p"] show ?thesis
    using udp_feed_feed [OF assms(1,2), where chunks = chunks and e = e and sd = sd]
    by (auto simp: concat_filter_nonempty decoder_push_deframe split: prod.splits)
qed

theorem udp_pipe_bounded_witness:
  defines "p \<equiv> udp_step demo_side demo_udp (demo_udp_env, UEvData [0xFF, 0xFF, 0xFF, 0xFF])"
  shows "udp_reachable demo_side p \<and> u_destroyed p \<and> count_list (u_acts p) UDestroyed \<le> 1"
proof -
  have r: "udp_reachable demo_side p"
    unfolding p_def by (intro udp_reachable_step demo_udp_reachable) (simp add: udp_enabled_def)
  have l: "kMaxDatagram < unat (frame_len_at [0xFF, 0xFF, 0xFF, 0xFF])"
    by (simp add: frame_len_at_def kMaxDatagram_def)
  have "decoder_push [] [0xFF, 0xFF, 0xFF, 0xFF] = (False, [0xFF, 0xFF, 0xFF, 0xFF], [])"
    unfolding decoder_push_deframe using l by (subst deframe.simps) simp
  then have "u_destroyed p"
    by (simp add: p_def udp_step_def udp_on_stream_data_def demo_udp_state Let_def)
  then show ?thesis using r udp_pipe_bounded [OF r] by simp
qed

lemma udp_pipe_chunking_witness:
  "sends_of (u_acts (udp_feed demo_udp_env demo_side [[0, 0], [0, 1, 7]] demo_udp)) =
   [(\<lparr>sin_addr = 0x7F000001, sin_port = 53\<rparr>, [7])]"
proof -
  have f: "[0, 0, 0, 1, 7] = frame [7] @ ([] :: byte list)" by (simp add: frame_def frame_header_def)
  have "deframe [0, 0, 0, 1, 7] = (True, [], [[7]])"
    unfolding f using deframe_frame [of "[7]" "[]"] by (simp add: deframe_short kMaxDatagram_def)
  then show ?thesis
    using udp_pipe_chunking [of demo_udp "[[0, 0], [0, 1, 7]]" demo_udp_env demo_side] demo_udp_state by simp
qed

end
