(* ===== verification/Hs_Udp_Proxy.thy ===== *)
theory Hs_Udp_Proxy
  imports Hs_Udp
begin

text \<open>
  \<^verbatim>\<open>UdpProxy\<close> (\<^verbatim>\<open>src/udp_pipe.cpp\<close>): one bound UDP socket on the client's side and one
  encrypted stream per source address, each with its own frame decoder. \<^verbatim>\<open>clients_\<close> is a map
  from the printed address. The streams are opened and written through closures of the
  owner, which act on the state \<open>'s\<close> it shares with the proxy.
\<close>

section \<open>State and operations\<close>

record 's udp_client =
  uc_stream :: "'s stream_side"
  uc_addr :: sockaddr_in
  uc_buf :: "byte list"

record 's udp_proxy =
  ux_sock :: bool
  ux_open :: "('s \<Rightarrow> string \<Rightarrow> 's \<times> 's stream_side) option"
  ux_clients :: "string \<Rightarrow> 's udp_client option"
  ux_bound_port :: u16
  ux_side :: 's
  ux_acts :: "uact list"

definition new_udp_proxy :: "'s \<Rightarrow> 's udp_proxy" where
  "new_udp_proxy st =
     \<lparr>ux_sock = False, ux_open = None, ux_clients = Map.empty, ux_bound_port = 0, ux_side = st, ux_acts = []\<rparr>"

definition uxemit :: "uact \<Rightarrow> 's udp_proxy \<Rightarrow> 's udp_proxy" where
  "uxemit a x = x\<lparr>ux_acts := ux_acts x @ [a]\<rparr>"

definition uproxy_close :: "'s udp_proxy \<Rightarrow> 's udp_proxy" where
  "uproxy_close x =
     (let x = x\<lparr>ux_clients := Map.empty\<rparr>
      in if \<not> ux_sock x then x else (uxemit UClose x)\<lparr>ux_sock := False\<rparr>)"

definition uproxy_listen ::
  "udp_env \<Rightarrow> string \<Rightarrow> u16 \<Rightarrow> ('s \<Rightarrow> string \<Rightarrow> 's \<times> 's stream_side) option \<Rightarrow> 's udp_proxy \<Rightarrow>
   's udp_proxy \<times> int" where
  "uproxy_listen e host port open_stream x =
     (if ue_init e \<noteq> 0 then (x\<lparr>ux_sock := False\<rparr>, ue_init e)
      else let x = x\<lparr>ux_sock := True, ux_open := open_stream\<rparr> in
        case resolve (ue_resolver e) host port of
          (rc0, addr) \<Rightarrow>
            let (x, rc) = (if rc0 = 0 then (uxemit (UBind addr) x, ue_bind e) else (x, rc0));
                (x, rc) = (if rc = 0 then (uxemit URecvStart x, ue_recv_start e) else (x, rc))
            in if rc \<noteq> 0
               then (uproxy_close (uxemit (ULog Error (''UDP listen failed: '' @ ue_strerror e rc)) x), rc)
               else (case ue_sockname e of None \<Rightarrow> (x, 0) | Some p \<Rightarrow> (x\<lparr>ux_bound_port := p\<rparr>, 0)))"

text \<open>The common tail of a failed write and of a malformed stream: erase first, then close.\<close>

definition uproxy_drop :: "string \<Rightarrow> 's udp_client \<Rightarrow> 's udp_proxy \<Rightarrow> 's udp_proxy" where
  "uproxy_drop i c x =
     (let x = x\<lparr>ux_clients := (ux_clients x)(i := None)\<rparr>
      in x\<lparr>ux_side := call (ss_close (uc_stream c)) (ux_side x)\<rparr>)"

text \<open>The lookup of the client, or the opening of its stream on its first datagram.\<close>

definition uproxy_client ::
  "(u32 \<Rightarrow> string) \<Rightarrow> sockaddr_in \<Rightarrow> 's udp_proxy \<Rightarrow> 's udp_proxy \<times> 's udp_client option" where
  "uproxy_client nm addr x =
     (let i = client_key nm addr in
      case ux_clients x i of
        Some c \<Rightarrow> (x, Some c)
      | None \<Rightarrow>
          (case ux_open x of
             None \<Rightarrow> (x, None)
           | Some open_stream \<Rightarrow>
               (case open_stream (ux_side x) i of
                  (st, side) \<Rightarrow>
                    let x = x\<lparr>ux_side := st\<rparr> in
                    if ss_write side = None
                    then (uxemit (ULog Error (''No stream available for '' @ i)) x, None)
                    else let c = \<lparr>uc_stream = side, uc_addr = addr, uc_buf = []\<rparr>;
                             x = uxemit (ULog Debug (''New UDP client '' @ i)) x
                         in (x\<lparr>ux_clients := (ux_clients x)(i \<mapsto> c)\<rparr>, Some c))))"

definition uproxy_write ::
  "string \<Rightarrow> 's udp_client \<Rightarrow> byte list \<Rightarrow> 's udp_proxy \<Rightarrow> 's udp_proxy" where
  "uproxy_write i c data x =
     (case ss_write (uc_stream c) of
        None \<Rightarrow> x
      | Some write \<Rightarrow>
          (case write (ux_side x) (frame data) None of
             (st, rc) \<Rightarrow>
               let x = x\<lparr>ux_side := st\<rparr> in
               if rc < 0
               then uproxy_drop i c (uxemit (ULog Error (''Stream write failed for '' @ i @ '', dropping client'')) x)
               else x))"

definition uproxy_recv_cb ::
  "udp_env \<Rightarrow> (u32 \<Rightarrow> string) \<Rightarrow> int \<Rightarrow> byte list \<Rightarrow> sockaddr_in option \<Rightarrow> bool \<Rightarrow> 's udp_proxy \<Rightarrow> 's udp_proxy" where
  "uproxy_recv_cb e nm nread buf addr partial x =
     (if \<not> ux_sock x then x
      else if is_end_of_pass nread addr then x
      else if nread < 0 then uxemit (ULog Warn (''UDP proxy receive error: '' @ ue_strerror e nread)) x
      else case addr of
             None \<Rightarrow> x
           | Some a \<Rightarrow>
               if partial then uxemit (ULog Warn ''Dropping a truncated datagram'') x
               else (case uproxy_client nm a x of
                       (x, None) \<Rightarrow> x
                     | (x, Some c) \<Rightarrow> uproxy_write (client_key nm a) c (take (nat nread) buf) x))"

definition uproxy_on_stream_data ::
  "udp_env \<Rightarrow> string \<Rightarrow> byte list \<Rightarrow> 's udp_proxy \<Rightarrow> 's udp_proxy" where
  "uproxy_on_stream_data e i data x =
     (if \<not> ux_sock x \<or> data = [] then x
      else case ux_clients x i of
             None \<Rightarrow> x
           | Some c \<Rightarrow>
               (case decoder_push (uc_buf c) data of
                  (ok, buf, ds) \<Rightarrow>
                    let x = x\<lparr>ux_clients := (ux_clients x)(i \<mapsto> c\<lparr>uc_buf := buf\<rparr>),
                              ux_acts := send_all e (uc_addr c) ds (ux_acts x)\<rparr>
                    in if ok then x
                       else uproxy_drop i c
                              (uxemit (ULog Error (''Oversized UDP frame from peer for '' @ i @
                                 '', destroying stream'')) x)))"

definition uproxy_on_stream_close :: "string \<Rightarrow> 's udp_proxy \<Rightarrow> 's udp_proxy" where
  "uproxy_on_stream_close i x = x\<lparr>ux_clients := (ux_clients x)(i := None)\<rparr>"

section \<open>Client keys\<close>

text \<open>
  What libuv documents of \<^verbatim>\<open>uv_ip4_name\<close>, as far as the map needs it: distinct addresses print
  differently, and a printed address has no colon. The dotted quad is such a printer.
\<close>

definition ip4_name_law :: "(u32 \<Rightarrow> string) \<Rightarrow> bool" where
  "ip4_name_law nm \<longleftrightarrow> (\<forall>a b. nm a = nm b \<longrightarrow> a = b) \<and> (\<forall>a. CHR '':'' \<notin> set (nm a))"

definition dotted_quad :: "u32 \<Rightarrow> string" where
  "dotted_quad a =
     to_dec (unat a div 2 ^ 24) @ ''.'' @ to_dec (unat a div 2 ^ 16 mod 256) @ ''.'' @
     to_dec (unat a div 2 ^ 8 mod 256) @ ''.'' @ to_dec (unat a mod 256)"

lemma split_at_eq:
  assumes "c \<notin> set a" and "c \<notin> set b" and "a @ c # x = b @ c # y"
  shows "a = b \<and> x = y"
  using assms
proof (induction a arbitrary: b)
  case Nil
  then show ?case by (cases b) auto
next
  case (Cons d a)
  then show ?case by (cases b) auto
qed

lemma to_dec_not_in: "\<not> is_digit c \<Longrightarrow> c \<notin> set (to_dec n)"
  using to_dec_digits by blast

lemma not_digit_punct [simp]: "\<not> is_digit CHR '':''" "\<not> is_digit CHR ''.''"
  by (simp_all add: is_digit_def chr_code_def)

lemma dotted_quad_law: "ip4_name_law dotted_quad"
proof -
  have nd: "CHR ''.'' \<notin> set (to_dec n)" for n by (simp add: to_dec_not_in)
  have "a = b" if eq: "dotted_quad a = dotted_quad b" for a b
  proof -
    let ?f = "\<lambda>x k. unat (x :: u32) div 2 ^ k"
    from eq have h: "?f a 24 = ?f b 24" "?f a 16 mod 256 = ?f b 16 mod 256"
      "?f a 8 mod 256 = ?f b 8 mod 256" "unat a mod 256 = unat b mod 256"
      unfolding dotted_quad_def append_Cons append_Nil
      by (metis (no_types, lifting) split_at_eq [OF nd nd] to_dec_inject)+
    have r: "m = m div 2 ^ 24 * 2 ^ 24 + m div 2 ^ 16 mod 256 * 2 ^ 16 + m div 2 ^ 8 mod 256 * 2 ^ 8 + m mod 256"
      for m :: nat
    proof -
      have d: "m div 256 div 256 = m div 65536" "m div 65536 div 256 = m div 16777216"
        by (simp_all add: div_mult2_eq [symmetric])
      have "m = m div 256 * 256 + m mod 256" "m div 256 = m div 256 div 256 * 256 + m div 256 mod 256"
        "m div 65536 = m div 65536 div 256 * 256 + m div 65536 mod 256" by (rule div_mult_mod_eq [symmetric])+
      then have "m = m div 16777216 * 16777216 + m div 65536 mod 256 * 65536 + m div 256 mod 256 * 256 + m mod 256"
        unfolding d by linarith
      then show ?thesis by simp
    qed
    have "unat a = ?f a 24 * 2 ^ 24 + ?f a 16 mod 256 * 2 ^ 16 + ?f a 8 mod 256 * 2 ^ 8 + unat a mod 256"
      by (rule r)
    also have "\<dots> = ?f b 24 * 2 ^ 24 + ?f b 16 mod 256 * 2 ^ 16 + ?f b 8 mod 256 * 2 ^ 8 + unat b mod 256"
      by (simp only: h)
    also have "\<dots> = unat b" by (rule r [symmetric])
    finally show ?thesis by (simp only: word_unat_eq_iff)
  qed
  moreover have "CHR '':'' \<notin> set (dotted_quad a)" for a by (simp add: dotted_quad_def to_dec_not_in)
  ultimately show ?thesis by (auto simp: ip4_name_law_def)
qed

lemma client_key_inject:
  assumes "ip4_name_law nm"
  shows "client_key nm a = client_key nm b \<longleftrightarrow> a = b"
proof
  assume eq: "client_key nm a = client_key nm b"
  have "nm (sin_addr a) = nm (sin_addr b) \<and> to_dec (unat (sin_port a)) = to_dec (unat (sin_port b))"
    using assms eq by (intro split_at_eq [of "CHR '':''"]) (simp_all add: ip4_name_law_def client_key_def)
  then have "sin_addr a = sin_addr b" and "unat (sin_port a) = unat (sin_port b)"
    using assms unfolding ip4_name_law_def to_dec_inject by blast+
  then show "a = b" by (simp add: word_unat_eq_iff [of "sin_port a"])
qed simp

section \<open>Invariant\<close>

datatype 's uproxy_event =
    XListen string u16 "('s \<Rightarrow> string \<Rightarrow> 's \<times> 's stream_side) option"
  | XRecv int "byte list" "sockaddr_in option" bool
  | XData string "byte list"
  | XStreamClose string
  | XClose

definition uproxy_step ::
  "(u32 \<Rightarrow> string) \<Rightarrow> 's udp_proxy \<Rightarrow> udp_env \<times> 's uproxy_event \<Rightarrow> 's udp_proxy" where
  "uproxy_step nm x ev =
     (let e = fst ev in
      case snd ev of
        XListen host port f \<Rightarrow> fst (uproxy_listen e host port f x)
      | XRecv nread buf addr partial \<Rightarrow> uproxy_recv_cb e nm nread buf addr partial x
      | XData i data \<Rightarrow> uproxy_on_stream_data e i data x
      | XStreamClose i \<Rightarrow> uproxy_on_stream_close i x
      | XClose \<Rightarrow> uproxy_close x)"

text \<open>The owner listens once; everything else may come at any time.\<close>

definition uproxy_enabled :: "'s udp_proxy \<Rightarrow> udp_env \<times> 's uproxy_event \<Rightarrow> bool" where
  "uproxy_enabled x ev = (case snd ev of XListen _ _ _ \<Rightarrow> \<not> ux_sock x | _ \<Rightarrow> True)"

definition uproxy_begin :: "'s udp_proxy \<Rightarrow> bool" where
  "uproxy_begin x \<longleftrightarrow> x = new_udp_proxy (ux_side x)"

text \<open>
  A client is filed under the printed form of its own address, has a stream to write to and
  keeps less than one frame of undecoded bytes; a proxy without a socket has no clients.
\<close>

definition uclient_ok :: "(u32 \<Rightarrow> string) \<Rightarrow> string \<Rightarrow> 's udp_client \<Rightarrow> bool" where
  "uclient_ok nm i c \<longleftrightarrow>
     client_key nm (uc_addr c) = i \<and> ss_write (uc_stream c) \<noteq> None \<and> length (uc_buf c) < 4 + kMaxDatagram"

definition uproxy_inv :: "(u32 \<Rightarrow> string) \<Rightarrow> 's udp_proxy \<Rightarrow> bool" where
  "uproxy_inv nm x \<longleftrightarrow>
     (\<forall>i c. ux_clients x i = Some c \<longrightarrow> uclient_ok nm i c) \<and> (\<not> ux_sock x \<longrightarrow> ux_clients x = Map.empty)"

lemma uproxy_inv_begin: "uproxy_begin x \<Longrightarrow> uproxy_inv nm x"
proof -
  assume "uproxy_begin x"
  then obtain st where "x = new_udp_proxy st" by (auto simp: uproxy_begin_def)
  then show ?thesis by (simp add: uproxy_inv_def new_udp_proxy_def)
qed

lemma uproxy_inv_emit [simp]: "uproxy_inv nm (uxemit a x) = uproxy_inv nm x"
  by (simp add: uproxy_inv_def uxemit_def)

lemma uproxy_inv_side [simp]: "uproxy_inv nm (x\<lparr>ux_side := st\<rparr>) = uproxy_inv nm x"
  by (simp add: uproxy_inv_def)

lemma uxemit_frame [simp]:
  "ux_clients (uxemit a x) = ux_clients x" "ux_sock (uxemit a x) = ux_sock x"
  "ux_side (uxemit a x) = ux_side x" "ux_acts (uxemit a x) = ux_acts x @ [a]" "ux_open (uxemit a x) = ux_open x"
  by (simp_all add: uxemit_def)

lemma uproxy_inv_erase: "uproxy_inv nm x \<Longrightarrow> uproxy_inv nm (x\<lparr>ux_clients := (ux_clients x)(i := None)\<rparr>)"
  by (auto simp: uproxy_inv_def)

lemma uproxy_inv_drop: "uproxy_inv nm x \<Longrightarrow> uproxy_inv nm (uproxy_drop i c x)"
  by (simp add: uproxy_drop_def Let_def uproxy_inv_erase)

lemma uproxy_close_frame [simp]:
  "\<not> ux_sock (uproxy_close x)" "ux_clients (uproxy_close x) = Map.empty"
  by (simp_all add: uproxy_close_def Let_def)

lemma uproxy_inv_close: "uproxy_inv nm (uproxy_close x)"
  by (simp add: uproxy_inv_def)

lemma uproxy_inv_listen:
  "uproxy_inv nm x \<Longrightarrow> \<not> ux_sock x \<Longrightarrow> uproxy_inv nm (fst (uproxy_listen e host port f x))"
proof -
  assume i: "uproxy_inv nm x" and n: "\<not> ux_sock x"
  then have c: "ux_clients x = Map.empty" by (simp add: uproxy_inv_def)
  have s: "uproxy_inv nm (x\<lparr>ux_sock := b, ux_open := g\<rparr>)" "uproxy_inv nm (x\<lparr>ux_sock := b\<rparr>)" for b g
    using c by (simp_all add: uproxy_inv_def)
  have b: "uproxy_inv nm (y\<lparr>ux_bound_port := p\<rparr>) = uproxy_inv nm y" for y p by (simp add: uproxy_inv_def)
  show ?thesis
    by (simp add: uproxy_listen_def Let_def s b uproxy_inv_close split: prod.split option.split)
qed

lemma uproxy_client_inv:
  assumes "uproxy_inv nm x" and "ux_sock x" and "uproxy_client nm a x = (y, r)"
  shows "uproxy_inv nm y \<and> (\<forall>c. r = Some c \<longrightarrow> ux_clients y (client_key nm a) = Some c)"
proof -
  have k: "(0 :: nat) < 4 + kMaxDatagram" by simp
  show ?thesis
    using assms k
    by (auto simp: uproxy_client_def Let_def uproxy_inv_def uclient_ok_def split: option.splits prod.splits if_splits)
qed

lemma uproxy_inv_write: "uproxy_inv nm x \<Longrightarrow> uproxy_inv nm (uproxy_write i c data x)"
  by (simp add: uproxy_write_def Let_def uproxy_inv_drop split: option.split prod.split)

lemma uproxy_inv_recv: "uproxy_inv nm x \<Longrightarrow> uproxy_inv nm (uproxy_recv_cb e nm nread buf addr partial x)"
proof -
  assume i: "uproxy_inv nm x"
  have "uproxy_inv nm y" if "ux_sock x" "uproxy_client nm a x = (y, r)" for a y r
    using uproxy_client_inv [OF i that] by simp
  then show ?thesis
    using i by (simp add: uproxy_recv_cb_def uproxy_inv_write split: option.split prod.split)
qed

lemma uproxy_inv_data: "uproxy_inv nm x \<Longrightarrow> uproxy_inv nm (uproxy_on_stream_data e i data x)"
proof (cases "\<not> ux_sock x \<or> data = [] \<or> ux_clients x i = None")
  case True
  assume "uproxy_inv nm x"
  then show ?thesis using True by (auto simp: uproxy_on_stream_data_def)
next
  case False
  assume inv: "uproxy_inv nm x"
  from False obtain c where c: "ux_clients x i = Some c" by auto
  obtain ok r ds where d: "decoder_push (uc_buf c) data = (ok, r, ds)" by (cases "decoder_push (uc_buf c) data")
  have b: "ok \<Longrightarrow> length r < 4 + kMaxDatagram"
    using deframe_bounds [of "uc_buf c @ data" ok r ds] d by (simp add: decoder_push_deframe)
  have ic: "uclient_ok nm i c" using inv c by (simp add: uproxy_inv_def)
  show ?thesis
  proof (cases ok)
    case True
    then show ?thesis
      using False inv c d b ic by (auto simp: uproxy_on_stream_data_def uproxy_inv_def uclient_ok_def)
  next
    case bad: False
    have "uproxy_inv nm (y\<lparr>ux_clients := (ux_clients x)(i := None), ux_side := st\<rparr>)"
      if "ux_sock y = ux_sock x" for y st
      using inv that by (auto simp: uproxy_inv_def)
    then show ?thesis
      using False c d bad by (simp add: uproxy_on_stream_data_def uproxy_drop_def Let_def)
  qed
qed

lemma uproxy_inv_step: "uproxy_inv nm x \<Longrightarrow> uproxy_enabled x ev \<Longrightarrow> uproxy_inv nm (uproxy_step nm x ev)"
  by (cases ev; cases "snd ev")
    (auto simp: uproxy_step_def uproxy_enabled_def uproxy_inv_listen uproxy_inv_recv uproxy_inv_data
      uproxy_inv_close uproxy_on_stream_close_def uproxy_inv_erase)

interpretation uproxy_machine: machine "uproxy_step nm" uproxy_enabled uproxy_begin "uproxy_inv nm"
  by unfold_locales (rule uproxy_inv_begin, assumption, rule uproxy_inv_step)

definition uproxy_reachable :: "(u32 \<Rightarrow> string) \<Rightarrow> 's udp_proxy \<Rightarrow> bool" where
  "uproxy_reachable nm = machine.reach (uproxy_step nm) uproxy_enabled uproxy_begin"

lemma uproxy_reachable_begin: "uproxy_begin x \<Longrightarrow> uproxy_reachable nm x"
  unfolding uproxy_reachable_def by (rule uproxy_machine.reach_start)

lemma uproxy_reachable_step:
  "uproxy_reachable nm x \<Longrightarrow> uproxy_enabled x ev \<Longrightarrow> uproxy_reachable nm (uproxy_step nm x ev)"
  unfolding uproxy_reachable_def by (rule uproxy_machine.reach_step)

lemma uproxy_reachable_inv: "uproxy_reachable nm x \<Longrightarrow> uproxy_inv nm x"
  unfolding uproxy_reachable_def by (rule uproxy_machine.reach_inv)

section \<open>The tunnel\<close>

text \<open>
  A stream that carries bytes in order: the shared state is what has been written so far.
\<close>

definition wire_side :: "byte list stream_side" where
  "wire_side = \<lparr>ss_write = Some (\<lambda>st bs _. (st @ bs, 0)), ss_pause = None, ss_resume = None, ss_close = None\<rparr>"

definition wire_open :: "byte list \<Rightarrow> string \<Rightarrow> byte list \<times> byte list stream_side" where
  "wire_open st i = (st, wire_side)"

definition uproxy_recv_all ::
  "udp_env \<Rightarrow> (u32 \<Rightarrow> string) \<Rightarrow> sockaddr_in \<Rightarrow> byte list list \<Rightarrow> 's udp_proxy \<Rightarrow> 's udp_proxy" where
  "uproxy_recv_all e nm a ds x =
     foldl (\<lambda>x d. uproxy_recv_cb e nm (int (length d)) d (Some a) False x) x ds"

definition wired :: "(u32 \<Rightarrow> string) \<Rightarrow> sockaddr_in \<Rightarrow> byte list udp_proxy \<Rightarrow> bool" where
  "wired nm a x \<longleftrightarrow> ux_sock x \<and>
     (case ux_clients x (client_key nm a) of
        None \<Rightarrow> ux_open x = Some wire_open
      | Some c \<Rightarrow> uc_stream c = wire_side)"

lemma wired_recv:
  assumes "wired nm a x"
  shows "wired nm a (uproxy_recv_cb e nm (int (length d)) d (Some a) False x)"
    and "ux_side (uproxy_recv_cb e nm (int (length d)) d (Some a) False x) = ux_side x @ frame d"
proof -
  have w: "ss_write wire_side = Some (\<lambda>st bs _. (st @ bs, 0))" by (simp add: wire_side_def)
  show "wired nm a (uproxy_recv_cb e nm (int (length d)) d (Some a) False x)"
    and "ux_side (uproxy_recv_cb e nm (int (length d)) d (Some a) False x) = ux_side x @ frame d"
    using assms
    by (auto simp: wired_def uproxy_recv_cb_def is_end_of_pass_def uproxy_client_def uproxy_write_def
        wire_open_def w Let_def split: option.splits)
qed

lemma wired_recv_all:
  "wired nm a x \<Longrightarrow> ux_side (uproxy_recv_all e nm a ds x) = ux_side x @ concat (map frame ds)"
  by (induction ds arbitrary: x) (simp_all add: uproxy_recv_all_def wired_recv)

section \<open>Properties\<close>

text \<open>
  C23: Clients of one UDP proxy do not see each other's traffic. In every reachable state, the
  bytes that arrive on the stream of the client at address \<open>a\<close> cause datagrams to \<open>a\<close> and to
  no other address, and leave the entries of all other clients as they are.
\<close>

theorem udp_proxy_isolation:
  assumes "uproxy_reachable nm x" and "ip4_name_law nm"
  defines "y \<equiv> \<lambda>a data e. uproxy_on_stream_data e (client_key nm a) data x"
  shows "(\<exists>ds. sends_of (ux_acts (y a data e)) = sends_of (ux_acts x) @ map (Pair a) ds) \<and>
    (\<forall>b. b \<noteq> a \<longrightarrow> ux_clients (y a data e) (client_key nm b) = ux_clients x (client_key nm b))"
proof -
  have inv: "uproxy_inv nm x" using assms(1) by (rule uproxy_reachable_inv)
  have addr: "uc_addr c = a" if "ux_clients x (client_key nm a) = Some c" for c
    using inv that client_key_inject [OF assms(2)] by (auto simp: uproxy_inv_def uclient_ok_def)
  show ?thesis
  proof (cases "\<not> ux_sock x \<or> data = [] \<or> ux_clients x (client_key nm a) = None")
    case True
    then have "y a data e = x" by (auto simp: y_def uproxy_on_stream_data_def)
    then show ?thesis by (auto intro: exI [of _ "[]"])
  next
    case False
    then obtain c where c: "ux_clients x (client_key nm a) = Some c" by auto
    obtain ok r ds where d: "decoder_push (uc_buf c) data = (ok, r, ds)"
      by (cases "decoder_push (uc_buf c) data")
    have "sends_of (ux_acts (y a data e)) = sends_of (ux_acts x) @ map (Pair a) ds"
      using False c d addr [OF c]
      by (simp add: y_def uproxy_on_stream_data_def uproxy_drop_def Let_def send_all_trace)
    moreover have "ux_clients (y a data e) (client_key nm b) = ux_clients x (client_key nm b)" if "b \<noteq> a" for b
      using False c d that client_key_inject [OF assms(2), of b a]
      by (simp add: y_def uproxy_on_stream_data_def uproxy_drop_def Let_def)
    ultimately show ?thesis by blast
  qed
qed

definition demo_proxy :: "byte list udp_proxy" where
  "demo_proxy = uproxy_step dotted_quad (new_udp_proxy []) (demo_udp_env, XListen ''127.0.0.1'' 0 (Some wire_open))"

lemma demo_proxy_reachable: "uproxy_reachable dotted_quad demo_proxy"
  unfolding demo_proxy_def
  by (intro uproxy_reachable_step uproxy_reachable_begin)
    (simp_all add: uproxy_begin_def new_udp_proxy_def uproxy_enabled_def)

lemma demo_proxy_state:
  "ux_sock demo_proxy" "ux_clients demo_proxy = Map.empty" "ux_open demo_proxy = Some wire_open"
  "ux_side demo_proxy = []" "sends_of (ux_acts demo_proxy) = []"
  by (simp_all add: demo_proxy_def new_udp_proxy_def uproxy_step_def uproxy_listen_def resolve_def
      resolve_ip4_def demo_udp_env_def loopback_resolver_def uv_codes Let_def)

definition demo_app :: sockaddr_in where
  "demo_app = \<lparr>sin_addr = 0x7F000001, sin_port = 5353\<rparr>"

theorem udp_proxy_isolation_witness:
  defines "x \<equiv> uproxy_step dotted_quad demo_proxy (demo_udp_env, XRecv 1 [9] (Some demo_app) False)"
  shows "uproxy_reachable dotted_quad x \<and> ux_clients x (client_key dotted_quad demo_app) \<noteq> None \<and>
    (\<exists>ds. sends_of (ux_acts (uproxy_on_stream_data demo_udp_env (client_key dotted_quad demo_app) [0] x)) =
       map (Pair demo_app) ds)"
proof -
  have r: "uproxy_reachable dotted_quad x"
    unfolding x_def by (intro uproxy_reachable_step demo_proxy_reachable) (simp add: uproxy_enabled_def)
  have x: "sends_of (ux_acts x) = []" "ux_clients x (client_key dotted_quad demo_app) \<noteq> None"
    by (simp_all add: x_def uproxy_step_def uproxy_recv_cb_def uproxy_client_def uproxy_write_def
        is_end_of_pass_def demo_proxy_state wire_open_def wire_side_def Let_def)
  show ?thesis
    using udp_proxy_isolation [OF r dotted_quad_law, where a = demo_app and data = "[0]" and e = demo_udp_env] r x by simp
qed

text \<open>
  A run of the proxy over a stream that takes every write, and of a pipe. The datagrams one local application sends to the proxy
  (zero-length ones included), written as frames to a stream that carries bytes in order and
  cut into chunks in any way, come out of the pipe at the other end as the same datagrams in
  the same order, sent to its local service, and the pipe stays up.
\<close>

lemma udp_wire_run:
  assumes "wired nm a x" and "ux_side x = []" and "\<forall>d \<in> set ds. length d \<le> kMaxDatagram"
    and "concat chunks = ux_side (uproxy_recv_all e nm a ds x)"
    and "\<not> u_destroyed p" and "u_sock p \<noteq> None" and "u_buf p = []"
  shows "sends_of (u_acts (udp_feed e' sd chunks p)) = sends_of (u_acts p) @ map (Pair (u_local p)) ds \<and>
    \<not> u_destroyed (udp_feed e' sd chunks p)"
proof -
  let ?cs = "filter (\<lambda>c. c \<noteq> []) chunks"
  have "concat ?cs = concat (map frame ds)"
    using assms(2,4) wired_recv_all [OF assms(1)] by (simp add: concat_filter_nonempty)
  from framing.feed_encs [OF _ this] have "feed decoder_push [] ?cs = (True, [], ds)"
    using assms(3) by (simp add: list_all_iff)
  then show ?thesis
    using udp_feed_feed [OF assms(5,6), where chunks = chunks and e = e' and sd = sd] assms(7) by simp
qed

lemma udp_wire_run_witness:
  "sends_of (u_acts (udp_feed demo_udp_env demo_side [[0, 0], [0, 1, 9, 0, 0, 0], [0]] demo_udp)) =
     [(\<lparr>sin_addr = 0x7F000001, sin_port = 53\<rparr>, [9]), (\<lparr>sin_addr = 0x7F000001, sin_port = 53\<rparr>, [])]"
proof -
  have w: "wired dotted_quad demo_app demo_proxy" by (simp add: wired_def demo_proxy_state)
  have b: "concat [[0, 0], [0, 1, 9, 0, 0, 0], [0]] =
      ux_side (uproxy_recv_all demo_udp_env dotted_quad demo_app [[9], []] demo_proxy)"
    by (simp add: wired_recv_all [OF w] demo_proxy_state frame_def frame_header_def)
  show ?thesis
    using udp_wire_run [OF w demo_proxy_state(4) _ b demo_udp_state(1)] demo_udp_state
    by (simp add: kMaxDatagram_def)
qed

end
