(* ===== verification/Hs_Server_Conn.thy ===== *)
theory Hs_Server_Conn
  imports Hs_Pipe Hs_Udp "HOL-Library.Multiset"
begin

text \<open>
  One inbound connection of the server: \<^verbatim>\<open>HolesailServer::Conn\<close>, the \<^verbatim>\<open>StreamSide\<close> that
  \<^verbatim>\<open>make_side\<close> builds over it, and the four stream callbacks (\<^verbatim>\<open>src/server.cpp\<close>). A
  \<^verbatim>\<open>Conn\<close> is the state that the closures of its stream side and its pipe share, so it is the
  \<open>side_st\<close> of the pipe it owns. The two shared references that keep it alive are the flags
  \<open>co_ref_a\<close> (the box held by the stream) and \<open>co_ref_b\<close> (the one in the pipe's destroy
  callback). hyperdht is a parameter: the status its write returns is in \<open>conn_env\<close>; it runs
  its callbacks from the loop, never inside one of our calls, and, as its documentation
  says, none of them after the close callback.
\<close>

section \<open>The connection\<close>

datatype scall = SWrite "byte list" int | SPause | SResume | SClose

record srv_conn =
  co_stream :: bool
  co_open :: bool
  co_pending :: "byte list"
  co_pending_drains :: "nat list"
  co_drains :: "nat list"
  co_ref_a :: bool
  co_ref_b :: bool
  co_calls :: "scall list"

definition new_srv_conn :: srv_conn where
  "new_srv_conn =
     \<lparr>co_stream = True, co_open = False, co_pending = [], co_pending_drains = [], co_drains = [],
      co_ref_a = True, co_ref_b = True, co_calls = []\<rparr>"

text \<open>The connection is freed when the later of its two references goes.\<close>

definition conn_alive :: "srv_conn \<Rightarrow> bool" where
  "conn_alive c \<longleftrightarrow> co_ref_a c \<or> co_ref_b c"

definition kMaxPendingBytes :: nat where "kMaxPendingBytes = 256 * 1024"

definition scalled :: "scall \<Rightarrow> srv_conn \<Rightarrow> srv_conn" where
  "scalled a c = c\<lparr>co_calls := co_calls c @ [a]\<rparr>"

text \<open>The \<^verbatim>\<open>write\<close> closure of \<^verbatim>\<open>make_side\<close>; \<open>rc\<close> is what hyperdht answers to its write.\<close>

definition side_write :: "int \<Rightarrow> srv_conn \<Rightarrow> byte list \<Rightarrow> nat option \<Rightarrow> srv_conn \<times> int" where
  "side_write rc c data on_drain =
     (if \<not> co_open c then
        (if kMaxPendingBytes < length (co_pending c) + length data then (c, 1)
         else (c\<lparr>co_pending := co_pending c @ data,
                 co_pending_drains := co_pending_drains c @ (case on_drain of None \<Rightarrow> [] | Some n \<Rightarrow> [n])\<rparr>, 1))
      else case on_drain of
        None \<Rightarrow> (scalled (SWrite data rc) c, rc)
      | Some n \<Rightarrow>
          let c = scalled (SWrite data rc) (c\<lparr>co_drains := n # co_drains c\<rparr>)
          in if rc < 0 then (c\<lparr>co_drains := remove1 n (co_drains c)\<rparr>, rc) else (c, rc))"

text \<open>\<^verbatim>\<open>make_side\<close>, with the \<^verbatim>\<open>on_destroy\<close> lambda the pipe gets: it drops reference B.\<close>

definition make_side :: "int \<Rightarrow> srv_conn pipe_side" where
  "make_side rc =
     \<lparr>ss_write = Some (side_write rc), ss_pause = Some (scalled SPause),
      ss_resume = Some (scalled SResume), ss_close = Some (scalled SClose),
      on_destroy_cb = (\<lambda>c. c\<lparr>co_ref_b := False\<rparr>)\<rparr>"

section \<open>The bridge and the stream callbacks\<close>

text \<open>What a connection owns: a TCP pipe or a UDP pipe. What libuv answers is in \<open>conn_env\<close>.\<close>

record conn_env =
  ce_write :: int
  ce_uv :: uv_env
  ce_udp :: udp_env

datatype bridge = TcpBridge "srv_conn tcp_sys" | UdpBridge "srv_conn udp_pipe"

definition map_conn :: "(srv_conn \<Rightarrow> srv_conn) \<Rightarrow> bridge \<Rightarrow> bridge" where
  "map_conn f b =
     (case b of
        TcpBridge s \<Rightarrow> TcpBridge (s\<lparr>sys_pipe := (sys_pipe s)\<lparr>side_st := f (side_st (sys_pipe s))\<rparr>\<rparr>)
      | UdpBridge p \<Rightarrow> UdpBridge (p\<lparr>u_side := f (u_side p)\<rparr>))"

definition conn_of :: "bridge \<Rightarrow> srv_conn" where
  "conn_of b = (case b of TcpBridge s \<Rightarrow> side_st (sys_pipe s) | UdpBridge p \<Rightarrow> u_side p)"

text \<open>The second half of \<^verbatim>\<open>connection_cb\<close>: the pipe is made, given its callbacks, and started.\<close>

definition accept_bridge :: "conn_env \<Rightarrow> bool \<Rightarrow> string \<Rightarrow> u16 \<Rightarrow> bridge" where
  "accept_bridge e udp host port =
     (if udp
      then UdpBridge (udp_step (make_side (ce_write e)) (new_udp_pipe True new_srv_conn)
             (ce_udp e, UEvStart host port))
      else TcpBridge (tcp_step (make_side (ce_write e))
             \<lparr>sys_pipe = new_pipe True new_srv_conn, wq = [], dq = [], conn_req = False\<rparr>
             (ce_uv e, EvConnect host port False)))"

text \<open>Firing one drain callback: the lambda belongs to a TCP pipe, UDP writes pass none.\<close>

definition fire_drain :: "conn_env \<Rightarrow> nat \<Rightarrow> bridge \<Rightarrow> bridge" where
  "fire_drain e n b =
     (case b of
        TcpBridge s \<Rightarrow> TcpBridge (tcp_step (make_side (ce_write e)) s (ce_uv e, EvDrained n))
      | UdpBridge p \<Rightarrow> b)"

definition stream_open_cb :: "conn_env \<Rightarrow> bridge \<Rightarrow> bridge" where
  "stream_open_cb e b =
     (let b = map_conn (\<lambda>c. c\<lparr>co_open := True\<rparr>) b;
          buffered = co_pending (conn_of b);
          rc = ce_write e;
          b = (if buffered = [] then b
               else map_conn (\<lambda>c. scalled (SWrite buffered rc) (c\<lparr>co_pending := []\<rparr>)) b)
      in if buffered \<noteq> [] \<and> rc < 0 then map_conn (\<lambda>c. c\<lparr>co_pending_drains := []\<rparr>) b
         else let drains = co_pending_drains (conn_of b);
                  b = map_conn (\<lambda>c. c\<lparr>co_pending_drains := []\<rparr>) b
              in fold (fire_drain e) drains b)"

definition stream_data_cb :: "conn_env \<Rightarrow> byte list \<Rightarrow> bridge \<Rightarrow> bridge" where
  "stream_data_cb e data b =
     (case b of
        TcpBridge s \<Rightarrow> TcpBridge (tcp_step (make_side (ce_write e)) s (ce_uv e, EvData data))
      | UdpBridge p \<Rightarrow> UdpBridge (udp_step (make_side (ce_write e)) p (ce_udp e, UEvData data)))"

text \<open>The box goes out of scope at the end: reference A.\<close>

definition stream_close_cb :: "conn_env \<Rightarrow> bridge \<Rightarrow> bridge" where
  "stream_close_cb e b =
     (let b = map_conn (\<lambda>c. c\<lparr>co_stream := False\<rparr>) b;
          b = (case b of
                 TcpBridge s \<Rightarrow> TcpBridge (tcp_step (make_side (ce_write e)) s (ce_uv e, EvStreamClose))
               | UdpBridge p \<Rightarrow> UdpBridge (udp_step (make_side (ce_write e)) p (ce_udp e, UEvStreamClose)))
      in map_conn (\<lambda>c. c\<lparr>co_ref_a := False\<rparr>) b)"

text \<open>A write of the pipe has been acknowledged; its context is deregistered first.\<close>

definition drain_cb :: "conn_env \<Rightarrow> nat \<Rightarrow> bridge \<Rightarrow> bridge" where
  "drain_cb e n b = fire_drain e n (map_conn (\<lambda>c. c\<lparr>co_drains := remove1 n (co_drains c)\<rparr>) b)"

definition bridge_destroy :: "conn_env \<Rightarrow> bridge \<Rightarrow> bridge" where
  "bridge_destroy e b =
     (case b of
        TcpBridge s \<Rightarrow> TcpBridge (tcp_step (make_side (ce_write e)) s (ce_uv e, EvDestroy))
      | UdpBridge p \<Rightarrow> UdpBridge (udp_step (make_side (ce_write e)) p (ce_udp e, UEvDestroy)))"

section \<open>The connection as a machine\<close>

datatype conn_event =
    ConnTcp tcp_event
  | ConnUdp udp_event
  | ConnOpen
  | ConnData "byte list"
  | ConnClose
  | ConnDrain nat
  | ConnDestroy

definition conn_step :: "bridge \<Rightarrow> conn_env \<times> conn_event \<Rightarrow> bridge" where
  "conn_step b ev =
     (let e = fst ev in
      case snd ev of
        ConnTcp v \<Rightarrow> (case b of TcpBridge s \<Rightarrow> TcpBridge (tcp_step (make_side (ce_write e)) s (ce_uv e, v))
                             | UdpBridge p \<Rightarrow> b)
      | ConnUdp v \<Rightarrow> (case b of UdpBridge p \<Rightarrow> UdpBridge (udp_step (make_side (ce_write e)) p (ce_udp e, v))
                             | TcpBridge s \<Rightarrow> b)
      | ConnOpen \<Rightarrow> stream_open_cb e b
      | ConnData data \<Rightarrow> stream_data_cb e data b
      | ConnClose \<Rightarrow> stream_close_cb e b
      | ConnDrain n \<Rightarrow> drain_cb e n b
      | ConnDestroy \<Rightarrow> bridge_destroy e b)"

text \<open>
  The callbacks of libuv on the pipe's handle: reads, write completions, the connect result
  and the close callback, with the conditions under which libuv runs them.
\<close>

definition loop_udp :: "udp_event \<Rightarrow> bool" where
  "loop_udp v \<longleftrightarrow> (case v of UEvRecv _ _ _ _ \<Rightarrow> True | UEvClosed \<Rightarrow> True | _ \<Rightarrow> False)"

text \<open>
  What can happen to a connection: libuv's callbacks on its pipe; hyperdht's callbacks while
  the stream is not closed, the open one once and a drain for a write it accepted; and the
  server's own teardown, which locks its weak pointer first.
\<close>

definition conn_enabled :: "bridge \<Rightarrow> conn_env \<times> conn_event \<Rightarrow> bool" where
  "conn_enabled b ev =
     (let e = fst ev; c = conn_of b in
      case snd ev of
        ConnTcp v \<Rightarrow> (case b of TcpBridge s \<Rightarrow> loop_tcp v \<and> tcp_enabled (make_side (ce_write e)) s (ce_uv e, v)
                             | UdpBridge p \<Rightarrow> False)
      | ConnUdp v \<Rightarrow> (case b of UdpBridge p \<Rightarrow> loop_udp v \<and> udp_enabled p (ce_udp e, v) | TcpBridge s \<Rightarrow> False)
      | ConnOpen \<Rightarrow> co_stream c \<and> \<not> co_open c
      | ConnData data \<Rightarrow> co_stream c
      | ConnClose \<Rightarrow> co_stream c
      | ConnDrain n \<Rightarrow> co_stream c \<and> n \<in> set (co_drains c)
      | ConnDestroy \<Rightarrow> conn_alive c)"

definition conn_begin :: "bridge \<Rightarrow> bool" where
  "conn_begin b \<longleftrightarrow> (\<exists>e udp host port. b = accept_bridge e udp host port)"

section \<open>Who owns a connection\<close>

text \<open>
  The part of a connection its pipe never touches, except for a write.
\<close>

definition conn_core :: "srv_conn \<Rightarrow> bool \<times> bool \<times> byte list \<times> nat list \<times> nat list \<times> bool" where
  "conn_core c = (co_stream c, co_open c, co_pending c, co_pending_drains c, co_drains c, co_ref_a c)"

text \<open>Reference B is held exactly until the pipe has run its destroy callback.\<close>

definition tcp_owned :: "srv_conn tcp_pipe \<Rightarrow> bool" where
  "tcp_owned p \<longleftrightarrow> (co_ref_b (side_st p) \<longleftrightarrow> has_on_destroy p) \<and>
     (has_on_destroy p \<or> ADestroyed \<in> set (acts p))"

lemma conn_core_scalled [simp]: "conn_core (scalled a c) = conn_core c" "co_ref_b (scalled a c) = co_ref_b c"
  by (simp_all add: conn_core_def scalled_def)

lemma make_side_sel [simp]:
  "ss_write (make_side rc) = Some (side_write rc)" "ss_pause (make_side rc) = Some (scalled SPause)"
  "ss_resume (make_side rc) = Some (scalled SResume)" "ss_close (make_side rc) = Some (scalled SClose)"
  "on_destroy_cb (make_side rc) c = c\<lparr>co_ref_b := False\<rparr>"
  by (simp_all add: make_side_def)

lemma tcp_owned_frame [simp]:
  "a \<noteq> ADestroyed \<Longrightarrow> tcp_owned (emit a p) = tcp_owned p"
  "tcp_owned (on_side (Some (scalled k)) p) = tcp_owned p"
  "tcp_owned (p\<lparr>pending_bytes := n\<rparr>) = tcp_owned p"
  "tcp_owned (p\<lparr>stream_pending_bytes := n\<rparr>) = tcp_owned p"
  "tcp_owned (p\<lparr>inflight_writes := i\<rparr>) = tcp_owned p"
  "tcp_owned (p\<lparr>reading := b\<rparr>) = tcp_owned p"
  "tcp_owned (p\<lparr>stream_paused := b\<rparr>) = tcp_owned p"
  "tcp_owned (p\<lparr>stream_closed := b\<rparr>) = tcp_owned p"
  "tcp_owned (p\<lparr>closing := b\<rparr>) = tcp_owned p"
  "tcp_owned (p\<lparr>destroyed := b\<rparr>) = tcp_owned p"
  "tcp_owned (p\<lparr>has_on_ready := b\<rparr>) = tcp_owned p"
  "tcp_owned (p\<lparr>tcp := h\<rparr>) = tcp_owned p"
  by (auto simp: tcp_owned_def emit_def on_side_def call_def)

definition side_core :: "srv_conn tcp_pipe \<Rightarrow> bool \<times> bool \<times> byte list \<times> nat list \<times> nat list \<times> bool" where
  "side_core p = conn_core (side_st p)"

lemma side_core_frame [simp]:
  "side_core (emit a p) = side_core p"
  "side_core (on_side (Some (scalled k)) p) = side_core p"
  "side_core (p\<lparr>pending_bytes := n\<rparr>) = side_core p"
  "side_core (p\<lparr>stream_pending_bytes := n\<rparr>) = side_core p"
  "side_core (p\<lparr>inflight_writes := i\<rparr>) = side_core p"
  "side_core (p\<lparr>reading := b\<rparr>) = side_core p"
  "side_core (p\<lparr>stream_paused := b\<rparr>) = side_core p"
  "side_core (p\<lparr>stream_closed := b\<rparr>) = side_core p"
  "side_core (p\<lparr>closing := b\<rparr>) = side_core p"
  "side_core (p\<lparr>destroyed := b\<rparr>) = side_core p"
  "side_core (p\<lparr>has_on_ready := b\<rparr>) = side_core p"
  "side_core (p\<lparr>tcp := h\<rparr>) = side_core p"
  by (simp_all add: side_core_def emit_def on_side_def call_def)

lemma owned_reading [simp]:
  "tcp_owned (start_reading e p) = tcp_owned p" "tcp_owned (stop_reading p) = tcp_owned p"
  "tcp_owned (resume_reading e p) = tcp_owned p" "tcp_owned (call_on_ready st p) = tcp_owned p"
  "side_core (start_reading e p) = side_core p" "side_core (stop_reading p) = side_core p"
  "side_core (resume_reading e p) = side_core p" "side_core (call_on_ready st p) = side_core p"
  by (simp_all add: start_reading_def stop_reading_def resume_reading_def call_on_ready_def Let_def)

lemma owned_fire [simp]:
  "side_core (fire_on_destroy (make_side rc) p) = side_core p"
  "tcp_owned p \<Longrightarrow> tcp_owned (fire_on_destroy (make_side rc) p)"
  by (auto simp: fire_on_destroy_def side_core_def conn_core_def tcp_owned_def emit_def on_side_def call_def)

lemma owned_destroy [simp]:
  "side_core (tcp_destroy (make_side rc) p) = side_core p"
  "tcp_owned p \<Longrightarrow> tcp_owned (tcp_destroy (make_side rc) p)"
  by (simp_all add: tcp_destroy_def Let_def)

lemma owned_events [simp]:
  "side_core (closed_cb (make_side rc) p) = side_core p"
  "tcp_owned p \<Longrightarrow> tcp_owned (closed_cb (make_side rc) p)"
  "side_core (tcp_connect_cb e (make_side rc) status p) = side_core p"
  "tcp_owned p \<Longrightarrow> tcp_owned (tcp_connect_cb e (make_side rc) status p)"
  "side_core (tcp_on_stream_data e (make_side rc) data p) = side_core p"
  "tcp_owned p \<Longrightarrow> tcp_owned (tcp_on_stream_data e (make_side rc) data p)"
  "side_core (write_cb (make_side rc) n status p) = side_core p"
  "tcp_owned p \<Longrightarrow> tcp_owned (write_cb (make_side rc) n status p)"
  "side_core (drained e n p) = side_core p"
  "tcp_owned p \<Longrightarrow> tcp_owned (drained e n p)"
  "side_core (tcp_on_stream_close (make_side rc) p) = side_core p"
  "tcp_owned p \<Longrightarrow> tcp_owned (tcp_on_stream_close (make_side rc) p)"
  "side_core (fst (tcp_connect e (make_side rc) h pt b p)) = side_core p"
  "tcp_owned p \<Longrightarrow> tcp_owned (fst (tcp_connect e (make_side rc) h pt b p))"
  by (simp_all add: closed_cb_def tcp_connect_cb_def tcp_on_stream_data_def write_cb_def flush_finished_def
      drained_def tcp_on_stream_close_def tcp_connect_def Let_def split: prod.split)

text \<open>A read is the one event that writes to the connection.\<close>

lemma owned_read:
  assumes "tcp_owned p"
  shows "tcp_owned (read_cb e (make_side rc) nread buf p)"
    and "write_accepted (make_side rc) nread buf p \<Longrightarrow>
      side_core (read_cb e (make_side rc) nread buf p) =
        conn_core (fst (side_write rc (side_st p) (take (nat nread) buf) (Some (nat nread))))"
    and "\<not> write_accepted (make_side rc) nread buf p \<Longrightarrow>
      side_core (read_cb e (make_side rc) nread buf p) = side_core p"
proof -
  obtain st r where w: "side_write rc (side_st p) (take (nat nread) buf) (Some (nat nread)) = (st, r)"
    by (cases "side_write rc (side_st p) (take (nat nread) buf) (Some (nat nread))")
  then have b: "co_ref_b st = co_ref_b (side_st p)"
    by (auto simp: side_write_def scalled_def Let_def split: if_splits)
  then have o: "tcp_owned (p\<lparr>stream_pending_bytes := n, side_st := st\<rparr>)" "tcp_owned (p\<lparr>side_st := st\<rparr>)" for n
    using assms by (simp_all add: tcp_owned_def)
  have f: "r < 0 \<Longrightarrow> conn_core st = conn_core (side_st p)"
    using w by (auto simp: side_write_def conn_core_def scalled_def Let_def split: if_splits)
  show "tcp_owned (read_cb e (make_side rc) nread buf p)"
    using assms o by (simp add: read_cb_def Let_def w)
  have s: "side_core (p\<lparr>stream_pending_bytes := n, side_st := st\<rparr>) = conn_core st"
    "side_core (p\<lparr>side_st := st\<rparr>) = conn_core st" for n
    by (simp_all add: side_core_def)
  show "write_accepted (make_side rc) nread buf p \<Longrightarrow> side_core (read_cb e (make_side rc) nread buf p) =
      conn_core (fst (side_write rc (side_st p) (take (nat nread) buf) (Some (nat nread))))"
    by (simp add: write_accepted_def read_cb_def Let_def w s)
  show "\<not> write_accepted (make_side rc) nread buf p \<Longrightarrow>
      side_core (read_cb e (make_side rc) nread buf p) = side_core p"
    using f by (auto simp: write_accepted_def read_cb_def Let_def w s) (simp_all add: side_core_def)
qed

section \<open>Invariant\<close>

text \<open>
  Of the connection: the box is out exactly while the stream is; the greeting buffer fits its
  cap and is empty once the stream is open, as are the withheld drains; before that no write
  has been registered for an acknowledgement.
\<close>

definition conn_ok :: "srv_conn \<Rightarrow> bool" where
  "conn_ok c \<longleftrightarrow>
     (co_ref_a c \<longleftrightarrow> co_stream c) \<and> length (co_pending c) \<le> kMaxPendingBytes \<and>
     (co_open c \<longrightarrow> co_pending c = [] \<and> co_pending_drains c = []) \<and>
     (\<not> co_open c \<longrightarrow> co_drains c = [])"

text \<open>
  With its TCP pipe: the pipe's invariant, reference B, and every drain callback the
  connection holds is one the pipe still waits for.
\<close>

definition tcp_bridge_inv :: "srv_conn tcp_sys \<Rightarrow> bool" where
  "tcp_bridge_inv s \<longleftrightarrow>
     (let c = side_st (sys_pipe s) in
      tcp_inv s \<and> conn_ok c \<and> tcp_owned (sys_pipe s) \<and>
      mset (co_pending_drains c) + mset (co_drains c) \<subseteq># mset (dq s))"

definition udp_owned :: "srv_conn udp_pipe \<Rightarrow> bool" where
  "udp_owned p \<longleftrightarrow> (co_ref_b (u_side p) \<longleftrightarrow> u_has_on_destroy p) \<and>
     (u_has_on_destroy p \<or> u_destroyed p \<and> u_sock p = None)"

definition conn_inv :: "bridge \<Rightarrow> bool" where
  "conn_inv b \<longleftrightarrow>
     (case b of
        TcpBridge s \<Rightarrow> tcp_bridge_inv s
      | UdpBridge p \<Rightarrow> udp_inv p \<and> conn_ok (u_side p) \<and> udp_owned p \<and>
          co_drains (u_side p) = [] \<and> co_pending_drains (u_side p) = [])"

lemma conn_ok_core: "conn_ok c \<Longrightarrow> conn_core c' = conn_core c \<Longrightarrow> conn_ok c'"
  by (simp add: conn_core_def conn_ok_def)

lemma tcp_inv_side [simp]:
  "tcp_inv (s\<lparr>sys_pipe := (sys_pipe s)\<lparr>side_st := st\<rparr>\<rparr>) = tcp_inv s"
  by (simp add: tcp_inv_def tcp_inv_defs tcp_quiet_def)

lemma side_write_ok:
  "conn_ok c \<Longrightarrow> conn_ok (fst (side_write rc c data d))"
  by (auto simp: side_write_def conn_ok_def scalled_def Let_def split: option.splits)

lemma side_write_drains:
  "snd (side_write rc c data (Some n)) \<ge> 0 \<Longrightarrow>
   mset (co_pending_drains (fst (side_write rc c data (Some n)))) +
   mset (co_drains (fst (side_write rc c data (Some n)))) \<subseteq>#
   add_mset n (mset (co_pending_drains c) + mset (co_drains c))"
  by (auto simp: side_write_def scalled_def Let_def)

text \<open>
  An event other than a read or a drain keeps the connection and the list of drains awaited.
\<close>

lemma tcp_bridge_keep:
  assumes inv: "tcp_bridge_inv s" and en: "tcp_enabled (make_side rc) s (e, v)"
    and keep: "dq (tcp_step (make_side rc) s (e, v)) = dq s"
    and core: "side_core (sys_pipe (tcp_step (make_side rc) s (e, v))) = side_core (sys_pipe s)"
    and own: "tcp_owned (sys_pipe (tcp_step (make_side rc) s (e, v)))"
  shows "tcp_bridge_inv (tcp_step (make_side rc) s (e, v))"
proof -
  let ?t = "tcp_step (make_side rc) s (e, v)"
  have "tcp_inv ?t" using inv en by (intro tcp_inv_step) (simp_all add: tcp_bridge_inv_def Let_def)
  moreover have "conn_ok (side_st (sys_pipe s))" using inv by (simp add: tcp_bridge_inv_def Let_def)
  then have "conn_ok (side_st (sys_pipe ?t))"
    by (rule conn_ok_core) (use core in \<open>simp add: side_core_def\<close>)
  moreover have "co_pending_drains (side_st (sys_pipe ?t)) = co_pending_drains (side_st (sys_pipe s))"
    "co_drains (side_st (sys_pipe ?t)) = co_drains (side_st (sys_pipe s))"
    using core by (simp_all add: side_core_def conn_core_def)
  ultimately show ?thesis using inv own keep by (simp add: tcp_bridge_inv_def Let_def)
qed

lemma tcp_bridge_read:
  assumes inv: "tcp_bridge_inv s" and en: "tcp_enabled (make_side rc) s (e, EvRead nread buf)"
  shows "tcp_bridge_inv (tcp_step (make_side rc) s (e, EvRead nread buf))"
proof (cases "write_accepted (make_side rc) nread buf (sys_pipe s)")
  case False
  have own: "tcp_owned (sys_pipe s)" using inv by (simp add: tcp_bridge_inv_def Let_def)
  show ?thesis
    by (rule tcp_bridge_keep [OF inv en])
      (use False owned_read [OF own] in \<open>simp_all add: tcp_step_def Let_def\<close>)
next
  case True
  let ?p = "sys_pipe s" and ?n = "nat nread"
  let ?t = "tcp_step (make_side rc) s (e, EvRead nread buf)"
  let ?w = "side_write rc (side_st ?p) (take ?n buf) (Some ?n)"
  have own: "tcp_owned ?p" and ok: "conn_ok (side_st ?p)"
    and sub: "mset (co_pending_drains (side_st ?p)) + mset (co_drains (side_st ?p)) \<subseteq># mset (dq s)"
    using inv by (simp_all add: tcp_bridge_inv_def Let_def)
  have i: "tcp_inv ?t" using inv en by (intro tcp_inv_step) (simp_all add: tcp_bridge_inv_def Let_def)
  have t: "sys_pipe ?t = read_cb e (make_side rc) nread buf ?p" "dq ?t = dq s @ [?n]"
    using True by (simp_all add: tcp_step_def Let_def)
  have core: "conn_core (side_st (sys_pipe ?t)) = conn_core (fst ?w)"
    using owned_read(2) [OF own True] by (simp add: t side_core_def)
  have "0 \<le> snd ?w" using True by (simp add: write_accepted_def)
  from side_write_drains [OF this] have
    "mset (co_pending_drains (side_st (sys_pipe ?t))) + mset (co_drains (side_st (sys_pipe ?t)))
       \<subseteq># add_mset ?n (mset (co_pending_drains (side_st ?p)) + mset (co_drains (side_st ?p)))"
    using core by (simp add: conn_core_def)
  also have "\<dots> \<subseteq># add_mset ?n (mset (dq s))" using sub by simp
  finally have "mset (co_pending_drains (side_st (sys_pipe ?t))) + mset (co_drains (side_st (sys_pipe ?t)))
      \<subseteq># mset (dq ?t)" by (simp add: t)
  moreover have "conn_ok (side_st (sys_pipe ?t))" by (rule conn_ok_core [OF side_write_ok [OF ok] core])
  moreover have "tcp_owned (sys_pipe ?t)" using owned_read(1) [OF own] by (simp add: t)
  ultimately show ?thesis using i by (simp add: tcp_bridge_inv_def Let_def)
qed

lemma tcp_bridge_loop:
  assumes inv: "tcp_bridge_inv s" and en: "tcp_enabled (make_side rc) s (e, v)"
    and v: "\<forall>n. v \<noteq> EvDrained n" "v \<noteq> EvAdopt"
  shows "tcp_bridge_inv (tcp_step (make_side rc) s (e, v))"
proof -
  have own: "tcp_owned (sys_pipe s)" using inv by (simp add: tcp_bridge_inv_def Let_def)
  note keep = tcp_bridge_keep [OF inv en]
  show ?thesis
  proof (cases v)
    case (EvConnect h pt b)
    obtain p' r where c: "tcp_connect e (make_side rc) h pt b (sys_pipe s) = (p', r)"
      by (cases "tcp_connect e (make_side rc) h pt b (sys_pipe s)")
    then have "side_core p' = side_core (sys_pipe s)" "tcp_owned p'"
      using owned_events(13) [of e rc h pt b "sys_pipe s"] owned_events(14) [OF own, of e rc h pt b] by simp_all
    then show ?thesis using EvConnect c by (intro keep) (simp_all add: tcp_step_def)
  next
    case (EvRead n buf)
    then show ?thesis using tcp_bridge_read [OF inv] en by simp
  qed ((use v in \<open>simp; fail\<close>) | (rule keep; simp add: tcp_step_def Let_def own))+
qed

lemma tcp_bridge_drained:
  assumes inv: "tcp_inv s" "conn_ok (side_st (sys_pipe s))" "tcp_owned (sys_pipe s)"
    and sub: "add_mset n (mset (co_pending_drains (side_st (sys_pipe s))) + mset (co_drains (side_st (sys_pipe s))))
       \<subseteq># mset (dq s)"
  shows "tcp_bridge_inv (tcp_step (make_side rc) s (e, EvDrained n))"
    and "side_core (sys_pipe (tcp_step (make_side rc) s (e, EvDrained n))) = side_core (sys_pipe s)"
    and "mset (dq (tcp_step (make_side rc) s (e, EvDrained n))) = mset (dq s) - {#n#}"
proof -
  let ?t = "tcp_step (make_side rc) s (e, EvDrained n)"
  have n: "n \<in> set (dq s)" using mset_subset_eqD [OF sub, of n] by simp
  have i: "tcp_inv ?t" using inv(1) n by (intro tcp_inv_step) (simp_all add: tcp_enabled_def)
  show core: "side_core (sys_pipe ?t) = side_core (sys_pipe s)" by (simp add: tcp_step_def Let_def)
  show d: "mset (dq ?t) = mset (dq s) - {#n#}" by (simp add: tcp_step_def Let_def)
  have "conn_ok (side_st (sys_pipe ?t))"
    by (rule conn_ok_core [OF inv(2)]) (use core in \<open>simp add: side_core_def\<close>)
  moreover have "mset (co_pending_drains (side_st (sys_pipe ?t))) + mset (co_drains (side_st (sys_pipe ?t)))
      \<subseteq># mset (dq ?t)"
    using sub core unfolding d
    by (simp add: side_core_def conn_core_def) (metis insert_subset_eq_iff)
  moreover have "tcp_owned (sys_pipe ?t)" using inv(3) by (simp add: tcp_step_def Let_def)
  ultimately show "tcp_bridge_inv ?t" using i by (simp add: tcp_bridge_inv_def Let_def)
qed

section \<open>The stream callbacks keep the invariant\<close>

lemma fire_drain_Tcp:
  "fire_drain e n (TcpBridge s) = TcpBridge (tcp_step (make_side (ce_write e)) s (ce_uv e, EvDrained n))"
  by (simp add: fire_drain_def)

lemma fold_drains:
  assumes "tcp_inv s" and "conn_ok (side_st (sys_pipe s))" and "tcp_owned (sys_pipe s)"
    and "mset ns + (mset (co_pending_drains (side_st (sys_pipe s))) + mset (co_drains (side_st (sys_pipe s))))
       \<subseteq># mset (dq s)"
  shows "conn_inv (fold (fire_drain e) ns (TcpBridge s))"
  using assms
proof (induction ns arbitrary: s)
  case Nil
  then show ?case by (simp add: conn_inv_def tcp_bridge_inv_def Let_def)
next
  case (Cons n ns)
  let ?c = "side_st (sys_pipe s)"
  let ?M = "mset (co_pending_drains ?c) + mset (co_drains ?c)"
  let ?t = "tcp_step (make_side (ce_write e)) s (ce_uv e, EvDrained n)"
  have all: "add_mset n (mset ns + ?M) \<subseteq># mset (dq s)" using Cons.prems(4) by simp
  have "add_mset n ?M \<subseteq># add_mset n (mset ns + ?M)" by simp
  then have sub: "add_mset n ?M \<subseteq># mset (dq s)" using all by (rule subset_mset.order_trans)
  note d = tcp_bridge_drained [OF Cons.prems(1-3) sub, of "ce_write e" "ce_uv e"]
  have "mset (co_pending_drains (side_st (sys_pipe ?t))) + mset (co_drains (side_st (sys_pipe ?t))) = ?M"
    using d(2) by (simp add: side_core_def conn_core_def)
  moreover have "mset ns + ?M \<subseteq># mset (dq s) - {#n#}" using all by (metis insert_subset_eq_iff)
  ultimately have "conn_inv (fold (fire_drain e) ns (TcpBridge ?t))"
    using d by (intro Cons.IH) (simp_all add: tcp_bridge_inv_def Let_def)
  then show ?case by (simp add: fire_drain_Tcp)
qed

lemma fold_drains_udp: "fold (fire_drain e) ns (UdpBridge p) = UdpBridge p"
  by (induction ns) (simp_all add: fire_drain_def)

lemma tcp_owned_side: "co_ref_b st = co_ref_b (side_st p) \<Longrightarrow> tcp_owned (p\<lparr>side_st := st\<rparr>) = tcp_owned p"
  by (simp add: tcp_owned_def)

lemma udp_inv_side [simp]: "udp_inv (p\<lparr>u_side := st\<rparr>) = udp_inv p"
  by (simp add: udp_inv_def udp_sound_def)

lemma conn_inv_open:
  assumes inv: "conn_inv b" and no: "\<not> co_open (conn_of b)"
  shows "conn_inv (stream_open_cb e b)"
proof (cases b)
  case (TcpBridge s)
  let ?c = "side_st (sys_pipe s)"
  have i: "tcp_inv s" "conn_ok ?c" "tcp_owned (sys_pipe s)" "co_drains ?c = []"
    and sub: "mset (co_pending_drains ?c) \<subseteq># mset (dq s)"
    using inv no TcpBridge by (auto simp: conn_inv_def tcp_bridge_inv_def conn_of_def conn_ok_def Let_def)
  let ?open = "\<lambda>c. c\<lparr>co_open := True\<rparr>"
  let ?flush = "\<lambda>c. scalled (SWrite (co_pending ?c) (ce_write e)) (c\<lparr>co_pending := []\<rparr>)"
  let ?clear = "\<lambda>c. c\<lparr>co_pending_drains := []\<rparr>"
  let ?s = "\<lambda>st. s\<lparr>sys_pipe := (sys_pipe s)\<lparr>side_st := st\<rparr>\<rparr>"
  let ?st = "if co_pending ?c = [] then ?clear (?open ?c) else ?clear (?flush (?open ?c))"
  have st: "conn_ok ?st" "co_pending_drains ?st = []" "co_drains ?st = []" "co_ref_b ?st = co_ref_b ?c"
    using i by (auto simp: conn_ok_def scalled_def)
  have t: "tcp_inv (?s ?st)" "tcp_owned (sys_pipe (?s ?st))"
    using i st(4) by (auto simp: tcp_owned_side)
  have r: "stream_open_cb e b =
      (if co_pending ?c \<noteq> [] \<and> ce_write e < 0 then TcpBridge (?s ?st)
       else fold (fire_drain e) (co_pending_drains ?c) (TcpBridge (?s ?st)))"
    by (simp add: stream_open_cb_def TcpBridge map_conn_def conn_of_def scalled_def Let_def)
  have "conn_inv (fold (fire_drain e) ns (TcpBridge (?s ?st)))" if "mset ns \<subseteq># mset (dq s)" for ns
    using t st that by (intro fold_drains) auto
  from this [OF sub] this [of "[]"] show ?thesis
    unfolding r by (simp only: fold.simps id_apply mset.simps subset_mset.zero_le split: if_split) simp
next
  case (UdpBridge p)
  then show ?thesis
    using inv no
    by (auto simp: conn_inv_def stream_open_cb_def map_conn_def conn_of_def conn_ok_def udp_owned_def
        scalled_def fold_drains_udp Let_def)
qed

text \<open>The UDP pipe: its events keep the connection but for the bytes a datagram writes.\<close>

lemma udp_owned_frame [simp]:
  "udp_owned (uemit a p) = udp_owned p"
  "udp_owned (p\<lparr>u_local := x\<rparr>) = udp_owned p" "udp_owned (p\<lparr>u_buf := y\<rparr>) = udp_owned p"
  "udp_owned (p\<lparr>u_acts := z\<rparr>) = udp_owned p"
  by (simp_all add: udp_owned_def uemit_def)

definition udp_conn_ok :: "srv_conn udp_pipe \<Rightarrow> bool" where
  "udp_conn_ok p \<longleftrightarrow> conn_ok (u_side p) \<and> co_drains (u_side p) = [] \<and> co_pending_drains (u_side p) = []"

lemma udp_conn_ok_core:
  "udp_conn_ok p \<Longrightarrow> conn_core (u_side q) = conn_core (u_side p) \<Longrightarrow> udp_conn_ok q"
  by (auto simp: udp_conn_ok_def conn_core_def conn_ok_def)

lemma udp_destroy_core: "conn_core (u_side (udp_destroy (make_side rc) p)) = conn_core (u_side p)"
  by (simp add: udp_destroy_def udp_fire_def uemit_def call_def Let_def conn_core_def scalled_def)

lemma udp_conn_destroy [simp]:
  "udp_conn_ok p \<Longrightarrow> udp_conn_ok (udp_destroy (make_side rc) p)"
  by (erule udp_conn_ok_core) (rule udp_destroy_core)

definition udp_unclosed :: "'s udp_pipe \<Rightarrow> bool" where
  "udp_unclosed p \<longleftrightarrow> (u_sock p = Some Closing \<longrightarrow> u_destroyed p)"

lemma udp_unclosed_frame [simp]:
  "udp_unclosed (uemit a p) = udp_unclosed p" "udp_unclosed (p\<lparr>u_buf := y\<rparr>) = udp_unclosed p"
  "udp_unclosed (p\<lparr>u_acts := z\<rparr>) = udp_unclosed p" "udp_unclosed (p\<lparr>u_side := st\<rparr>) = udp_unclosed p"
  "udp_unclosed (p\<lparr>u_sock := Some Open\<rparr>)" "udp_unclosed (p\<lparr>u_sock := None\<rparr>)"
  by (simp_all add: udp_unclosed_def)

lemma udp_unclosed_open: "u_sock p = Some Open \<Longrightarrow> udp_unclosed p" "u_sock p = None \<Longrightarrow> udp_unclosed p"
  by (simp_all add: udp_unclosed_def)

lemma udp_inv_unclosed: "udp_inv p \<Longrightarrow> udp_unclosed p"
  by (simp add: udp_inv_def udp_sound_def udp_unclosed_def)

lemma udp_owned_destroy [simp]:
  "udp_owned p \<Longrightarrow> udp_unclosed p \<Longrightarrow> udp_owned (udp_destroy (make_side rc) p)"
  by (cases "u_sock p"; cases "the (u_sock p)")
    (auto simp: udp_owned_def udp_unclosed_def udp_destroy_def udp_fire_def uemit_def call_def Let_def scalled_def)

lemma udp_conn_frame [simp]:
  "udp_conn_ok (uemit a p) = udp_conn_ok p"
  "udp_conn_ok (p\<lparr>u_local := x\<rparr>) = udp_conn_ok p" "udp_conn_ok (p\<lparr>u_buf := y\<rparr>) = udp_conn_ok p"
  "udp_conn_ok (p\<lparr>u_acts := z\<rparr>) = udp_conn_ok p" "udp_conn_ok (p\<lparr>u_sock := h\<rparr>) = udp_conn_ok p"
  by (simp_all add: udp_conn_ok_def uemit_def)

lemma udp_bridge_recv:
  assumes "udp_owned p" and "udp_conn_ok p" and "u_sock p = Some Open"
  shows "udp_owned (udp_recv_cb e (make_side rc) n buf a partial p) \<and>
    udp_conn_ok (udp_recv_cb e (make_side rc) n buf a partial p)"
proof -
  obtain st r where w: "side_write rc (u_side p) (frame (take (nat n) buf)) None = (st, r)"
    by (cases "side_write rc (u_side p) (frame (take (nat n) buf)) None")
  then have "conn_ok st"
    using assms(2) side_write_ok [of "u_side p" rc "frame (take (nat n) buf)" None]
    by (simp add: udp_conn_ok_def)
  moreover have "co_drains st = [] \<and> co_pending_drains st = [] \<and> co_ref_b st = co_ref_b (u_side p)"
    using w assms(2) by (auto simp: side_write_def udp_conn_ok_def scalled_def split: if_splits)
  ultimately have "udp_owned (p\<lparr>u_side := st\<rparr>)" "udp_conn_ok (p\<lparr>u_side := st\<rparr>)"
    using assms by (simp_all add: udp_owned_def udp_conn_ok_def)
  then show ?thesis
    using assms udp_unclosed_open(1) [OF assms(3)] by (simp add: udp_recv_cb_def Let_def w)
qed

lemma udp_bridge_step:
  assumes inv: "udp_inv p" "udp_owned p" "udp_conn_ok p" and en: "udp_enabled p (e, v)"
  shows "udp_owned (udp_step (make_side rc) p (e, v)) \<and> udp_conn_ok (udp_step (make_side rc) p (e, v))"
proof -
  have c: "udp_unclosed p" using inv(1) by (rule udp_inv_unclosed)
  show ?thesis
  proof (cases v)
    case (UEvStart h pt)
    have s: "u_sock p = None" using en UEvStart by (simp add: udp_enabled_def)
    have b: "udp_owned (p\<lparr>u_local := l, u_sock := Some Open\<rparr>)" "udp_owned (p\<lparr>u_local := l, u_sock := None\<rparr>)"
      if "\<not> u_destroyed p" for l using inv(2) that by (simp_all add: udp_owned_def)
    show ?thesis
      using UEvStart inv b s by (simp add: udp_step_def udp_start_def Let_def split: prod.split)
  next
    case (UEvRecv n buf a partial)
    then show ?thesis using en inv udp_bridge_recv by (simp add: udp_step_def udp_enabled_def)
  next
    case (UEvData data)
    then show ?thesis using inv c by (simp add: udp_step_def udp_on_stream_data_def Let_def split: prod.split)
  next
    case UEvStreamClose
    then show ?thesis using inv c by (simp add: udp_step_def udp_on_stream_close_def)
  next
    case UEvDestroy
    then show ?thesis using inv c by (simp add: udp_step_def)
  next
    case UEvClosed
    then show ?thesis
      using inv en c unfolding udp_unclosed_def
      by (auto simp: udp_step_def udp_enabled_def udp_closed_cb_def udp_fire_def uemit_def udp_owned_def
          udp_conn_ok_def conn_ok_def Let_def)
  qed
qed

lemma conn_inv_udp:
  "conn_inv (UdpBridge p) \<longleftrightarrow> udp_inv p \<and> udp_owned p \<and> udp_conn_ok p"
  by (auto simp: conn_inv_def udp_conn_ok_def)

lemma conn_inv_udp_step:
  "conn_inv (UdpBridge p) \<Longrightarrow> udp_enabled p (e, v) \<Longrightarrow> conn_inv (UdpBridge (udp_step (make_side rc) p (e, v)))"
  by (simp add: conn_inv_udp udp_bridge_step udp_inv_step)

lemma conn_inv_begin: "conn_begin b \<Longrightarrow> conn_inv b"
proof -
  assume "conn_begin b"
  then obtain e udp host port where b: "b = accept_bridge e udp host port" by (auto simp: conn_begin_def)
  have c: "conn_ok new_srv_conn" by (simp add: conn_ok_def new_srv_conn_def)
  let ?s = "\<lparr>sys_pipe = new_pipe True new_srv_conn, wq = [], dq = [], conn_req = False\<rparr> :: srv_conn tcp_sys"
  have "tcp_inv ?s" by (rule tcp_inv_start) (simp add: tcp_start_def new_pipe_def)
  then have s: "tcp_bridge_inv ?s"
    using c by (simp add: tcp_bridge_inv_def tcp_owned_def new_pipe_def new_srv_conn_def)
  have "udp_inv (new_udp_pipe True new_srv_conn)"
    by (rule udp_inv_begin) (simp add: udp_begin_def new_udp_pipe_def)
  then have u: "conn_inv (UdpBridge (new_udp_pipe True new_srv_conn))"
    using c by (simp add: conn_inv_udp udp_owned_def udp_conn_ok_def new_udp_pipe_def new_srv_conn_def)
  have ue: "udp_enabled (new_udp_pipe True new_srv_conn) (ce_udp e, UEvStart host port)"
    by (simp add: udp_enabled_def new_udp_pipe_def)
  have te: "tcp_enabled (make_side (ce_write e)) ?s (ce_uv e, EvConnect host port False)"
    by (simp add: tcp_enabled_def new_pipe_def)
  show ?thesis
    using conn_inv_udp_step [OF u ue] tcp_bridge_loop [OF s te]
    by (simp add: b accept_bridge_def) (simp add: conn_inv_def)
qed

lemma conn_inv_tcp_step:
  "conn_inv (TcpBridge s) \<Longrightarrow> tcp_enabled (make_side rc) s (e, v) \<Longrightarrow> \<forall>n. v \<noteq> EvDrained n \<Longrightarrow> v \<noteq> EvAdopt \<Longrightarrow>
   conn_inv (TcpBridge (tcp_step (make_side rc) s (e, v)))"
  by (simp add: conn_inv_def tcp_bridge_loop)

lemma conn_inv_close:
  assumes inv: "conn_inv b"
  shows "conn_inv (stream_close_cb e b)"
proof (cases b)
  case (TcpBridge s)
  let ?c = "side_st (sys_pipe s)" and ?sd = "make_side (ce_write e)"
  let ?s = "s\<lparr>sys_pipe := (sys_pipe s)\<lparr>side_st := ?c\<lparr>co_stream := False\<rparr>\<rparr>\<rparr>"
  let ?t = "tcp_step ?sd ?s (ce_uv e, EvStreamClose)"
  have i: "tcp_inv s" "conn_ok ?c" "tcp_owned (sys_pipe s)"
    and sub: "mset (co_pending_drains ?c) + mset (co_drains ?c) \<subseteq># mset (dq s)"
    using inv TcpBridge by (simp_all add: conn_inv_def tcp_bridge_inv_def Let_def)
  have "tcp_inv ?s" using i(1) by simp
  then have t: "tcp_inv ?t" by (rule tcp_inv_step) (simp add: tcp_enabled_def)
  have core: "side_core (sys_pipe ?t) = conn_core (?c\<lparr>co_stream := False\<rparr>)"
    by (simp add: tcp_step_def Let_def) (simp add: side_core_def)
  have own: "tcp_owned (sys_pipe ?t)" using i(3) by (simp add: tcp_step_def Let_def tcp_owned_side)
  let ?c' = "side_st (sys_pipe ?t)"
  have d: "dq ?t = dq s" by (simp add: tcp_step_def Let_def)
  have "conn_ok (?c'\<lparr>co_ref_a := False\<rparr>)" "co_pending_drains ?c' = co_pending_drains ?c" "co_drains ?c' = co_drains ?c"
    using i(2) core by (auto simp: side_core_def conn_core_def conn_ok_def)
  then have "tcp_bridge_inv (?t\<lparr>sys_pipe := (sys_pipe ?t)\<lparr>side_st := ?c'\<lparr>co_ref_a := False\<rparr>\<rparr>\<rparr>)"
    using t own sub d by (simp add: tcp_bridge_inv_def Let_def tcp_owned_side)
  moreover have "stream_close_cb e b = TcpBridge (?t\<lparr>sys_pipe := (sys_pipe ?t)\<lparr>side_st := ?c'\<lparr>co_ref_a := False\<rparr>\<rparr>\<rparr>)"
    by (simp add: stream_close_cb_def TcpBridge map_conn_def Let_def)
  ultimately show ?thesis by (simp add: conn_inv_def)
next
  case (UdpBridge p)
  let ?sd = "make_side (ce_write e)"
  let ?p = "p\<lparr>u_side := (u_side p)\<lparr>co_stream := False\<rparr>\<rparr>"
  let ?q = "udp_step ?sd ?p (ce_udp e, UEvStreamClose)"
  have i: "udp_inv p" "udp_owned p" "udp_conn_ok p" using inv UdpBridge by (simp_all add: conn_inv_udp)
  then have o: "udp_owned ?p" "udp_unclosed ?p"
    using udp_inv_unclosed [OF i(1)] by (simp_all add: udp_owned_def)
  have q: "udp_inv ?q" using i(1) by (intro udp_inv_step) (simp_all add: udp_enabled_def)
  have "udp_owned ?q" using o by (simp add: udp_step_def udp_on_stream_close_def)
  moreover have "conn_core (u_side ?q) = conn_core ((u_side p)\<lparr>co_stream := False\<rparr>)"
    by (simp add: udp_step_def udp_on_stream_close_def udp_destroy_core) (simp add: uemit_def)
  ultimately have "conn_inv (UdpBridge (?q\<lparr>u_side := (u_side ?q)\<lparr>co_ref_a := False\<rparr>\<rparr>))"
    using q i(3) by (auto simp: conn_inv_udp udp_owned_def udp_conn_ok_def conn_core_def conn_ok_def)
  then show ?thesis by (simp add: stream_close_cb_def UdpBridge map_conn_def Let_def)
qed

lemma conn_inv_drain:
  assumes inv: "conn_inv b" and n: "n \<in> set (co_drains (conn_of b))"
  shows "conn_inv (drain_cb e n b)"
proof (cases b)
  case (TcpBridge s)
  let ?c = "side_st (sys_pipe s)"
  let ?s = "s\<lparr>sys_pipe := (sys_pipe s)\<lparr>side_st := ?c\<lparr>co_drains := remove1 n (co_drains ?c)\<rparr>\<rparr>\<rparr>"
  have i: "tcp_inv s" "conn_ok ?c" "tcp_owned (sys_pipe s)"
    and sub: "mset (co_pending_drains ?c) + mset (co_drains ?c) \<subseteq># mset (dq s)"
    using inv TcpBridge by (simp_all add: conn_inv_def tcp_bridge_inv_def Let_def)
  have n: "n \<in># mset (co_drains ?c)" using n TcpBridge by (simp add: conn_of_def)
  have "conn_ok (?c\<lparr>co_drains := remove1 n (co_drains ?c)\<rparr>)" using i(2) by (auto simp: conn_ok_def)
  moreover have "add_mset n (mset (co_pending_drains ?c) + mset (remove1 n (co_drains ?c))) \<subseteq># mset (dq ?s)"
    using sub n by (simp add: union_mset_add_mset_right [symmetric] del: union_mset_add_mset_right)
  ultimately have "tcp_bridge_inv (tcp_step (make_side (ce_write e)) ?s (ce_uv e, EvDrained n))"
    using i by (intro tcp_bridge_drained) (simp_all add: tcp_owned_side)
  then show ?thesis by (simp add: drain_cb_def TcpBridge map_conn_def fire_drain_Tcp conn_inv_def)
next
  case (UdpBridge p)
  then have "co_drains (u_side p) = []" using inv by (simp add: conn_inv_def)
  then show ?thesis using n UdpBridge by (simp add: conn_of_def)
qed

lemma conn_inv_step: "conn_inv b \<Longrightarrow> conn_enabled b ev \<Longrightarrow> conn_inv (conn_step b ev)"
proof -
  assume inv: "conn_inv b" and en: "conn_enabled b ev"
  obtain e v where ev: "ev = (e, v)" by (cases ev)
  note d = conn_enabled_def conn_step_def
  show ?thesis
  proof (cases v)
    case (ConnTcp w)
    then show ?thesis
      using inv en ev by (cases b; cases w) (simp_all add: d loop_tcp_def conn_inv_tcp_step)
  next
    case (ConnUdp w)
    then show ?thesis using inv en ev by (cases b) (simp_all add: d conn_inv_udp_step)
  next
    case (ConnData data)
    then show ?thesis
      using inv ev by (cases b) (simp_all add: d stream_data_cb_def conn_inv_tcp_step conn_inv_udp_step
          tcp_enabled_def udp_enabled_def)
  next
    case ConnDestroy
    then show ?thesis
      using inv ev by (cases b) (simp_all add: d bridge_destroy_def conn_inv_tcp_step conn_inv_udp_step
          tcp_enabled_def udp_enabled_def)
  qed (use inv en ev in \<open>simp_all add: d conn_inv_open conn_inv_close conn_inv_drain Let_def\<close>)
qed

interpretation conn_machine: machine conn_step conn_enabled conn_begin conn_inv
  by unfold_locales (rule conn_inv_begin, assumption, rule conn_inv_step)

definition conn_reachable :: "bridge \<Rightarrow> bool" where
  "conn_reachable = machine.reach conn_step conn_enabled conn_begin"

lemma conn_reachable_begin: "conn_begin b \<Longrightarrow> conn_reachable b"
  unfolding conn_reachable_def by (rule conn_machine.reach_start)

lemma conn_reachable_step: "conn_reachable b \<Longrightarrow> conn_enabled b ev \<Longrightarrow> conn_reachable (conn_step b ev)"
  unfolding conn_reachable_def by (rule conn_machine.reach_step)

lemma conn_reachable_inv: "conn_reachable b \<Longrightarrow> conn_inv b"
  unfolding conn_reachable_def by (rule conn_machine.reach_inv)

text \<open>What a freed connection leaves behind.\<close>

definition bridge_idle :: "bridge \<Rightarrow> bool" where
  "bridge_idle b \<longleftrightarrow>
     (case b of
        TcpBridge s \<Rightarrow> tcp (sys_pipe s) = None \<and> wq s = [] \<and> \<not> conn_req s \<and> \<not> reading (sys_pipe s)
      | UdpBridge p \<Rightarrow> u_sock p = None)"

lemma freed_idle:
  assumes "conn_inv b" and "\<not> conn_alive (conn_of b)"
  shows "bridge_idle b \<and> \<not> co_stream (conn_of b)"
proof (cases b)
  case (TcpBridge s)
  then have "tcp_inv s" "conn_ok (side_st (sys_pipe s))" "tcp_owned (sys_pipe s)"
    using assms(1) by (simp_all add: conn_inv_def tcp_bridge_inv_def Let_def)
  then show ?thesis
    using assms(2) TcpBridge
    by (auto simp: bridge_idle_def conn_of_def conn_alive_def conn_ok_def tcp_owned_def tcp_inv_def
        tcp_quiet_def tcp_ok_def tcp_core_def)
next
  case (UdpBridge p)
  then show ?thesis
    using assms by (simp add: conn_inv_def bridge_idle_def conn_of_def conn_alive_def conn_ok_def udp_owned_def)
qed

text \<open>The bytes that went to the encrypted stream.\<close>

definition wire :: "srv_conn \<Rightarrow> byte list" where
  "wire c = concat (map (\<lambda>a. case a of SWrite d rc \<Rightarrow> if rc < 0 then [] else d | _ \<Rightarrow> []) (co_calls c))"

definition conn_writes :: "int \<Rightarrow> srv_conn \<Rightarrow> (byte list \<times> nat option) list \<Rightarrow> srv_conn" where
  "conn_writes rc c ws = foldl (\<lambda>c w. fst (side_write rc c (fst w) (snd w))) c ws"

lemma conn_writes_closed:
  assumes "\<not> co_open c"
    and "length (co_pending c) + sum_list (map (\<lambda>w. length (fst w)) ws) \<le> kMaxPendingBytes"
  shows "co_pending (conn_writes rc c ws) = co_pending c @ concat (map fst ws) \<and>
    co_calls (conn_writes rc c ws) = co_calls c \<and> \<not> co_open (conn_writes rc c ws)"
  using assms
  by (induction ws arbitrary: c) (auto simp: conn_writes_def side_write_def)

lemma conn_writes_open:
  assumes "co_open c" and "0 \<le> rc"
  shows "wire (conn_writes rc c ws) = wire c @ concat (map fst ws)"
  using assms(1)
proof (induction ws arbitrary: c)
  case Nil
  then show ?case by (simp add: conn_writes_def)
next
  case (Cons w ws)
  let ?c = "fst (side_write rc c (fst w) (snd w))"
  have "co_open ?c" "wire ?c = wire c @ fst w"
    using Cons.prems assms(2) by (auto simp: side_write_def scalled_def wire_def Let_def split: option.split)
  then show ?case using Cons.IH [of ?c] by (simp add: conn_writes_def)
qed

lemma drained_side [simp]: "side_st (drained e n p) = side_st p"
  by (simp add: drained_def resume_reading_def start_reading_def emit_def Let_def)

lemma conn_of_drains [simp]: "conn_of (fold (fire_drain e) ns b) = conn_of b"
proof (induction ns arbitrary: b)
  case (Cons n ns)
  then show ?case
    by (cases b) (simp_all add: fire_drain_def conn_of_def tcp_step_def Let_def)
qed simp

lemma conn_of_map [simp]: "conn_of (map_conn f b) = f (conn_of b)"
  by (cases b) (simp_all add: map_conn_def conn_of_def)

lemma stream_open_conn:
  assumes "0 \<le> ce_write e"
  shows "wire (conn_of (stream_open_cb e b)) = wire (conn_of b) @ co_pending (conn_of b)"
    and "co_open (conn_of (stream_open_cb e b))"
  using assms by (simp_all add: stream_open_cb_def Let_def wire_def scalled_def)

text \<open>The net in the pipe's destructor is not needed: a freed connection's pipe has no socket left.\<close>

lemma freed_udp_delete:
  assumes "conn_reachable (UdpBridge p)" and "\<not> conn_alive (u_side p)"
  shows "udp_delete p = p"
  using freed_idle [OF conn_reachable_inv [OF assms(1)]] assms(2)
  by (simp add: conn_of_def bridge_idle_def udp_delete_def)

section \<open>Properties\<close>

text \<open>
  C3: No callback of libuv or of hyperdht finds a freed connection. In every reachable state
  of an accepted connection, TCP or UDP, whatever event can come next, one of the two
  references still holds the connection; and once both are gone the stream has closed, the
  pipe has no handle, and no request of it is in flight.
\<close>

theorem server_conn_lifetime:
  assumes "conn_reachable b"
  shows "(\<forall>ev. conn_enabled b ev \<longrightarrow> conn_alive (conn_of b)) \<and>
    (\<not> conn_alive (conn_of b) \<longrightarrow> bridge_idle b \<and> \<not> co_stream (conn_of b))"
proof -
  have inv: "conn_inv b" using assms by (rule conn_reachable_inv)
  have "\<not> conn_enabled b ev" if "\<not> conn_alive (conn_of b)" for ev
    using freed_idle [OF inv that] that
    by (cases b) (auto simp: conn_enabled_def bridge_idle_def loop_tcp_def loop_udp_def tcp_enabled_def
        udp_enabled_def Let_def split: conn_event.splits tcp_event.splits udp_event.splits)
  then show ?thesis using freed_idle [OF inv] by blast
qed

definition demo_conn_env :: conn_env where
  "demo_conn_env = \<lparr>ce_write = 0, ce_uv = demo_env, ce_udp = demo_udp_env\<rparr>"

definition demo_bridge :: bridge where
  "demo_bridge = conn_step (accept_bridge demo_conn_env False ''127.0.0.1'' 22)
     (demo_conn_env, ConnTcp (EvConnected 0))"

lemmas conn_run_defs = conn_step_def conn_enabled_def accept_bridge_def demo_bridge_def demo_conn_env_def
  pipe_run_defs tcp_connect_def resolve_def resolve_ip4_def loopback_resolver_def uv_codes loop_tcp_def
  new_srv_conn_def conn_of_def

lemma demo_bridge_reachable: "conn_reachable demo_bridge"
proof -
  have "conn_begin (accept_bridge demo_conn_env False ''127.0.0.1'' 22)"
    unfolding conn_begin_def by blast
  moreover have "conn_enabled (accept_bridge demo_conn_env False ''127.0.0.1'' 22)
      (demo_conn_env, ConnTcp (EvConnected 0))"
    by (simp add: conn_run_defs)
  ultimately show ?thesis
    unfolding demo_bridge_def by (intro conn_reachable_step conn_reachable_begin)
qed

theorem server_conn_lifetime_witness:
  defines "b \<equiv> foldl conn_step demo_bridge
    [(demo_conn_env, ConnDestroy), (demo_conn_env, ConnTcp EvClosed), (demo_conn_env, ConnClose)]"
  shows "conn_reachable b \<and> \<not> conn_alive (conn_of b) \<and> bridge_idle b"
proof -
  let ?b1 = "conn_step demo_bridge (demo_conn_env, ConnDestroy)"
  let ?b2 = "conn_step ?b1 (demo_conn_env, ConnTcp EvClosed)"
  have r1: "conn_reachable ?b1"
    by (intro conn_reachable_step demo_bridge_reachable) (simp add: conn_run_defs conn_alive_def)
  have r2: "conn_reachable ?b2"
    by (intro conn_reachable_step r1)
      (simp add: conn_run_defs bridge_destroy_def make_side_def scalled_def)
  have r: "conn_reachable b"
    unfolding b_def foldl.simps
    by (intro conn_reachable_step r2)
      (simp add: conn_run_defs bridge_destroy_def make_side_def scalled_def)
  have "\<not> conn_alive (conn_of b)"
    by (simp add: b_def conn_run_defs bridge_destroy_def stream_close_cb_def make_side_def scalled_def
        conn_alive_def map_conn_def)
  then show ?thesis using server_conn_lifetime [OF r] r by simp
qed



text \<open>
  C38: The cap on the greeting buffer can lose TCP bytes. A read that would take the buffer of
  an unopened connection past 256 KiB is reported as submitted: the pipe stays up and counts
  its bytes as awaiting a drain, but they are in no buffer, they have not gone to the stream,
  and no drain callback for them is kept.
\<close>

theorem server_greeting_dropped:
  fixes e :: uv_env and rc :: int
  assumes "\<not> destroyed (sys_pipe s)" and "\<not> co_open (side_st (sys_pipe s))" and "0 < n"
    and "n \<le> length buf" and "kMaxPendingBytes < length (co_pending (side_st (sys_pipe s))) + n"
  defines "t \<equiv> tcp_step (make_side rc) s (e, EvRead (int n) buf)"
  shows "side_st (sys_pipe t) = side_st (sys_pipe s) \<and> \<not> destroyed (sys_pipe t) \<and>
    stream_pending_bytes (sys_pipe t) = stream_pending_bytes (sys_pipe s) + n \<and> dq t = dq s @ [n]"
proof -
  have "side_write rc (side_st (sys_pipe s)) (take n buf) (Some n) = (side_st (sys_pipe s), 1)"
    using assms(2,4,5) by (simp add: side_write_def)
  then show ?thesis
    using assms(1,3) by (simp add: t_def tcp_step_def read_cb_def write_accepted_def stop_reading_def emit_def Let_def)
qed

text \<open>
  A run of the event loop that gets there: four reads of 65535 bytes leave the pipe four
  bytes below its own mark, so it reads once more.
\<close>

definition greeting_chunk :: "nat \<Rightarrow> byte list" where
  "greeting_chunk n = replicate n 0"

lemma length_greeting_chunk [simp]: "length (greeting_chunk n) = n" "take n (greeting_chunk n) = greeting_chunk n"
  by (simp_all add: greeting_chunk_def)

definition greet :: "bridge \<Rightarrow> bridge" where
  "greet b = conn_step b (demo_conn_env, ConnTcp (EvRead 65535 (greeting_chunk 65535)))"

definition greeting :: "nat \<Rightarrow> bridge \<Rightarrow> bool" where
  "greeting k b \<longleftrightarrow>
     (case b of
        TcpBridge s \<Rightarrow>
          reading (sys_pipe s) \<and> \<not> destroyed (sys_pipe s) \<and> tcp (sys_pipe s) \<noteq> None \<and>
          stream_pending_bytes (sys_pipe s) = k \<and> \<not> co_open (side_st (sys_pipe s)) \<and>
          length (co_pending (side_st (sys_pipe s))) = k
      | UdpBridge p \<Rightarrow> False)"

lemma greet_step:
  assumes "conn_reachable b" and "greeting k b" and "k + 65535 < kStreamHighWaterMark"
  shows "conn_reachable (greet b) \<and> greeting (k + 65535) (greet b)"
proof -
  obtain s where b: "b = TcpBridge s" using assms(2) by (cases b) (simp_all add: greeting_def)
  have "conn_enabled b (demo_conn_env, ConnTcp (EvRead 65535 (greeting_chunk 65535)))"
    using assms(2) b by (simp add: conn_enabled_def greeting_def loop_tcp_def tcp_enabled_def kScratch_def)
  then have "conn_reachable (greet b)" unfolding greet_def by (intro conn_reachable_step assms(1))
  moreover have "greeting (k + 65535) (greet b)"
    using assms(2,3) b
    by (simp add: greeting_def greet_def conn_step_def tcp_step_def read_cb_def side_write_def
        kMaxPendingBytes_def kStreamHighWaterMark_def Let_def)
  ultimately show ?thesis ..
qed

theorem server_greeting_dropped_witness:
  "\<exists>s. conn_reachable (TcpBridge s) \<and> reading (sys_pipe s) \<and>
     side_st (sys_pipe (tcp_step (make_side 0) s (demo_env, EvRead (int 65536) (greeting_chunk 65536)))) =
       side_st (sys_pipe s) \<and>
     stream_pending_bytes (sys_pipe (tcp_step (make_side 0) s (demo_env, EvRead (int 65536) (greeting_chunk 65536)))) = 327676"
proof -
  have g0: "greeting 0 demo_bridge" by (simp add: greeting_def conn_run_defs)
  note g1 = greet_step [OF demo_bridge_reachable g0]
  have g1: "conn_reachable (greet demo_bridge) \<and> greeting 65535 (greet demo_bridge)"
    using greet_step [OF demo_bridge_reachable g0] by (simp add: kStreamHighWaterMark_def)
  have g2: "conn_reachable (greet (greet demo_bridge)) \<and> greeting 131070 (greet (greet demo_bridge))"
    using greet_step [of "greet demo_bridge" 65535] g1 by (simp add: kStreamHighWaterMark_def)
  let ?b3 = "greet (greet (greet demo_bridge))"
  have g3: "conn_reachable ?b3 \<and> greeting 196605 ?b3"
    using greet_step [of "greet (greet demo_bridge)" 131070] g2 by (simp add: kStreamHighWaterMark_def)
  have g4: "conn_reachable (greet ?b3) \<and> greeting 262140 (greet ?b3)"
    using greet_step [of ?b3 196605] g3 by (simp add: kStreamHighWaterMark_def)
  obtain s where s: "greet ?b3 = TcpBridge s" using g4 by (cases "greet ?b3") (simp_all add: greeting_def)
  have f: "\<not> destroyed (sys_pipe s)" "\<not> co_open (side_st (sys_pipe s))" "reading (sys_pipe s)"
    "length (co_pending (side_st (sys_pipe s))) = 262140" "stream_pending_bytes (sys_pipe s) = 262140"
    using g4 s by (simp_all add: greeting_def)
  have k: "0 < (65536 :: nat)" "65536 \<le> length (greeting_chunk 65536)"
    "kMaxPendingBytes < length (co_pending (side_st (sys_pipe s))) + 65536"
    using f by (simp_all add: kMaxPendingBytes_def)
  show ?thesis
    using server_greeting_dropped [OF f(1,2) k, where rc = 0 and e = demo_env] f g4 s by (intro exI [of _ s]) simp
qed

end
