(* ===== verification/Hs_Server.thy ===== *)
theory Hs_Server
  imports Hs_Server_Conn Hs_Keys Hs_Record "HOL-Library.AList"
begin

text \<open>
  \<^verbatim>\<open>HolesailServer\<close> (\<^verbatim>\<open>src/server.cpp\<close>): its identity, derived from a seed; the firewall of
  private mode; the connections it accepts; and the record it publishes, with the sequence
  rule. The cryptographic primitives (\<open>hs_crypto\<close>) and the DHT are parameters: \<open>server_env\<close>
  holds the answers of the DHT, and what the server asks of it goes to the trace \<open>sv_acts\<close>.
\<close>

section \<open>State\<close>

record config =
  cf_port :: u16
  cf_host :: string
  cf_seed_hex :: string
  cf_secure :: bool
  cf_udp :: bool

datatype dact =
    DLog level string
  | DCreate
  | DFirewall
  | DReusable
  | DOnListening
  | DListen "byte list"
  | DGet "byte list"
  | DPut "byte list" string u64
  | DTimerStart nat
  | DTimerStop
  | DSuspend
  | DResume
  | DClose
  | DListening int

record server_env =
  ve_create :: bool
  ve_listen :: int
  ve_get :: int
  ve_conn :: conn_env

text \<open>
  \<open>sv_heap\<close> are the connections ever accepted, by a number of our own; \<open>sv_conns\<close> is the map
  from stream pointers to weak references to them.
\<close>

record server =
  sv_dht :: bool
  sv_config :: config
  sv_seed :: "byte list"
  sv_pk :: "byte list"
  sv_srv :: bool
  sv_refresh :: bool
  sv_record :: string
  sv_state :: string
  sv_on_listening :: bool
  sv_conns :: "(nat \<times> nat) list"
  sv_heap :: "nat \<Rightarrow> bridge option"
  sv_next :: nat
  sv_acts :: "dact list"

definition kRefreshIntervalMs :: nat where "kRefreshIntervalMs = 50 * 60 * 1000"

definition dact :: "dact \<Rightarrow> server \<Rightarrow> server" where
  "dact a s = s\<lparr>sv_acts := sv_acts s @ [a]\<rparr>"

section \<open>Construction and identity\<close>

text \<open>
  The constructor; \<open>Inl\<close> is the message of the exception. \<open>rnd\<close> is what the random source
  would return.
\<close>

definition server_new :: "hs_crypto \<Rightarrow> byte list \<Rightarrow> bool \<Rightarrow> config \<Rightarrow> string + server" where
  "server_new cr rnd dht cfg =
     (let cfg = (if cf_seed_hex cfg = [] then cfg\<lparr>cf_seed_hex := random_hex32 rnd\<rparr> else cfg)
      in case from_hex (cf_seed_hex cfg) of
           None \<Rightarrow> Inl ''seed must be 64 hex characters''
         | Some bytes \<Rightarrow>
             if length bytes \<noteq> 32 then Inl ''seed must be 64 hex characters''
             else Inr (dact (DLog Debug (''Generated key pair from seed: '' @ cf_seed_hex cfg))
               \<lparr>sv_dht = dht, sv_config = cfg, sv_seed = bytes, sv_pk = fst (c_keypair cr bytes),
                sv_srv = False, sv_refresh = False, sv_record = [], sv_state = [],
                sv_on_listening = False, sv_conns = [], sv_heap = Map.empty, sv_next = 0, sv_acts = []\<rparr>))"

definition server_key :: "server \<Rightarrow> string" where
  "server_key s = (if cf_secure (sv_config s) then z32_encode (sv_seed s) else z32_encode (sv_pk s))"

definition public_key_z32 :: "server \<Rightarrow> string" where
  "public_key_z32 s = z32_encode (sv_pk s)"

definition next_seq :: "bool \<Rightarrow> u64 \<Rightarrow> bool \<Rightarrow> u64" where
  "next_seq had_record old_seq value_unchanged =
     (if \<not> had_record then 0 else if value_unchanged then old_seq else old_seq + 1)"

section \<open>Publishing\<close>

definition server_publish :: "server_env \<Rightarrow> server \<Rightarrow> server" where
  "server_publish e s =
     (if \<not> sv_dht s \<or> sv_record s = [] then s
      else let s = dact (DGet (sv_pk s)) s
           in if ve_get e < 0 then dact (DLog Warn ''Could not read the existing DHT record'') s else s)"

record get_ctx =
  gc_seq :: u64
  gc_value :: string
  gc_had :: bool

definition new_get_ctx :: get_ctx where
  "new_get_ctx = \<lparr>gc_seq = 0, gc_value = [], gc_had = False\<rparr>"

text \<open>A reply of the query; \<open>None\<close> is a null value pointer.\<close>

definition get_value_cb :: "get_ctx \<Rightarrow> u64 \<times> byte list option \<Rightarrow> get_ctx" where
  "get_value_cb ctx reply =
     (case reply of (seq, v) \<Rightarrow>
        (case v of
           None \<Rightarrow> ctx
         | Some bytes \<Rightarrow>
             if gc_had ctx \<and> seq < gc_seq ctx then ctx
             else ctx\<lparr>gc_seq := seq, gc_value := string_of_bytes bytes, gc_had := True\<rparr>))"

text \<open>The query is done; \<open>alive\<close> tells whether the server object still is.\<close>

definition get_done_cb :: "bool \<Rightarrow> get_ctx \<Rightarrow> server \<Rightarrow> server" where
  "get_done_cb alive ctx s =
     (if \<not> alive then s
      else let seq = next_seq (gc_had ctx) (gc_seq ctx) (gc_value ctx = sv_record s);
               s = dact (DLog Debug (''Putting DHT record with seq '' @ to_dec (unat seq) @ '': '' @ sv_record s)) s
           in dact (DPut (sv_pk s) (sv_record s) seq) s)"

definition refresh_cb :: "server_env \<Rightarrow> server \<Rightarrow> server" where
  "refresh_cb e s = server_publish e (dact (DLog Debug (''Refreshing DHT record: '' @ sv_record s)) s)"

section \<open>Lifecycle\<close>

definition server_start :: "server_env \<Rightarrow> bool \<Rightarrow> server \<Rightarrow> server \<times> int" where
  "server_start e on_listening s =
     (if \<not> sv_dht s \<or> sv_srv s then (s, UV_EINVAL)
      else let s = dact DCreate s in
        if \<not> ve_create e then (dact (DLog Error ''Failed to create the DHT server'') s, UV_ENOMEM)
        else let s = s\<lparr>sv_srv := True\<rparr>;
                 s = (if cf_secure (sv_config s)
                      then dact (DLog Info ''Using Private Mode'') (dact DFirewall s)
                      else dact (DLog Info ''Using Public Mode'') s);
                 s = dact DReusable s;
                 s = dact DOnListening (s\<lparr>sv_on_listening := on_listening\<rparr>);
                 s = dact (DListen (sv_pk s)) s;
                 rc = ve_listen e
             in if rc < 0 then (dact (DLog Error ''Server listen failed'') s, rc)
                else let s = s\<lparr>sv_record := encode_record (cf_host (sv_config s))
                                 (if cf_udp (sv_config s) then Some True else None) (cf_port (sv_config s))\<rparr>;
                         s = dact (DLog Debug (''Initializing DHT with host info: '' @ sv_record s)) s;
                         s = server_publish e s
                     in (dact (DTimerStart kRefreshIntervalMs) (s\<lparr>sv_refresh := True\<rparr>), 0))"

definition listening_cb :: "server \<Rightarrow> server" where
  "listening_cb s =
     (let s = dact (DLog Info (''Server listening on key: '' @ server_key s)) (s\<lparr>sv_state := ''listening''\<rparr>)
      in if sv_on_listening s then dact (DListening 0) s else s)"

definition server_pause :: "server \<Rightarrow> server" where
  "server_pause s =
     (if \<not> sv_dht s then s
      else dact (DLog Info ''Server paused'') ((dact DSuspend s)\<lparr>sv_state := ''paused''\<rparr>))"

definition server_resume :: "server \<Rightarrow> server" where
  "server_resume s =
     (if \<not> sv_dht s then s
      else dact (DLog Info ''Server resumed'') ((dact DResume s)\<lparr>sv_state := ''listening''\<rparr>))"

text \<open>The body of the loop over the map: a connection whose weak reference still locks.\<close>

definition destroy_conn :: "conn_env \<Rightarrow> nat \<Rightarrow> (nat \<Rightarrow> bridge option) \<Rightarrow> (nat \<Rightarrow> bridge option)" where
  "destroy_conn e i h =
     (case h i of
        None \<Rightarrow> h
      | Some b \<Rightarrow> if conn_alive (conn_of b) then h(i \<mapsto> conn_step b (e, ConnDestroy)) else h)"

definition server_destroy :: "server_env \<Rightarrow> server \<Rightarrow> server" where
  "server_destroy e s =
     (let s = (if sv_refresh s then (dact DTimerStop s)\<lparr>sv_refresh := False\<rparr> else s);
          s = s\<lparr>sv_heap := fold (\<lambda>kv. destroy_conn (ve_conn e) (snd kv)) (sv_conns s) (sv_heap s)\<rparr>;
          s = s\<lparr>sv_conns := []\<rparr>;
          s = (if sv_srv s then (dact DClose s)\<lparr>sv_srv := False\<rparr> else s)
      in s\<lparr>sv_state := ''destroyed''\<rparr>)"

section \<open>Connections\<close>

text \<open>
  \<^verbatim>\<open>firewall_cb\<close>: 0 accepts. \<^verbatim>\<open>sodium_memcmp\<close> is documented to return 0 exactly for equal
  memory.
\<close>

definition firewall_cb :: "byte list option \<Rightarrow> server \<Rightarrow> int" where
  "firewall_cb remote_pk s =
     (case remote_pk of None \<Rightarrow> 1 | Some pk \<Rightarrow> if pk = sv_pk s then 0 else 1)"

definition expired :: "(nat \<Rightarrow> bridge option) \<Rightarrow> nat \<Rightarrow> bool" where
  "expired h i = (case h i of None \<Rightarrow> True | Some b \<Rightarrow> \<not> conn_alive (conn_of b))"

text \<open>
  \<open>c\<close> is the remote key of the connection hyperdht offers; \<open>stream\<close> is the pointer its
  \<^verbatim>\<open>hyperdht_stream_open\<close> returns.
\<close>

definition connection_cb :: "server_env \<Rightarrow> byte list option \<Rightarrow> nat option \<Rightarrow> server \<Rightarrow> server" where
  "connection_cb e c stream s =
     (case c of
        None \<Rightarrow> s
      | Some remote \<Rightarrow>
          if \<not> sv_srv s then s
          else let s = dact (DLog Debug (''Incoming connection received from '' @ z32_encode remote)) s;
                   s = s\<lparr>sv_conns := filter (\<lambda>kv. \<not> expired (sv_heap s) (snd kv)) (sv_conns s)\<rparr>
               in case stream of
                    None \<Rightarrow> dact (DLog Error ''Failed to open a stream for an inbound connection'') s
                  | Some st \<Rightarrow>
                      s\<lparr>sv_conns := AList.update st (sv_next s) (sv_conns s),
                        sv_heap := (sv_heap s)(sv_next s \<mapsto> accept_bridge (ve_conn e) (cf_udp (sv_config s))
                          (cf_host (sv_config s)) (cf_port (sv_config s))),
                        sv_next := sv_next s + 1\<rparr>)"

section \<open>The newest reply wins\<close>

definition get_best :: "get_ctx \<Rightarrow> (u64 \<times> string) option" where
  "get_best ctx = (if gc_had ctx then Some (gc_seq ctx, gc_value ctx) else None)"

interpretation get_replies: newest get_value_cb get_best "map_option string_of_bytes"
  by unfold_locales (auto simp: get_best_def get_value_cb_def split: if_splits option.splits)

definition replies_of :: "(u64 \<times> byte list option) list \<Rightarrow> (u64 \<times> string) list" where
  "replies_of rs = concat (map (\<lambda>(q, v). case v of None \<Rightarrow> [] | Some b \<Rightarrow> [(q, string_of_bytes b)]) rs)"

lemma replies_of_parsed: "get_replies.parsed rs = replies_of rs"
  unfolding get_replies.parsed_def replies_of_def
  by (rule arg_cong [of _ _ concat], rule map_cong) (auto split: option.splits)

lemma get_ctx_cases:
  "case get_best (foldl get_value_cb new_get_ctx rs) of
     None \<Rightarrow> replies_of rs = []
   | Some (q, v) \<Rightarrow> (q, v) \<in> set (replies_of rs) \<and> (\<forall>(q', v') \<in> set (replies_of rs). q' \<le> q)"
proof -
  have "get_best new_get_ctx = None" by (simp add: get_best_def new_get_ctx_def)
  from get_replies.keep_run [OF this, of rs] show ?thesis unfolding replies_of_parsed .
qed

section \<open>The server as a machine\<close>

text \<open>A connection needs nothing more from the server: its pipe is down or its stream has closed.\<close>

definition bridge_dead :: "bridge \<Rightarrow> bool" where
  "bridge_dead b = (case b of TcpBridge s \<Rightarrow> destroyed (sys_pipe s) | UdpBridge p \<Rightarrow> u_destroyed p)"

definition settled :: "bridge \<Rightarrow> bool" where
  "settled b \<longleftrightarrow> bridge_dead b \<or> \<not> co_stream (conn_of b)"

datatype server_event =
    SvStart bool
  | SvListening
  | SvPause
  | SvResume
  | SvDestroy
  | SvRefresh
  | SvGetDone bool get_ctx
  | SvConnection "byte list option" "nat option"
  | SvBridge nat conn_event

definition server_step :: "server \<Rightarrow> server_env \<times> server_event \<Rightarrow> server" where
  "server_step s ev =
     (let e = fst ev in
      case snd ev of
        SvStart on_listening \<Rightarrow> fst (server_start e on_listening s)
      | SvListening \<Rightarrow> listening_cb s
      | SvPause \<Rightarrow> server_pause s
      | SvResume \<Rightarrow> server_resume s
      | SvDestroy \<Rightarrow> server_destroy e s
      | SvRefresh \<Rightarrow> refresh_cb e s
      | SvGetDone alive ctx \<Rightarrow> get_done_cb alive ctx s
      | SvConnection c stream \<Rightarrow> connection_cb e c stream s
      | SvBridge i cev \<Rightarrow>
          (case sv_heap s i of
             None \<Rightarrow> s
           | Some b \<Rightarrow> s\<lparr>sv_heap := (sv_heap s)(i \<mapsto> conn_step b (ve_conn e, cev))\<rparr>))"

text \<open>
  The timer fires while it is started; hyperdht does not hand out the pointer of a stream it
  has not closed; a connection's own events are those of its machine.
\<close>

definition server_enabled :: "server \<Rightarrow> server_env \<times> server_event \<Rightarrow> bool" where
  "server_enabled s ev =
     (case snd ev of
        SvRefresh \<Rightarrow> sv_refresh s
      | SvConnection c (Some st) \<Rightarrow>
          list_all (\<lambda>kv. fst kv = st \<longrightarrow>
             (case sv_heap s (snd kv) of None \<Rightarrow> True | Some b \<Rightarrow> \<not> co_stream (conn_of b))) (sv_conns s)
      | SvBridge i cev \<Rightarrow>
          (case sv_heap s i of None \<Rightarrow> False | Some b \<Rightarrow> conn_enabled b (ve_conn (fst ev), cev))
      | _ \<Rightarrow> True)"

definition server_begin :: "server \<Rightarrow> bool" where
  "server_begin s \<longleftrightarrow> (\<exists>cr rnd dht cfg. server_new cr rnd dht cfg = Inr s)"

text \<open>
  Every connection is in a reachable state of its own; a connection that is not settled is in
  the map, so that \<^verbatim>\<open>destroy\<close> finds it; the timer runs only while the DHT server exists, and
  without it there is nothing in the map.
\<close>

definition server_inv :: "server \<Rightarrow> bool" where
  "server_inv s \<longleftrightarrow>
     (\<forall>i b. sv_heap s i = Some b \<longrightarrow> conn_reachable b \<and> i < sv_next s) \<and>
     (\<forall>i b. sv_heap s i = Some b \<longrightarrow> settled b \<or> i \<in> snd ` set (sv_conns s)) \<and>
     (sv_refresh s \<longrightarrow> sv_srv s) \<and> (\<not> sv_srv s \<longrightarrow> sv_conns s = [])"

lemma dact_frame [simp]:
  "sv_heap (dact a s) = sv_heap s" "sv_conns (dact a s) = sv_conns s" "sv_srv (dact a s) = sv_srv s"
  "sv_refresh (dact a s) = sv_refresh s" "sv_next (dact a s) = sv_next s" "sv_dht (dact a s) = sv_dht s"
  "sv_config (dact a s) = sv_config s" "sv_pk (dact a s) = sv_pk s" "sv_record (dact a s) = sv_record s"
  "sv_on_listening (dact a s) = sv_on_listening s" "sv_seed (dact a s) = sv_seed s"
  "sv_state (dact a s) = sv_state s" "sv_acts (dact a s) = sv_acts s @ [a]"
  by (simp_all add: dact_def)

lemma server_inv_frame [simp]:
  "server_inv (dact a s) = server_inv s" "server_inv (s\<lparr>sv_state := st\<rparr>) = server_inv s"
  "server_inv (s\<lparr>sv_record := r\<rparr>) = server_inv s" "server_inv (s\<lparr>sv_on_listening := b\<rparr>) = server_inv s"
  by (simp_all add: server_inv_def)

lemma publish_acts [simp]:
  "sv_acts (server_publish e s) = sv_acts s @
     (if sv_dht s \<and> sv_record s \<noteq> []
      then DGet (sv_pk s) # (if ve_get e < 0 then [DLog Warn ''Could not read the existing DHT record''] else [])
      else [])"
  by (simp add: server_publish_def Let_def)

lemma encode_record_nonempty [simp]: "encode_record h u p \<noteq> []"
  by (simp add: encode_record_def Let_def)

lemma publish_frame [simp]:
  "server_inv (server_publish e s) = server_inv s" "sv_srv (server_publish e s) = sv_srv s"
  by (simp_all add: server_publish_def Let_def)

text \<open>The seed a configuration stands for: its own, or the random one it is given.\<close>

definition seeded :: "byte list \<Rightarrow> config \<Rightarrow> config" where
  "seeded rnd cfg = (if cf_seed_hex cfg = [] then cfg\<lparr>cf_seed_hex := random_hex32 rnd\<rparr> else cfg)"

lemma server_new_Inr:
  assumes "server_new cr rnd dht cfg = Inr s"
  shows "from_hex (cf_seed_hex (seeded rnd cfg)) = Some (sv_seed s)" "length (sv_seed s) = 32"
    "sv_pk s = fst (c_keypair cr (sv_seed s))" "sv_config s = seeded rnd cfg" "sv_dht s = dht"
    "sv_srv s = False" "sv_refresh s = False" "sv_conns s = []" "sv_heap s = Map.empty" "sv_record s = []"
    "sv_state s = []" "sv_next s = 0"
proof -
  have s: "server_new cr rnd dht cfg = (case from_hex (cf_seed_hex (seeded rnd cfg)) of
      None \<Rightarrow> Inl ''seed must be 64 hex characters''
    | Some bytes \<Rightarrow> if length bytes \<noteq> 32 then Inl ''seed must be 64 hex characters'' else
        Inr (dact (DLog Debug (''Generated key pair from seed: '' @ cf_seed_hex (seeded rnd cfg)))
               \<lparr>sv_dht = dht, sv_config = seeded rnd cfg, sv_seed = bytes, sv_pk = fst (c_keypair cr bytes),
                sv_srv = False, sv_refresh = False, sv_record = [], sv_state = [],
                sv_on_listening = False, sv_conns = [], sv_heap = Map.empty, sv_next = 0, sv_acts = []\<rparr>))"
    by (simp only: server_new_def Let_def seeded_def)
  from assms obtain bytes where b: "from_hex (cf_seed_hex (seeded rnd cfg)) = Some bytes" "length bytes = 32"
    and r: "s = dact (DLog Debug (''Generated key pair from seed: '' @ cf_seed_hex (seeded rnd cfg)))
               \<lparr>sv_dht = dht, sv_config = seeded rnd cfg, sv_seed = bytes, sv_pk = fst (c_keypair cr bytes),
                sv_srv = False, sv_refresh = False, sv_record = [], sv_state = [],
                sv_on_listening = False, sv_conns = [], sv_heap = Map.empty, sv_next = 0, sv_acts = []\<rparr>"
    unfolding s by (cases "from_hex (cf_seed_hex (seeded rnd cfg))") (simp_all split: if_splits)
  show "from_hex (cf_seed_hex (seeded rnd cfg)) = Some (sv_seed s)" "length (sv_seed s) = 32"
    "sv_pk s = fst (c_keypair cr (sv_seed s))" "sv_config s = seeded rnd cfg" "sv_dht s = dht"
    "sv_srv s = False" "sv_refresh s = False" "sv_conns s = []" "sv_heap s = Map.empty" "sv_record s = []"
    "sv_state s = []" "sv_next s = 0"
    by (simp_all add: r b)
qed

lemma server_inv_begin: "server_begin s \<Longrightarrow> server_inv s"
  using server_new_Inr by (fastforce simp: server_begin_def server_inv_def)

lemma pipe_destroyed_stays [simp]: "destroyed p \<Longrightarrow> destroyed (read_cb e sd n buf p)"
  "destroyed p \<Longrightarrow> destroyed (tcp_on_stream_data e sd data p)" "destroyed p \<Longrightarrow> destroyed (tcp_on_stream_close sd p)"
  "destroyed p \<Longrightarrow> destroyed (drained e m p)" "destroyed p \<Longrightarrow> destroyed (tcp_connect_cb e sd st p)"
  "destroyed p \<Longrightarrow> destroyed (write_cb sd m st p)" "destroyed p \<Longrightarrow> destroyed (closed_cb sd p)"
  "destroyed p \<Longrightarrow> destroyed (fst (tcp_connect e sd h pt b p))" "destroyed p \<Longrightarrow> destroyed (fst (adopt e a p))"
  by (simp_all add: read_cb_def tcp_on_stream_data_def tcp_on_stream_close_def drained_def resume_reading_def
      tcp_connect_cb_def call_on_ready_def start_reading_def emit_def write_cb_def flush_finished_def
      on_side_def closed_cb_def fire_on_destroy_def tcp_connect_def adopt_def Let_def)

lemma dead_tcp_step: "destroyed (sys_pipe s) \<Longrightarrow> destroyed (sys_pipe (tcp_step sd s (e, v)))"
proof (cases v)
  case (EvConnect h pt b)
  assume "destroyed (sys_pipe s)"
  then show ?thesis by (simp add: EvConnect tcp_step_def tcp_connect_def)
qed (simp_all add: tcp_step_def Let_def)

lemma u_destroyed_stays [simp]:
  "u_destroyed p \<Longrightarrow> u_destroyed (udp_recv_cb e sd n buf a partial p)"
  "u_destroyed p \<Longrightarrow> u_destroyed (udp_on_stream_data e sd data p)"
  "u_destroyed p \<Longrightarrow> u_destroyed (udp_on_stream_close sd p)"
  "u_destroyed p \<Longrightarrow> u_destroyed (udp_closed_cb sd p)"
  "u_destroyed p \<Longrightarrow> u_destroyed (fst (udp_start e sd h pt p))"
  by (simp_all add: udp_recv_cb_def udp_on_stream_data_def udp_on_stream_close_def udp_closed_cb_def
      udp_fire_def uemit_def udp_start_def Let_def)

lemma dead_udp_step: "u_destroyed p \<Longrightarrow> u_destroyed (udp_step sd p (e, v))"
  by (cases v) (simp_all add: udp_step_def)

lemma dead_map [simp]: "bridge_dead (map_conn f b) = bridge_dead b"
  by (cases b) (simp_all add: map_conn_def bridge_dead_def)

lemma dead_fire: "bridge_dead b \<Longrightarrow> bridge_dead (fire_drain e n b)"
  by (cases b) (simp_all add: fire_drain_def bridge_dead_def dead_tcp_step)

lemma dead_fold: "bridge_dead b \<Longrightarrow> bridge_dead (fold (fire_drain e) ns b)"
  by (induction ns arbitrary: b) (simp_all add: dead_fire)

lemma dead_step: "bridge_dead b \<Longrightarrow> bridge_dead (conn_step b (e, v))"
proof -
  assume d: "bridge_dead b"
  have c: "bridge_dead (stream_close_cb e b)"
    using d by (cases b) (simp_all add: stream_close_cb_def map_conn_def bridge_dead_def dead_tcp_step dead_udp_step Let_def)
  show ?thesis
  proof (cases v)
    case ConnOpen
    then show ?thesis using d by (simp add: conn_step_def stream_open_cb_def Let_def dead_fold)
  next
    case ConnClose
    then show ?thesis using c by (simp add: conn_step_def)
  next
    case (ConnDrain n)
    then show ?thesis using d by (simp add: conn_step_def drain_cb_def dead_fire)
  qed (use d in \<open>cases b; simp add: conn_step_def stream_data_cb_def bridge_destroy_def bridge_dead_def
      dead_tcp_step dead_udp_step\<close>)+
qed

lemma core_stream: "conn_core c = conn_core c' \<Longrightarrow> co_stream c = co_stream c'"
  by (simp add: conn_core_def)

lemma side_write_stream [simp]: "co_stream (fst (side_write rc c d n)) = co_stream c"
  by (auto simp: side_write_def scalled_def Let_def split: option.split)

text \<open>The stream pointer is cleared by the close callback and by nothing else.\<close>

lemma tcp_step_stream:
  assumes "tcp_owned (sys_pipe s)" and "v \<noteq> EvAdopt"
  shows "co_stream (side_st (sys_pipe (tcp_step (make_side rc) s (e, v)))) = co_stream (side_st (sys_pipe s))"
proof -
  have r: "side_core q = side_core (sys_pipe s) \<Longrightarrow> co_stream (side_st q) = co_stream (side_st (sys_pipe s))" for q
    by (simp add: side_core_def conn_core_def)
  show ?thesis
  proof (cases v)
    case (EvConnect h pt b)
    obtain q k where c: "tcp_connect e (make_side rc) h pt b (sys_pipe s) = (q, k)"
      by (cases "tcp_connect e (make_side rc) h pt b (sys_pipe s)")
    then have "side_core q = side_core (sys_pipe s)"
      using owned_events(13) [of e rc h pt b "sys_pipe s"] by simp
    then have "co_stream (side_st q) = co_stream (side_st (sys_pipe s))" by (rule r)
    then show ?thesis using EvConnect c by (simp add: tcp_step_def)
  next
    case (EvRead n buf)
    show ?thesis
    proof (cases "write_accepted (make_side rc) n buf (sys_pipe s)")
      case True
      from owned_read(2) [OF assms(1) True, of e] show ?thesis
        by (simp add: EvRead tcp_step_def side_core_def conn_core_def Let_def)
    next
      case False
      from owned_read(3) [OF assms(1) False, of e] show ?thesis
        by (simp add: EvRead tcp_step_def side_core_def conn_core_def Let_def)
    qed
  qed ((use assms(2) in \<open>simp; fail\<close>) | (rule r; simp add: tcp_step_def Let_def))+
qed

lemma udp_step_stream: "co_stream (u_side (udp_step (make_side rc) p (e, v))) = co_stream (u_side p)"
proof -
  have d: "co_stream (u_side (udp_destroy (make_side rc) q)) = co_stream (u_side q)" for q
    by (rule core_stream) (rule udp_destroy_core)
  have m: "u_side (uemit a q) = u_side q" for a and q :: "srv_conn udp_pipe" by (simp add: uemit_def)
  show ?thesis
  proof (cases v)
    case (UEvRecv n buf a partial)
    obtain st k where "side_write rc (u_side p) (frame (take (nat n) buf)) None = (st, k)"
      by (cases "side_write rc (u_side p) (frame (take (nat n) buf)) None")
    moreover from this have "co_stream st = co_stream (u_side p)" by (metis fst_conv side_write_stream)
    ultimately show ?thesis by (simp add: UEvRecv udp_step_def udp_recv_cb_def d m Let_def)
  qed (simp_all add: udp_step_def udp_start_def udp_on_stream_data_def udp_on_stream_close_def
      udp_closed_cb_def udp_fire_def d m Let_def split: prod.split)
qed

lemma conn_step_stream:
  assumes inv: "conn_inv b" and no: "\<not> co_stream (conn_of b)" and en: "conn_enabled b (e, v)"
  shows "\<not> co_stream (conn_of (conn_step b (e, v)))"
proof (cases b)
  case (TcpBridge s)
  have own: "tcp_owned (sys_pipe s)" using inv TcpBridge by (simp add: conn_inv_def tcp_bridge_inv_def Let_def)
  show ?thesis
    using no en TcpBridge tcp_step_stream [OF own]
    by (cases v) (auto simp: conn_step_def conn_enabled_def conn_of_def bridge_destroy_def loop_tcp_def Let_def
        split: tcp_event.splits)
next
  case (UdpBridge p)
  then show ?thesis
    using no en
    by (cases v) (simp_all add: conn_step_def conn_enabled_def conn_of_def bridge_destroy_def udp_step_stream Let_def)
qed

lemma bridge_settled_step:
  "conn_inv b \<Longrightarrow> conn_enabled b (e, v) \<Longrightarrow> settled b \<Longrightarrow> settled (conn_step b (e, v))"
  unfolding settled_def using dead_step conn_step_stream by blast

lemma bridge_settled_destroy: "conn_alive (conn_of b) \<Longrightarrow> settled (conn_step b (e, ConnDestroy))"
  by (cases b) (simp_all add: settled_def conn_step_def bridge_destroy_def bridge_dead_def tcp_step_def udp_step_def)

lemma settled_expired: "conn_inv b \<Longrightarrow> \<not> conn_alive (conn_of b) \<Longrightarrow> settled b"
  using freed_idle by (simp add: settled_def)

lemma conn_reachable_begin_accept: "conn_reachable (accept_bridge e u h pt)"
  by (rule conn_reachable_begin) (auto simp: conn_begin_def)

lemma update_keeps: "(k, i) \<in> set xs \<Longrightarrow> k \<noteq> st \<Longrightarrow> (k, i) \<in> set (AList.update st v xs)"
  by (induction xs) auto

lemma update_adds: "(st, v) \<in> set (AList.update st v xs)"
  by (induction xs) auto

text \<open>The destroy loop: nothing leaves the heap, and what it visits is settled.\<close>

lemma destroy_conns:
  fixes e :: conn_env and cs :: "(nat \<times> nat) list"
  assumes "\<forall>i b. h i = Some b \<longrightarrow> conn_reachable b"
  defines "h' \<equiv> fold (\<lambda>kv. destroy_conn e (snd kv)) cs h"
  shows "dom h' = dom h \<and> (\<forall>i b. h' i = Some b \<longrightarrow> conn_reachable b) \<and>
    (\<forall>i b b'. h i = Some b \<longrightarrow> h' i = Some b' \<longrightarrow> settled b \<or> i \<in> snd ` set cs \<longrightarrow> settled b')"
  using assms(1) unfolding h'_def
proof (induction cs arbitrary: h)
  case Nil
  then show ?case by auto
next
  case (Cons kv cs)
  let ?i = "snd kv" and ?h = "destroy_conn e (snd kv) h"
  have step: "?h i = (if i = ?i then (case h i of None \<Rightarrow> None
      | Some b \<Rightarrow> Some (if conn_alive (conn_of b) then conn_step b (e, ConnDestroy) else b)) else h i)" for i
    by (auto simp: destroy_conn_def split: option.splits)
  have en: "conn_enabled b (e, ConnDestroy)" if "conn_alive (conn_of b)" for b
    using that by (simp add: conn_enabled_def Let_def)
  have reach: "\<forall>i b. ?h i = Some b \<longrightarrow> conn_reachable b"
    using Cons.prems en conn_reachable_step by (auto simp: step split: option.splits if_splits)
  have dom: "dom ?h = dom h" by (auto simp: step split: option.splits if_splits)
  have inv: "conn_inv b" if "h i = Some b" for i b
    using Cons.prems that conn_reachable_inv by blast
  have set: "settled b'" if "h i = Some b" "?h i = Some b'" "settled b \<or> i = ?i" for i b b'
    using that inv [OF that(1)] en bridge_settled_step bridge_settled_destroy settled_expired
    by (auto simp: step split: if_splits)
  note IH = Cons.IH [OF reach]
  show ?case
  proof (intro conjI)
    show "dom (fold (\<lambda>kv. destroy_conn e (snd kv)) (kv # cs) h) = dom h" using IH dom by simp
    show "\<forall>i b. fold (\<lambda>kv. destroy_conn e (snd kv)) (kv # cs) h i = Some b \<longrightarrow> conn_reachable b"
      using IH by simp
    show "\<forall>i b b'. h i = Some b \<longrightarrow> fold (\<lambda>kv. destroy_conn e (snd kv)) (kv # cs) h i = Some b' \<longrightarrow>
        settled b \<or> i \<in> snd ` set (kv # cs) \<longrightarrow> settled b'"
    proof (intro allI impI)
      fix i b b'
      assume b: "h i = Some b" and b': "fold (\<lambda>kv. destroy_conn e (snd kv)) (kv # cs) h i = Some b'"
        and s: "settled b \<or> i \<in> snd ` set (kv # cs)"
      obtain c where c: "?h i = Some c" using dom b by (metis domD domI)
      have "settled c \<or> i \<in> snd ` set cs" using set [OF b c] s by auto
      then show "settled b'" using IH c b' by (simp only: fold.simps o_apply)
    qed
  qed
qed

lemma server_inv_destroy: "server_inv s \<Longrightarrow> server_inv (server_destroy e s)"
proof -
  assume inv: "server_inv s"
  let ?h = "fold (\<lambda>kv. destroy_conn (ve_conn e) (snd kv)) (sv_conns s) (sv_heap s)"
  have "\<forall>i b. sv_heap s i = Some b \<longrightarrow> conn_reachable b" using inv by (simp add: server_inv_def)
  note d = destroy_conns [OF this, of "ve_conn e" "sv_conns s"]
  have n: "i < sv_next s" and st: "settled b" if "?h i = Some b" for i b
  proof -
    from that d obtain c where c: "sv_heap s i = Some c" by blast
    then show "i < sv_next s" using inv by (simp add: server_inv_def)
    have "settled c \<or> i \<in> snd ` set (sv_conns s)" using inv c by (simp add: server_inv_def)
    then show "settled b" using d c that by blast
  qed
  have fields: "sv_heap (server_destroy e s) = ?h" "sv_conns (server_destroy e s) = []"
    "\<not> sv_refresh (server_destroy e s)" "sv_next (server_destroy e s) = sv_next s"
    by (simp_all add: server_destroy_def Let_def)
  show ?thesis
    unfolding server_inv_def fields using d n st fields(3) by simp
qed

lemma server_inv_connection:
  assumes inv: "server_inv s" and en: "server_enabled s (e, SvConnection c stream)"
  shows "server_inv (connection_cb e c stream s)"
proof (cases "c = None \<or> \<not> sv_srv s")
  case True
  then show ?thesis using inv by (auto simp: connection_cb_def split: option.splits)
next
  case False
  then obtain remote where c: "c = Some remote" and srv: "sv_srv s" by auto
  let ?cs = "filter (\<lambda>kv. \<not> expired (sv_heap s) (snd kv)) (sv_conns s)"
  have keep: "settled b \<or> i \<in> snd ` set ?cs" if "sv_heap s i = Some b" for i b
  proof (cases "conn_alive (conn_of b)")
    case True
    then have "settled b \<or> i \<in> snd ` set (sv_conns s)" using inv that by (simp add: server_inv_def)
    then show ?thesis using that True by (force simp: expired_def)
  next
    case False
    then show ?thesis
      using inv that settled_expired conn_reachable_inv by (simp add: server_inv_def)
  qed
  show ?thesis
  proof (cases stream)
    case None
    then show ?thesis
      using inv keep c srv by (simp add: connection_cb_def server_inv_def Let_def)
  next
    case (Some st)
    let ?new = "accept_bridge (ve_conn e) (cf_udp (sv_config s)) (cf_host (sv_config s)) (cf_port (sv_config s))"
    have "settled b \<or> i \<in> snd ` set (AList.update st (sv_next s) ?cs)" if b: "sv_heap s i = Some b" for i b
    proof (cases "settled b")
      case ns: False
      then obtain k where k: "(k, i) \<in> set ?cs" using keep [OF b] by force
      have "k \<noteq> st"
      proof
        assume "k = st"
        then have "\<not> co_stream (conn_of b)"
          using en k b Some by (auto simp: server_enabled_def list_all_iff)
        then show False using ns by (simp add: settled_def)
      qed
      then have "(k, i) \<in> set (AList.update st (sv_next s) ?cs)"
        using k by (intro update_keeps)
      then show ?thesis by force
    qed simp
    moreover have "sv_next s \<in> snd ` set (AList.update st (sv_next s) ?cs)"
      using update_adds by force
    ultimately show ?thesis
      using inv c srv Some conn_reachable_begin_accept
      by (auto simp: connection_cb_def server_inv_def Let_def less_Suc_eq)
  qed
qed

lemma server_inv_bridge:
  assumes inv: "server_inv s" and b: "sv_heap s i = Some b" and en: "conn_enabled b (e, v)"
  shows "server_inv (s\<lparr>sv_heap := (sv_heap s)(i \<mapsto> conn_step b (e, v))\<rparr>)"
proof -
  have r: "conn_reachable b" "i < sv_next s" "settled b \<or> i \<in> snd ` set (sv_conns s)"
    using inv b by (simp_all add: server_inv_def)
  then have "conn_reachable (conn_step b (e, v))" "settled b \<Longrightarrow> settled (conn_step b (e, v))"
    using en by (auto intro: conn_reachable_step bridge_settled_step conn_reachable_inv)
  then show ?thesis using inv r by (auto simp: server_inv_def)
qed

lemma server_inv_start: "server_inv s \<Longrightarrow> server_inv (fst (server_start e b s))"
proof -
  assume inv: "server_inv s"
  have "server_inv (t\<lparr>sv_srv := True\<rparr>)" if "server_inv t" for t using that by (simp add: server_inv_def)
  moreover have "server_inv (t\<lparr>sv_refresh := True\<rparr>)" if "server_inv t" "sv_srv t" for t
    using that by (simp add: server_inv_def)
  ultimately show ?thesis using inv by (simp add: server_start_def Let_def)
qed

lemma server_inv_step:
  assumes inv: "server_inv s" and en: "server_enabled s (e, v)"
  shows "server_inv (server_step s (e, v))"
proof (cases v)
  case (SvConnection c stream)
  then show ?thesis using server_inv_connection [OF inv] en by (simp add: server_step_def)
next
  case (SvBridge i cev)
  then show ?thesis
    using server_inv_bridge [OF inv] en
    by (auto simp: server_step_def server_enabled_def split: option.splits)
qed (use inv in \<open>simp_all add: server_step_def server_inv_start server_inv_destroy listening_cb_def
    server_pause_def server_resume_def refresh_cb_def get_done_cb_def Let_def\<close>)

interpretation server_machine: machine server_step server_enabled server_begin server_inv
  by unfold_locales (rule server_inv_begin, assumption, metis server_inv_step surj_pair)

definition server_reachable :: "server \<Rightarrow> bool" where
  "server_reachable = machine.reach server_step server_enabled server_begin"

lemma server_reachable_begin: "server_begin s \<Longrightarrow> server_reachable s"
  unfolding server_reachable_def by (rule server_machine.reach_start)

lemma server_reachable_step: "server_reachable s \<Longrightarrow> server_enabled s ev \<Longrightarrow> server_reachable (server_step s ev)"
  unfolding server_reachable_def by (rule server_machine.reach_step)

lemma server_reachable_inv: "server_reachable s \<Longrightarrow> server_inv s"
  unfolding server_reachable_def by (rule server_machine.reach_inv)

text \<open>Teardown is idempotent.\<close>

definition server_down :: "server \<Rightarrow> bool" where
  "server_down s \<longleftrightarrow> \<not> sv_refresh s \<and> sv_conns s = [] \<and> \<not> sv_srv s \<and> sv_state s = ''destroyed''"

lemma server_destroy_down: "server_down (server_destroy e s)"
  by (simp add: server_destroy_def server_down_def Let_def)

interpretation server_teardown: teardown "server_destroy e" server_down
  by unfold_locales (rule server_destroy_down, simp add: server_destroy_def server_down_def)

section \<open>Properties\<close>


text \<open>A toy instance of the primitives, of the documented sizes.\<close>

definition demo_crypto :: hs_crypto where
  "demo_crypto = \<lparr>c_sha256 = (\<lambda>x. take 32 (x @ replicate 32 0)), c_keypair = (\<lambda>x. (take 32 (map not x @ replicate 32 1), x))\<rparr>"

lemma demo_crypto_law: "crypto_law demo_crypto"
  by (auto simp: crypto_law_def demo_crypto_def min_def)

definition demo_config :: "bool \<Rightarrow> config" where
  "demo_config sec = \<lparr>cf_port = 22, cf_host = ''127.0.0.1'', cf_seed_hex = to_hex (replicate 32 7), cf_secure = sec, cf_udp = False\<rparr>"

lemma demo_seed: "from_hex (to_hex bs) = Some bs" "to_hex (replicate 32 7) \<noteq> []"
  by (rule from_hex_to_hex) (simp add: to_hex_def)

lemma demo_server_new: "\<exists>s. server_new demo_crypto [] True (demo_config sec) = Inr s"
  by (simp add: server_new_def demo_config_def demo_seed)

definition demo_server :: "bool \<Rightarrow> server" where
  "demo_server sec = (case server_new demo_crypto [] True (demo_config sec) of Inr s \<Rightarrow> s)"

lemma demo_server_Inr: "server_new demo_crypto [] True (demo_config sec) = Inr (demo_server sec)"
  using demo_server_new [of sec] by (auto simp: demo_server_def)


text \<open>
  A seed that is not 64 hexadecimal digits is refused: the constructor throws and builds
  nothing.
\<close>

theorem server_bad_seed:
  assumes "cf_seed_hex cfg \<noteq> []" and "length (cf_seed_hex cfg) \<noteq> 64 \<or> (\<exists>c \<in> set (cf_seed_hex cfg). nibble_of c < 0)"
  shows "server_new cr rnd dht cfg = Inl ''seed must be 64 hex characters''"
proof -
  have "from_hex (cf_seed_hex cfg) = None \<or> (\<exists>b. from_hex (cf_seed_hex cfg) = Some b \<and> length b \<noteq> 32)"
  proof (cases "from_hex (cf_seed_hex cfg)")
    case (Some b)
    then have "to_hex b = map hex_lower (cf_seed_hex cfg)" by (rule to_hex_from_hex)
    then have "length (cf_seed_hex cfg) = 2 * length b" by (metis length_map length_to_hex)
    moreover have "even (length (cf_seed_hex cfg))" "from_hex_loop [] (cf_seed_hex cfg) \<noteq> None"
      using Some by (auto simp: from_hex_def even_iff_mod_2_eq_zero split: if_splits)
    then have "\<not> (\<exists>c \<in> set (cf_seed_hex cfg). nibble_of c < 0)"
      using from_hex_loop_None_iff [of "cf_seed_hex cfg" "[]"] by simp
    ultimately show ?thesis using assms(2) Some by force
  qed simp
  then show ?thesis using assms(1) by (auto simp: server_new_def)
qed

theorem server_bad_seed_witness:
  "server_new demo_crypto [] True (demo_config True\<lparr>cf_seed_hex := ''xyz''\<rparr>) = Inl ''seed must be 64 hex characters''"
  by (rule server_bad_seed) simp_all

text \<open>
  C11: Access control. The firewall accepts a peer exactly when it presents the server's own
  public key; and when \<^verbatim>\<open>start\<close> listens, it listens once, on that key, and has asked for the
  firewall before if and only if the server is private.
\<close>

theorem server_access_control:
  assumes "sv_dht s" and "\<not> sv_srv s" and "ve_create e"
  shows "(firewall_cb pk s = 0 \<longleftrightarrow> pk = Some (sv_pk s)) \<and>
   (\<exists>pre post. sv_acts (fst (server_start e b s)) = sv_acts s @ pre @ DListen (sv_pk s) # post \<and>
      (DFirewall \<in> set pre \<longleftrightarrow> cf_secure (sv_config s)) \<and> DFirewall \<notin> set post \<and>
      (\<forall>k. DListen k \<notin> set (pre @ post)))"
proof -
  have fw: "firewall_cb pk s = 0 \<longleftrightarrow> pk = Some (sv_pk s)"
    by (auto simp: firewall_cb_def split: option.splits)
  define pre where "pre = DCreate # (if cf_secure (sv_config s) then [DFirewall, DLog Info ''Using Private Mode'']
    else [DLog Info ''Using Public Mode'']) @ [DReusable, DOnListening]"
  obtain post where "sv_acts (fst (server_start e b s)) = sv_acts s @ pre @ DListen (sv_pk s) # post"
    "DFirewall \<notin> set post" "\<forall>k. DListen k \<notin> set post"
  proof (cases "ve_listen e < 0")
    case True
    then show ?thesis
      using assms that [of "[DLog Error ''Server listen failed'']"]
      by (simp add: server_start_def pre_def Let_def split: if_split_asm)
  next
    case False
    let ?r = "encode_record (cf_host (sv_config s)) (if cf_udp (sv_config s) then Some True else None)
      (cf_port (sv_config s))"
    show ?thesis
      using assms False that [of "[DLog Debug (''Initializing DHT with host info: '' @ ?r), DGet (sv_pk s)] @
        (if ve_get e < 0 then [DLog Warn ''Could not read the existing DHT record''] else []) @
        [DTimerStart kRefreshIntervalMs]"]
      by (cases "cf_secure (sv_config s)") (simp_all add: server_start_def pre_def Let_def)
  qed
  moreover have "\<And>k. DListen k \<notin> set pre" "DFirewall \<in> set pre \<longleftrightarrow> cf_secure (sv_config s)"
    by (auto simp: pre_def)
  ultimately show ?thesis using fw by (intro conjI exI [of _ pre] exI [of _ post]) simp_all
qed

definition demo_server_env :: server_env where
  "demo_server_env = \<lparr>ve_create = True, ve_listen = 0, ve_get = 0, ve_conn = demo_conn_env\<rparr>"

theorem server_access_control_witness:
  "firewall_cb (Some [1]) (demo_server True) \<noteq> 0 \<and>
   (\<exists>pre post. sv_acts (fst (server_start demo_server_env True (demo_server True))) =
      sv_acts (demo_server True) @ pre @ DListen (sv_pk (demo_server True)) # post \<and> DFirewall \<in> set pre)"
proof -
  note f = server_new_Inr [OF demo_server_Inr [of True]]
  have "length (sv_pk (demo_server True)) = 32" using f(3) demo_crypto_law by (simp add: crypto_law_def)
  then have "length [1 :: byte] \<noteq> length (sv_pk (demo_server True))" by simp
  then have "[1] \<noteq> sv_pk (demo_server True)" by metis
  moreover have "cf_secure (sv_config (demo_server True))" by (simp add: f(4) seeded_def demo_config_def)
  moreover have "sv_dht (demo_server True)" "\<not> sv_srv (demo_server True)" "ve_create demo_server_env"
    using f by (simp_all add: demo_server_env_def)
  ultimately show ?thesis
    using server_access_control [of "demo_server True" demo_server_env "Some [1]" True] by auto
qed

text \<open>
  C20: The sequence rule. When the query for the existing record is done, the record is put
  with sequence number 0 if no reply carried a value; otherwise with the highest sequence
  number among the replies if the value kept for it is the record itself, and with that
  number plus one (modulo 2 to the 64) if not.
\<close>

theorem server_seq_rule:
  defines "ctx \<equiv> foldl get_value_cb new_get_ctx"
  shows "\<exists>l q. sv_acts (get_done_cb True (ctx rs) s) = sv_acts s @ [l, DPut (sv_pk s) (sv_record s) q] \<and>
    (replies_of rs = [] \<longrightarrow> q = 0) \<and>
    (replies_of rs \<noteq> [] \<longrightarrow> (\<exists>m v. (m, v) \<in> set (replies_of rs) \<and> (\<forall>(m', v') \<in> set (replies_of rs). m' \<le> m) \<and>
       q = (if v = sv_record s then m else m + 1)))"
proof -
  let ?q = "next_seq (gc_had (ctx rs)) (gc_seq (ctx rs)) (gc_value (ctx rs) = sv_record s)"
  have acts: "\<exists>l. sv_acts (get_done_cb True (ctx rs) s) = sv_acts s @ [l, DPut (sv_pk s) (sv_record s) ?q]"
    by (simp add: get_done_cb_def Let_def)
  have c: "case get_best (ctx rs) of None \<Rightarrow> replies_of rs = []
     | Some (q, v) \<Rightarrow> (q, v) \<in> set (replies_of rs) \<and> (\<forall>(q', v') \<in> set (replies_of rs). q' \<le> q)"
    unfolding ctx_def by (rule get_ctx_cases)
  show ?thesis
  proof (cases "gc_had (ctx rs)")
    case False
    then have "?q = 0" "replies_of rs = []" using c by (simp_all add: next_seq_def get_best_def)
    then show ?thesis using acts by auto
  next
    case True
    then have m: "(gc_seq (ctx rs), gc_value (ctx rs)) \<in> set (replies_of rs)"
      "\<forall>(m', v') \<in> set (replies_of rs). m' \<le> gc_seq (ctx rs)"
      using c by (simp_all add: get_best_def)
    have q: "?q = (if gc_value (ctx rs) = sv_record s then gc_seq (ctx rs) else gc_seq (ctx rs) + 1)"
      using True by (simp add: next_seq_def)
    obtain l where "sv_acts (get_done_cb True (ctx rs) s) = sv_acts s @ [l, DPut (sv_pk s) (sv_record s) ?q]"
      using acts by blast
    moreover have "replies_of rs \<noteq> []" using m(1) by auto
    ultimately show ?thesis using m q by blast
  qed
qed

theorem server_seq_rule_witness:
  "\<exists>l. sv_acts (get_done_cb True (foldl get_value_cb new_get_ctx
       [(5, Some [97]), (7, Some [98]), (6, Some [99]), (9, None)]) (demo_server True)) =
     sv_acts (demo_server True) @ [l, DPut (sv_pk (demo_server True)) (sv_record (demo_server True)) 8]"
proof -
  let ?rs = "[(5, Some [97]), (7, Some [98]), (6, Some [99]), (9, None)] :: (u64 \<times> byte list option) list"
  have r: "replies_of ?rs = [(5, string_of_bytes [97]), (7, string_of_bytes [98]), (6, string_of_bytes [99])]"
    by (simp add: replies_of_def)
  have n: "sv_record (demo_server True) = []" using server_new_Inr(10) [OF demo_server_Inr [of True]] .
  obtain l q where a: "sv_acts (get_done_cb True (foldl get_value_cb new_get_ctx ?rs) (demo_server True)) =
      sv_acts (demo_server True) @ [l, DPut (sv_pk (demo_server True)) (sv_record (demo_server True)) q]"
    and "replies_of ?rs \<noteq> [] \<longrightarrow> (\<exists>m v. (m, v) \<in> set (replies_of ?rs) \<and>
       (\<forall>(m', v') \<in> set (replies_of ?rs). m' \<le> m) \<and> q = (if v = sv_record (demo_server True) then m else m + 1))"
    using server_seq_rule [of ?rs "demo_server True"] by blast
  then have "q = 8" by (auto simp: r n string_of_bytes_def)
  then show ?thesis using a by auto
qed

text \<open>
  C18: Teardown of a server, in any reachable state: afterwards there is no refresh timer, no
  DHT server and nothing in the connection map, each is asked for exactly once and only if it
  existed; every connection ever accepted whose stream is still open has its pipe destroyed,
  also one whose map entry a later stream at the same address has replaced; and a second
  \<^verbatim>\<open>destroy\<close> does nothing.
\<close>

theorem server_teardown_complete:
  fixes e e' :: server_env
  assumes "server_reachable s"
  defines "t \<equiv> server_destroy e s"
  shows "server_down t \<and> (\<forall>i b. sv_heap t i = Some b \<longrightarrow> bridge_dead b \<or> \<not> co_stream (conn_of b)) \<and>
    sv_acts t = sv_acts s @ (if sv_refresh s then [DTimerStop] else []) @ (if sv_srv s then [DClose] else []) \<and>
    server_destroy e' t = t"
proof -
  have down: "server_down t" unfolding t_def by (rule server_destroy_down)
  have "server_inv t" unfolding t_def by (rule server_inv_destroy [OF server_reachable_inv [OF assms(1)]])
  then have "\<forall>i b. sv_heap t i = Some b \<longrightarrow> settled b" using down by (simp add: server_inv_def server_down_def)
  moreover have "sv_acts t = sv_acts s @ (if sv_refresh s then [DTimerStop] else []) @ (if sv_srv s then [DClose] else [])"
    by (simp add: t_def server_destroy_def Let_def)
  ultimately show ?thesis
    using down server_teardown.dead_fixed [OF down] by (simp add: settled_def)
qed

lemma demo_server_reachable: "server_reachable (demo_server sec)"
  by (rule server_reachable_begin) (unfold server_begin_def, blast intro: demo_server_Inr)

theorem server_teardown_complete_witness:
  defines "s \<equiv> server_step (server_step (demo_server True) (demo_server_env, SvStart True))
     (demo_server_env, SvConnection (Some [1]) (Some 100))"
  shows "server_reachable s \<and> sv_srv s \<and> sv_heap s 0 \<noteq> None \<and> server_down (server_destroy demo_server_env s)"
proof -
  note f = server_new_Inr [OF demo_server_Inr [of True]]
  let ?s1 = "server_step (demo_server True) (demo_server_env, SvStart True)"
  have "server_reachable ?s1"
    by (intro server_reachable_step demo_server_reachable) (simp add: server_enabled_def)
  moreover have s1: "sv_conns ?s1 = []" "sv_srv ?s1" "sv_next ?s1 = sv_next (demo_server True)"
    by (cases "cf_secure (sv_config (demo_server True))";
      simp add: server_step_def server_start_def demo_server_env_def f(5,6,8) server_publish_def Let_def)+
  ultimately have r: "server_reachable s"
    unfolding s_def by (elim server_reachable_step) (simp add: server_enabled_def)
  have "sv_next (demo_server True) = 0"
    by (rule f(12))
  then have "sv_srv s \<and> sv_heap s 0 \<noteq> None"
    using s1 by (simp add: s_def server_step_def [of ?s1] connection_cb_def Let_def)
  then show ?thesis using r server_teardown_complete [OF r, where e = demo_server_env and e' = demo_server_env] by simp
qed

end
