(* ===== verification/Hs_Pipe_Owner.thy ===== *)
theory Hs_Pipe_Owner
  imports Hs_Pipe
begin

text \<open>
  What a TCP pipe does to the state of its owner. A pipe touches that state only through the
  closures of its stream side and through the destroy callback, so a relation that each of
  them respects is respected by every event of the pipe, and an owner that notes the destroy
  callback knows exactly whether it has run. The interface is the locale \<open>pipe_owner\<close>; the
  server's and the client's connections interpret it.
\<close>

section \<open>The interface\<close>

text \<open>
  \<open>rel\<close> relates the state before and after; \<open>told\<close> reads the owner's note that the pipe is
  gone.
\<close>

locale pipe_owner =
  fixes sd :: "'s pipe_side" and rel :: "'s \<Rightarrow> 's \<Rightarrow> bool" and told :: "'s \<Rightarrow> bool"
  assumes rel_refl: "rel st st"
    and rel_trans: "rel st st1 \<Longrightarrow> rel st1 st2 \<Longrightarrow> rel st st2"
    and on_pause: "rel st (call (ss_pause sd) st)" "told (call (ss_pause sd) st) = told st"
    and on_resume: "rel st (call (ss_resume sd) st)" "told (call (ss_resume sd) st) = told st"
    and on_close: "rel st (call (ss_close sd) st)" "told (call (ss_close sd) st) = told st"
    and on_write: "ss_write sd = Some w \<Longrightarrow> rel st (fst (w st data n))"
      "ss_write sd = Some w \<Longrightarrow> told (fst (w st data n)) = told st"
    and on_gone: "rel st (on_destroy_cb sd st)" "told (on_destroy_cb sd st)"
begin

definition owned :: "'s tcp_pipe \<Rightarrow> bool" where
  "owned p \<longleftrightarrow> (told (side_st p) \<longleftrightarrow> \<not> has_on_destroy p) \<and>
     (has_on_destroy p \<or> ADestroyed \<in> set (acts p))"

text \<open>One operation on the pipe, seen from the owner: \<open>moves p p'\<close>.\<close>

definition moves :: "'s tcp_pipe \<Rightarrow> 's tcp_pipe \<Rightarrow> bool" where
  "moves p p' \<longleftrightarrow> rel (side_st p) (side_st p') \<and> (owned p \<longrightarrow> owned p')"

lemma moves_refl [simp, intro]: "moves p p"
  by (simp add: moves_def rel_refl)

lemma moves_trans [trans]: "moves p p1 \<Longrightarrow> moves p1 p2 \<Longrightarrow> moves p p2"
  by (auto simp: moves_def intro: rel_trans)

text \<open>An update of the pipe's own fields is no move at all.\<close>

lemma moves_same: "side_st p' = side_st p \<Longrightarrow> has_on_destroy p' = has_on_destroy p \<Longrightarrow>
    set (acts p) \<subseteq> set (acts p') \<Longrightarrow> moves p p'"
  by (auto simp: moves_def owned_def rel_refl)

lemma moves_call:
  assumes "rel (side_st p) (call f (side_st p))" and "told (call f (side_st p)) = told (side_st p)"
  shows "moves p (on_side f p)"
  using assms by (simp add: moves_def owned_def on_side_def)

lemma moves_closures: "moves p (on_side (ss_pause sd) p)" "moves p (on_side (ss_resume sd) p)"
  "moves p (on_side (ss_close sd) p)"
  by (rule moves_call; rule on_pause on_resume on_close)+

lemma moves_emit: "moves p (emit a p)"
  by (rule moves_same) (auto simp: emit_def)

lemma moves_reading: "moves p (start_reading e p)" "moves p (stop_reading p)" "moves p (resume_reading e p)"
  "moves p (call_on_ready rc p)"
  by (rule moves_same; simp add: pipe_defs; blast)+

lemma moves_fire: "moves p (fire_on_destroy sd p)"
  using on_gone [of "side_st p"]
  by (simp add: moves_def owned_def fire_on_destroy_def on_side_def emit_def call_def rel_refl)

text \<open>A later move composes with an earlier one.\<close>

lemma moves_then:
  "moves p p1 \<Longrightarrow> moves p (emit a p1)" "moves p p1 \<Longrightarrow> moves p (start_reading e p1)"
  "moves p p1 \<Longrightarrow> moves p (stop_reading p1)" "moves p p1 \<Longrightarrow> moves p (resume_reading e p1)"
  "moves p p1 \<Longrightarrow> moves p (call_on_ready rc p1)" "moves p p1 \<Longrightarrow> moves p (fire_on_destroy sd p1)"
  "moves p p1 \<Longrightarrow> moves p (on_side (ss_pause sd) p1)" "moves p p1 \<Longrightarrow> moves p (on_side (ss_resume sd) p1)"
  "moves p p1 \<Longrightarrow> moves p (on_side (ss_close sd) p1)"
  by (erule moves_trans, rule moves_emit moves_reading moves_fire moves_closures)+

lemma moves_fields:
  "moves p (p1\<lparr>pending_bytes := n\<rparr>) = moves p p1" "moves p (p1\<lparr>stream_pending_bytes := n\<rparr>) = moves p p1"
  "moves p (p1\<lparr>inflight_writes := i\<rparr>) = moves p p1" "moves p (p1\<lparr>stream_paused := b\<rparr>) = moves p p1"
  "moves p (p1\<lparr>stream_closed := b\<rparr>) = moves p p1" "moves p (p1\<lparr>closing := b\<rparr>) = moves p p1"
  "moves p (p1\<lparr>destroyed := b\<rparr>) = moves p p1" "moves p (p1\<lparr>tcp := h\<rparr>) = moves p p1"
  "moves p (p1\<lparr>has_on_ready := b\<rparr>) = moves p p1"
  by (simp_all add: moves_def owned_def)

lemma moves_destroy: "moves p (tcp_destroy sd p)"
  by (simp add: tcp_destroy_def Let_def moves_fields moves_then)

lemma moves_then_destroy: "moves p p1 \<Longrightarrow> moves p (tcp_destroy sd p1)"
  by (erule moves_trans) (rule moves_destroy)

lemmas moves_rules = moves_fields moves_then moves_then_destroy

section \<open>Every event\<close>

lemma moves_read: "moves p (read_cb e sd nread buf p)"
proof (cases "ss_write sd")
  case None
  then show ?thesis by (simp add: read_cb_def Let_def moves_rules)
next
  case (Some w)
  obtain st rc where r: "w (side_st p) (take (nat nread) buf) (Some (nat nread)) = (st, rc)"
    by (cases "w (side_st p) (take (nat nread) buf) (Some (nat nread))")
  have "moves p (p\<lparr>stream_pending_bytes := n, side_st := st\<rparr>)" "moves p (p\<lparr>side_st := st\<rparr>)" for n
    using on_write [OF Some, of "side_st p" "take (nat nread) buf" "Some (nat nread)"]
    by (simp_all add: moves_def owned_def r)
  then show ?thesis by (simp add: read_cb_def Let_def Some r moves_rules)
qed

lemma moves_events:
  "moves p (fst (adopt e b p))" "moves p (tcp_connect_cb e sd status p)"
  "moves p (tcp_on_stream_data e sd data p)" "moves p (write_cb sd n status p)"
  "moves p (drained e n p)" "moves p (tcp_on_stream_close sd p)" "moves p (closed_cb sd p)"
  "moves p (fst (tcp_connect e sd h pt b p))"
  by (simp_all add: adopt_def tcp_connect_cb_def tcp_on_stream_data_def write_cb_def flush_finished_def
      drained_def tcp_on_stream_close_def closed_cb_def tcp_connect_def Let_def moves_rules split: prod.split)

lemma moves_step: "moves (sys_pipe s) (sys_pipe (tcp_step sd s ev))"
  by (cases ev; cases "snd ev")
    (simp_all add: tcp_step_def Let_def moves_read moves_events moves_destroy split: prod.split,
     metis moves_events(8) fst_conv)

lemma rel_step: "rel (side_st (sys_pipe s)) (side_st (sys_pipe (tcp_step sd s ev)))"
  using moves_step by (simp add: moves_def)

lemma owned_step: "owned (sys_pipe s) \<Longrightarrow> owned (sys_pipe (tcp_step sd s ev))"
  using moves_step by (simp add: moves_def)

lemma owned_new: "\<not> told st \<Longrightarrow> owned (new_pipe True st)"
  by (simp add: owned_def new_pipe_def)

text \<open>
  So when the owner has been told, the pipe is over: it is destroyed, has no socket, and owes
  libuv nothing.
\<close>

lemma told_over:
  assumes "owned (sys_pipe s)" and "tcp_inv s" and "told (side_st (sys_pipe s))"
  shows "destroyed (sys_pipe s)" and "tcp (sys_pipe s) = None" and "wq s = []"
  using assms by (auto simp: owned_def tcp_inv_def tcp_quiet_def)

text \<open>And until then, a destroyed pipe is one whose socket is closing.\<close>

lemma untold_closing:
  assumes "owned (sys_pipe s)" and "tcp_inv s" and "\<not> told (side_st (sys_pipe s))" and "destroyed (sys_pipe s)"
  shows "tcp (sys_pipe s) = Some Closing"
  using assms by (auto simp: owned_def tcp_inv_def tcp_inv_defs)

end

section \<open>Closing the stream\<close>

text \<open>
  A destroyed pipe has asked for its stream to be closed. \<open>shut\<close> is how the owner records the
  request; nothing the pipe does later takes it back.
\<close>

locale pipe_closer = pipe_owner +
  fixes shut :: "'a \<Rightarrow> bool"
  assumes shut_close: "shut (call (ss_close sd) st)"
    and shut_rel: "rel st st' \<Longrightarrow> shut st \<Longrightarrow> shut st'"
begin

definition settled :: "'a tcp_pipe \<Rightarrow> bool" where
  "settled p \<longleftrightarrow> (destroyed p \<longrightarrow> shut (side_st p))"

lemma settled_moves: "moves p p' \<Longrightarrow> destroyed p' = destroyed p \<Longrightarrow> settled p \<Longrightarrow> settled p'"
  by (auto simp: settled_def moves_def dest: shut_rel)

lemma settled_fields [simp]:
  "settled (p\<lparr>pending_bytes := n\<rparr>) = settled p" "settled (p\<lparr>stream_pending_bytes := n\<rparr>) = settled p"
  "settled (p\<lparr>inflight_writes := i\<rparr>) = settled p" "settled (p\<lparr>stream_paused := b\<rparr>) = settled p"
  "settled (p\<lparr>stream_closed := b\<rparr>) = settled p" "settled (p\<lparr>closing := b\<rparr>) = settled p"
  "settled (p\<lparr>tcp := h\<rparr>) = settled p" "settled (p\<lparr>has_on_ready := b\<rparr>) = settled p"
  "settled (emit a p) = settled p" "settled (start_reading e p) = settled p"
  "settled (stop_reading p) = settled p" "settled (resume_reading e p) = settled p"
  "settled (call_on_ready rc p) = settled p"
  by (simp_all add: settled_def pipe_defs)

lemma settled_small:
  "settled p \<Longrightarrow> settled (on_side (ss_pause sd) p)" "settled p \<Longrightarrow> settled (on_side (ss_resume sd) p)"
  "settled p \<Longrightarrow> settled (on_side (ss_close sd) p)" "settled p \<Longrightarrow> settled (fire_on_destroy sd p)"
  by (erule settled_moves [rotated 2], rule moves_closures moves_fire,
      simp add: on_side_def fire_on_destroy_def emit_def)+

lemma settled_destroy: "settled p \<Longrightarrow> settled (tcp_destroy sd p)"
proof (cases "destroyed p")
  case False
  have "settled (on_side (ss_close sd) (stop_reading (p\<lparr>destroyed := True\<rparr>)))"
    by (simp add: settled_def on_side_def shut_close)
  then show ?thesis using False by (simp add: tcp_destroy_def Let_def settled_small)
qed (simp add: tcp_destroy_dead)

lemmas settled_rules = settled_small settled_destroy

lemma settled_read: "settled p \<Longrightarrow> settled (read_cb e sd nread buf p)"
proof (cases "ss_write sd")
  case None
  then show "settled p \<Longrightarrow> ?thesis" by (simp add: read_cb_def Let_def settled_rules)
next
  case (Some w)
  assume p: "settled p"
  obtain st rc where r: "w (side_st p) (take (nat nread) buf) (Some (nat nread)) = (st, rc)"
    by (cases "w (side_st p) (take (nat nread) buf) (Some (nat nread))")
  have "rel (side_st p) st"
    using on_write(1) [OF Some, of "side_st p" "take (nat nread) buf" "Some (nat nread)"] by (simp add: r)
  then have "settled (p\<lparr>stream_pending_bytes := n, side_st := st\<rparr>)" "settled (p\<lparr>side_st := st\<rparr>)" for n
    using p by (auto simp: settled_def dest: shut_rel)
  then show ?thesis using p by (simp add: read_cb_def Let_def Some r settled_rules)
qed

lemma settled_events:
  "settled p \<Longrightarrow> settled (fst (adopt e b p))" "settled p \<Longrightarrow> settled (tcp_connect_cb e sd status p)"
  "settled p \<Longrightarrow> settled (tcp_on_stream_data e sd data p)" "settled p \<Longrightarrow> settled (write_cb sd n status p)"
  "settled p \<Longrightarrow> settled (drained e n p)" "settled p \<Longrightarrow> settled (tcp_on_stream_close sd p)"
  "settled p \<Longrightarrow> settled (closed_cb sd p)" "settled p \<Longrightarrow> settled (fst (tcp_connect e sd h pt c p))"
  by (simp_all add: adopt_def tcp_connect_cb_def tcp_on_stream_data_def write_cb_def flush_finished_def
      drained_def tcp_on_stream_close_def closed_cb_def tcp_connect_def Let_def settled_rules split: prod.split)

lemma settled_step: "settled (sys_pipe s) \<Longrightarrow> settled (sys_pipe (tcp_step sd s ev))"
  by (cases ev; cases "snd ev")
    (simp_all add: tcp_step_def Let_def settled_read settled_events settled_destroy split: prod.split,
     metis settled_events(8) fst_conv)

lemma settled_new: "settled (new_pipe b st)"
  by (simp add: settled_def new_pipe_def)

end

end
