(* ===== verification/Hs_Client_Conn.thy ===== *)
theory Hs_Client_Conn
  imports Hs_Pipe_Owner Hs_Udp_Proxy
begin

text \<open>
  One outbound connection of the client: \<^verbatim>\<open>HolesailClient::Conn\<close> and the closures that
  \<^verbatim>\<open>make_side\<close> builds over it (\<^verbatim>\<open>src/client.cpp\<close>). In TCP mode the connection gets a pipe when
  its stream opens, and is then the state its pipe shares with it; before that, and in UDP
  mode always, it has none. That is the datatype \<open>slot\<close>. The closures hold a weak pointer,
  whose lock is taken by whoever finds the connection in the client's map.
\<close>

section \<open>The connection\<close>

datatype ccall = CWrite "byte list" int | CPause | CResume | CClose

record client_conn =
  cn_id :: u64
  cn_stream :: bool
  cn_connect_pending :: bool
  cn_open :: bool
  cn_closed :: bool
  cn_tcp :: bool
  cn_pipe_done :: bool
  cn_udp :: bool
  cn_client_id :: string
  cn_pending :: "byte list"
  cn_calls :: "ccall list"

definition new_client_conn :: "u64 \<Rightarrow> bool \<Rightarrow> string \<Rightarrow> client_conn" where
  "new_client_conn k udp client_id =
     \<lparr>cn_id = k, cn_stream = False, cn_connect_pending = True, cn_open = False, cn_closed = False,
      cn_tcp = \<not> udp, cn_pipe_done = False, cn_udp = udp, cn_client_id = client_id, cn_pending = [],
      cn_calls = []\<rparr>"

definition kMaxPending :: nat where "kMaxPending = 256 * 1024"

definition ccalled :: "ccall \<Rightarrow> client_conn \<Rightarrow> client_conn" where
  "ccalled a c = c\<lparr>cn_calls := cn_calls c @ [a]\<rparr>"

section \<open>The stream side\<close>

text \<open>
  The bodies of the four lambdas once the weak pointer has locked. \<open>rc\<close> is what hyperdht
  answers to a write. The context a write with a drain callback allocates is freed with its
  failure, or by \<^verbatim>\<open>drain_cb\<close>; it holds nothing but the weak pointer and the callback.
\<close>

definition conn_write :: "int \<Rightarrow> client_conn \<Rightarrow> byte list \<Rightarrow> nat option \<Rightarrow> client_conn \<times> int" where
  "conn_write rc c data on_drain =
     (if cn_closed c then (c, -1)
      else if \<not> cn_stream c \<or> \<not> cn_open c then
        (if kMaxPending < length (cn_pending c) + length data then (c, 1)
         else (c\<lparr>cn_pending := cn_pending c @ data\<rparr>, 1))
      else (ccalled (CWrite data rc) c, rc))"

definition conn_pause :: "client_conn \<Rightarrow> client_conn" where
  "conn_pause c = (if cn_stream c then ccalled CPause c else c)"

definition conn_resume :: "client_conn \<Rightarrow> client_conn" where
  "conn_resume c = (if cn_stream c then ccalled CResume c else c)"

definition conn_close :: "client_conn \<Rightarrow> client_conn" where
  "conn_close c = (if cn_stream c \<and> \<not> cn_closed c then ccalled CClose c else c)"

text \<open>
  The side a TCP pipe gets, with the first half of its \<^verbatim>\<open>on_destroy\<close> lambda; the second half,
  the reap, is the client's.
\<close>

definition conn_side :: "int \<Rightarrow> client_conn pipe_side" where
  "conn_side rc =
     \<lparr>ss_write = Some (conn_write rc), ss_pause = Some conn_pause, ss_resume = Some conn_resume,
      ss_close = Some conn_close, on_destroy_cb = (\<lambda>c. c\<lparr>cn_pipe_done := True\<rparr>)\<rparr>"

section \<open>Slots of the client's map\<close>

datatype slot = Bare client_conn | Piped "client_conn tcp_sys"

definition slot_conn :: "slot \<Rightarrow> client_conn" where
  "slot_conn sl = (case sl of Bare c \<Rightarrow> c | Piped s \<Rightarrow> side_st (sys_pipe s))"

definition on_slot :: "(client_conn \<Rightarrow> client_conn) \<Rightarrow> slot \<Rightarrow> slot" where
  "on_slot f sl =
     (case sl of
        Bare c \<Rightarrow> Bare (f c)
      | Piped s \<Rightarrow> Piped (s\<lparr>sys_pipe := (sys_pipe s)\<lparr>side_st := f (side_st (sys_pipe s))\<rparr>\<rparr>))"

text \<open>\<^verbatim>\<open>c.pipe && !c.pipe_done\<close>.\<close>

definition pipe_up :: "slot \<Rightarrow> bool" where
  "pipe_up sl = (case sl of Bare c \<Rightarrow> False | Piped s \<Rightarrow> \<not> cn_pipe_done (side_st (sys_pipe s)))"

text \<open>The condition under which \<^verbatim>\<open>reap\<close> erases.\<close>

definition reapable :: "slot \<Rightarrow> bool" where
  "reapable sl =
     (let c = slot_conn sl in
      if cn_connect_pending c then False
      else if cn_stream c \<and> \<not> cn_closed c then False
      else if pipe_up sl then False
      else True)"

lemma slot_conn_simps [simp]:
  "slot_conn (Bare c) = c" "slot_conn (Piped s) = side_st (sys_pipe s)"
  "slot_conn (on_slot f sl) = f (slot_conn sl)"
  by (simp_all add: slot_conn_def on_slot_def split: slot.split)

lemma pipe_up_simps [simp]:
  "\<not> pipe_up (Bare c)" "pipe_up (Piped s) = (\<not> cn_pipe_done (side_st (sys_pipe s)))"
  by (simp_all add: pipe_up_def)

lemma on_slot_simps [simp]:
  "on_slot f (Bare c) = Bare (f c)"
  "on_slot f (Piped s) = Piped (s\<lparr>sys_pipe := (sys_pipe s)\<lparr>side_st := f (side_st (sys_pipe s))\<rparr>\<rparr>)"
  by (simp_all add: on_slot_def)

section \<open>What a pipe may do to its connection\<close>

text \<open>
  The fields a pipe leaves alone; it adds to the calls, it adds to the buffer only before the
  stream has opened, and its destroy callback sets the one flag.
\<close>

definition conn_view :: "client_conn \<Rightarrow> u64 \<times> bool \<times> bool \<times> bool \<times> bool \<times> bool \<times> bool \<times> string" where
  "conn_view c = (cn_id c, cn_stream c, cn_connect_pending c, cn_open c, cn_closed c, cn_tcp c, cn_udp c,
     cn_client_id c)"

definition conn_armed :: "client_conn \<Rightarrow> bool" where
  "conn_armed c \<longleftrightarrow> cn_closed c \<or> cn_stream c \<and> cn_open c"

definition conn_moves :: "client_conn \<Rightarrow> client_conn \<Rightarrow> bool" where
  "conn_moves c c' \<longleftrightarrow> conn_view c' = conn_view c \<and> (conn_armed c \<longrightarrow> cn_pending c' = cn_pending c) \<and>
     set (cn_calls c) \<subseteq> set (cn_calls c')"

text \<open>The stream has been asked to close, or is not there to be.\<close>

definition conn_shut :: "client_conn \<Rightarrow> bool" where
  "conn_shut c \<longleftrightarrow> (cn_stream c \<and> \<not> cn_closed c \<longrightarrow> CClose \<in> set (cn_calls c))"

lemma conn_view_called [simp]: "conn_view (ccalled a c) = conn_view c"
  "conn_view (c\<lparr>cn_pipe_done := b\<rparr>) = conn_view c" "conn_view (c\<lparr>cn_pending := bs\<rparr>) = conn_view c"
  "cn_pipe_done (ccalled a c) = cn_pipe_done c" "cn_calls (ccalled a c) = cn_calls c @ [a]"
  "cn_pending (ccalled a c) = cn_pending c"
  by (simp_all add: conn_view_def ccalled_def)

lemma conn_view_fields:
  assumes "conn_view c' = conn_view c"
  shows "cn_id c' = cn_id c" "cn_stream c' = cn_stream c" "cn_connect_pending c' = cn_connect_pending c"
    "cn_open c' = cn_open c" "cn_closed c' = cn_closed c" "cn_tcp c' = cn_tcp c" "cn_udp c' = cn_udp c"
    "cn_client_id c' = cn_client_id c" "conn_armed c' = conn_armed c"
  using assms by (simp_all add: conn_view_def conn_armed_def)

lemma conn_moves_trans: "conn_moves a b \<Longrightarrow> conn_moves b c \<Longrightarrow> conn_moves a c"
  unfolding conn_moves_def by (metis conn_view_fields(9) subset_trans)

lemma conn_write_moves:
  "conn_moves c (fst (conn_write rc c data n))" "cn_pipe_done (fst (conn_write rc c data n)) = cn_pipe_done c"
proof -
  show "conn_moves c (fst (conn_write rc c data n))"
    by (auto simp: conn_write_def conn_moves_def conn_armed_def)
  show "cn_pipe_done (fst (conn_write rc c data n)) = cn_pipe_done c" by (simp add: conn_write_def)
qed

lemma conn_write_pending:
  "length (cn_pending c) \<le> kMaxPending \<Longrightarrow> length (cn_pending (fst (conn_write rc c data n))) \<le> kMaxPending"
  by (simp add: conn_write_def)

lemma conn_call_moves: "conn_moves c (conn_pause c)" "conn_moves c (conn_resume c)" "conn_moves c (conn_close c)"
  "conn_moves c (ccalled a c)" "conn_moves c c"
  by (auto simp: conn_pause_def conn_resume_def conn_close_def conn_moves_def)

lemma conn_call_done [simp]: "cn_pipe_done (conn_pause c) = cn_pipe_done c"
  "cn_pipe_done (conn_resume c) = cn_pipe_done c" "cn_pipe_done (conn_close c) = cn_pipe_done c"
  by (simp_all add: conn_pause_def conn_resume_def conn_close_def)

lemma conn_shut_close [simp]: "conn_shut (conn_close c)" "conn_shut (ccalled CClose c)"
  by (auto simp: conn_shut_def conn_close_def)

lemma conn_shut_moves: "conn_moves c c' \<Longrightarrow> conn_shut c \<Longrightarrow> conn_shut c'"
  by (auto simp: conn_moves_def conn_shut_def conn_view_def)

lemma conn_side_sel [simp]:
  "ss_write (conn_side rc) = Some (conn_write rc)" "ss_pause (conn_side rc) = Some conn_pause"
  "ss_resume (conn_side rc) = Some conn_resume" "ss_close (conn_side rc) = Some conn_close"
  "on_destroy_cb (conn_side rc) c = c\<lparr>cn_pipe_done := True\<rparr>"
  by (simp_all add: conn_side_def)

interpretation client_pipe: pipe_closer "conn_side rc" conn_moves cn_pipe_done conn_shut
proof
  show "conn_moves a b \<Longrightarrow> conn_moves b c \<Longrightarrow> conn_moves a c" for a b c by (rule conn_moves_trans)
  show "ss_write (conn_side rc) = Some w \<Longrightarrow> conn_moves c (fst (w c data n))" for w c data n
    by (auto simp: conn_write_moves)
  show "conn_moves c c' \<Longrightarrow> conn_shut c \<Longrightarrow> conn_shut c'" for c c' by (rule conn_shut_moves)
  show "conn_moves c (on_destroy_cb (conn_side rc) c)" for c by (simp add: conn_moves_def)
qed (auto simp: call_def conn_call_moves conn_write_moves(2))

end
