(* ===== verification/Hs_Client.thy ===== *)
theory Hs_Client
  imports Hs_Client_Conn Hs_Keys Hs_Record "HOL-Library.AList"
begin

text \<open>
  \<^verbatim>\<open>HolesailClient\<close> (\<^verbatim>\<open>src/client.cpp\<close>): the key it dials, the record it looks up, the local
  proxy, and one connection per local socket or UDP source address. The state of a client is
  its UDP proxy, whose owner state is everything else: the proxy calls back into the client
  to open a stream, and the streams' closures act on the client's map of connections.
\<close>

section \<open>State\<close>

record client_config =
  ck_key :: string
  ck_secure :: bool
  ck_port :: "u16 option"
  ck_host :: "string option"
  ck_udp :: "bool option"

record resolved =
  rs_port :: u16
  rs_host :: string
  rs_udp :: bool

datatype cact =
    KLog level string
  | KGet "byte list"
  | KQueryCancel
  | KQueryFree
  | KDial "byte list option" "byte list" bool
  | KSocketClose "u64 option"
  | KSuspend
  | KResume
  | KListening int

text \<open>What hyperdht and libuv answer during one callback.\<close>

record client_env =
  ke_write :: int
  ke_connect :: int
  ke_connect_error :: "int \<Rightarrow> string"
  ke_query :: bool
  ke_cancel_sync :: bool
  ke_uv :: uv_env
  ke_udp :: udp_env
  ke_proxy :: proxy_env

text \<open>
  The last three fields are not in the source: the connections whose dial and whose stream
  hyperdht still holds a callback for, and the connections erased so far, as they were when
  they were erased.
\<close>

record client_core =
  k_env :: client_env
  k_dht :: bool
  k_config :: client_config
  k_keypair :: "byte list"
  k_target :: "byte list"
  k_init_error :: int
  k_tcp_proxy :: tcp_proxy
  k_resolved :: resolved
  k_record :: "hs_record option"
  k_record_seq :: u64
  k_query :: bool
  k_on_listening :: bool
  k_conns :: "(u64 \<times> slot) list"
  k_next :: u64
  k_state :: string
  k_destroyed :: bool
  k_acts :: "cact list"
  k_dials :: "u64 list"
  k_streams :: "u64 list"
  k_reaped :: "slot list"

type_synonym client = "client_core udp_proxy"

definition in_core :: "(client_core \<Rightarrow> client_core) \<Rightarrow> client \<Rightarrow> client" where
  "in_core f x = x\<lparr>ux_side := f (ux_side x)\<rparr>"

definition kact :: "cact \<Rightarrow> client_core \<Rightarrow> client_core" where
  "kact a k = k\<lparr>k_acts := k_acts k @ [a]\<rparr>"

section \<open>Construction and resolution\<close>

definition kDefaultPort :: u16 where "kDefaultPort = 8989"

definition default_resolved :: resolved where
  "default_resolved = \<lparr>rs_port = kDefaultPort, rs_host = ''127.0.0.1'', rs_udp = False\<rparr>"

definition client_new :: "hs_crypto \<Rightarrow> client_env \<Rightarrow> bool \<Rightarrow> client_config \<Rightarrow> client" where
  "client_new cr e dht cfg =
     (let k = \<lparr>k_env = e, k_dht = dht, k_config = cfg, k_keypair = replicate 32 0,
               k_target = replicate 32 0, k_init_error = 0, k_tcp_proxy = new_proxy,
               k_resolved = default_resolved, k_record = None, k_record_seq = 0, k_query = False,
               k_on_listening = False, k_conns = [], k_next = 1, k_state = [], k_destroyed = False,
               k_acts = [], k_dials = [], k_streams = [], k_reaped = []\<rparr>;
          k = (if ck_secure cfg
               then let seed = sha256 (c_sha256 cr) (ck_key cfg); pk = fst (c_keypair cr seed)
                    in k\<lparr>k_keypair := pk, k_target := pk\<rparr>
               else case z32_decode (ck_key cfg) of
                      None \<Rightarrow> kact (KLog Error (''Invalid key format: '' @ ck_key cfg)) (k\<lparr>k_init_error := UV_EINVAL\<rparr>)
                    | Some raw \<Rightarrow>
                        if length raw \<noteq> 32
                        then kact (KLog Error (''Invalid key format: '' @ ck_key cfg)) (k\<lparr>k_init_error := UV_EINVAL\<rparr>)
                        else k\<lparr>k_target := raw\<rparr>)
      in new_udp_proxy k)"

text \<open>\<^verbatim>\<open>resolve\<close>: the record overrides the defaults, the command line overrides the record.\<close>

definition client_resolve :: "client_config \<Rightarrow> hs_record option \<Rightarrow> resolved" where
  "client_resolve cfg rec =
     (let r = default_resolved;
          r = (case rec of
                 None \<Rightarrow> r
               | Some d \<Rightarrow>
                   (let r = (case port d of None \<Rightarrow> r | Some p \<Rightarrow> r\<lparr>rs_port := p\<rparr>);
                        r = (if host d \<noteq> [] then r\<lparr>rs_host := host d\<rparr> else r)
                    in case udp d of None \<Rightarrow> r | Some u \<Rightarrow> r\<lparr>rs_udp := u\<rparr>));
          r = (case ck_port cfg of None \<Rightarrow> r | Some p \<Rightarrow> r\<lparr>rs_port := p\<rparr>);
          r = (case ck_host cfg of None \<Rightarrow> r | Some h \<Rightarrow> r\<lparr>rs_host := h\<rparr>)
      in case ck_udp cfg of None \<Rightarrow> r | Some u \<Rightarrow> r\<lparr>rs_udp := u\<rparr>)"

section \<open>The map of connections\<close>

definition kget :: "client_core \<Rightarrow> u64 \<Rightarrow> slot option" where
  "kget k i = map_of (k_conns k) i"

definition kput :: "u64 \<Rightarrow> slot \<Rightarrow> client_core \<Rightarrow> client_core" where
  "kput i sl k = k\<lparr>k_conns := AList.update i sl (k_conns k)\<rparr>"

text \<open>\<^verbatim>\<open>std::map::emplace\<close> does nothing if the key is there.\<close>

definition kemplace :: "u64 \<Rightarrow> slot \<Rightarrow> client_core \<Rightarrow> client_core" where
  "kemplace i sl k = (if kget k i = None then kput i sl k else k)"

definition on_conn :: "u64 \<Rightarrow> (client_conn \<Rightarrow> client_conn) \<Rightarrow> client_core \<Rightarrow> client_core" where
  "on_conn i f k = (case kget k i of None \<Rightarrow> k | Some sl \<Rightarrow> kput i (on_slot f sl) k)"

definition reap :: "u64 \<Rightarrow> client_core \<Rightarrow> client_core" where
  "reap i k =
     (case kget k i of
        None \<Rightarrow> k
      | Some sl \<Rightarrow>
          if reapable sl
          then k\<lparr>k_conns := AList.delete i (k_conns k), k_reaped := k_reaped k @ [sl]\<rparr>
          else k)"

text \<open>
  A call of a pipe's method, or a callback of libuv into it. Its \<^verbatim>\<open>on_destroy\<close> lambda is the
  last thing such a call runs, so the reap in it comes after the pipe's own step.
\<close>

definition pipe_event :: "tcp_event \<Rightarrow> u64 \<Rightarrow> client_core \<Rightarrow> client_core" where
  "pipe_event v i k =
     (case kget k i of
        Some (Piped s) \<Rightarrow>
          (let s' = tcp_step (conn_side (ke_write (k_env k))) s (ke_uv (k_env k), v);
               k = kput i (Piped s') k
           in if has_on_destroy (sys_pipe s) \<and> \<not> has_on_destroy (sys_pipe s') then reap i k else k)
      | _ \<Rightarrow> k)"

section \<open>Tearing a connection down\<close>

text \<open>
  \<^verbatim>\<open>shutdown_conn\<close>, first without its call of the UDP proxy. The accepted socket belongs to
  the connection alone, so it is not closing yet.
\<close>

definition shutdown_core :: "u64 \<Rightarrow> client_core \<Rightarrow> client_core" where
  "shutdown_core i k =
     (case kget k i of
        None \<Rightarrow> k
      | Some sl \<Rightarrow>
          let k = (if cn_tcp (slot_conn sl)
                   then kact (KSocketClose (Some i)) (on_conn i (\<lambda>c. c\<lparr>cn_tcp := False\<rparr>) k) else k);
              k = (if pipe_up sl then pipe_event EvDestroy i k
                   else if cn_stream (slot_conn sl) \<and> \<not> cn_closed (slot_conn sl)
                   then on_conn i (ccalled CClose) k else k)
          in reap i k)"

definition shutdown_conn :: "u64 \<Rightarrow> client \<Rightarrow> client" where
  "shutdown_conn i x =
     (case kget (ux_side x) i of
        None \<Rightarrow> x
      | Some sl \<Rightarrow>
          let x = (if cn_udp (slot_conn sl) then uproxy_on_stream_close (cn_client_id (slot_conn sl)) x else x)
          in in_core (shutdown_core i) x)"

section \<open>Dialing\<close>

text \<open>
  \<^verbatim>\<open>begin_dht_connect\<close> for the connection \<open>c\<close> just put in the map. A dial that fails at once
  shuts the connection down; for a UDP client that happens before the proxy has filed it, so
  the call of the proxy in \<^verbatim>\<open>shutdown_conn\<close> finds nothing.
\<close>

definition begin_dht_connect :: "client_conn \<Rightarrow> client_core \<Rightarrow> client_core \<times> bool" where
  "begin_dht_connect c k =
     (let i = cn_id c;
          k = kact (KDial (if ck_secure (k_config k) then Some (k_keypair k) else None) (k_target k) (\<not> cn_udp c)) k;
          rc = ke_connect (k_env k)
      in if rc < 0
         then let k = on_conn i (\<lambda>c. c\<lparr>cn_connect_pending := False\<rparr>) k;
                  k = kact (KLog Error (''DHT connect failed: '' @ ke_connect_error (k_env k) rc)) k
              in (shutdown_core i k, False)
         else (k\<lparr>k_dials := i # k_dials k\<rparr>, True))"

text \<open>\<open>accepted\<close> is false for a null handle.\<close>

definition on_local_connection :: "bool \<Rightarrow> client_core \<Rightarrow> client_core" where
  "on_local_connection accepted k =
     (if \<not> accepted then k
      else if k_destroyed k \<or> \<not> k_dht k then kact (KSocketClose None) k
      else let c = new_client_conn (k_next k) False [];
               k = kemplace (cn_id c) (Bare c) (k\<lparr>k_next := k_next k + 1\<rparr>)
           in fst (begin_dht_connect c k))"

text \<open>The side of a UDP connection: each closure locks its weak pointer by looking \<open>i\<close> up.\<close>

definition client_side_write :: "u64 \<Rightarrow> client_core \<Rightarrow> byte list \<Rightarrow> nat option \<Rightarrow> client_core \<times> int" where
  "client_side_write i k data on_drain =
     (case kget k i of
        None \<Rightarrow> (k, -1)
      | Some sl \<Rightarrow>
          (case conn_write (ke_write (k_env k)) (slot_conn sl) data on_drain of
             (c, rc) \<Rightarrow> (kput i (on_slot (\<lambda>_. c) sl) k, rc)))"

definition udp_side :: "u64 \<Rightarrow> client_core stream_side" where
  "udp_side i =
     \<lparr>ss_write = Some (client_side_write i), ss_pause = Some (on_conn i conn_pause),
      ss_resume = Some (on_conn i conn_resume), ss_close = Some (on_conn i conn_close)\<rparr>"

definition no_side :: "client_core stream_side" where
  "no_side = \<lparr>ss_write = None, ss_pause = None, ss_resume = None, ss_close = None\<rparr>"

definition open_udp_stream :: "client_core \<Rightarrow> string \<Rightarrow> client_core \<times> client_core stream_side" where
  "open_udp_stream k client_id =
     (if k_destroyed k \<or> \<not> k_dht k then (k, no_side)
      else let c = new_client_conn (k_next k) True client_id;
               k = kemplace (cn_id c) (Bare c) (k\<lparr>k_next := k_next k + 1\<rparr>)
           in case begin_dht_connect c k of
                (k, ok) \<Rightarrow> (k, if ok then udp_side (cn_id c) else no_side))"

section \<open>Stream callbacks\<close>

text \<open>
  Each takes the number of the connection its weak pointer was made from; a lookup that fails
  is a pointer that does not lock.
\<close>

definition client_connect_cb :: "u64 \<Rightarrow> int \<Rightarrow> bool \<Rightarrow> bool \<Rightarrow> client \<Rightarrow> client" where
  "client_connect_cb i error conn opened x =
     (let x = in_core (\<lambda>k. k\<lparr>k_dials := remove1 i (k_dials k)\<rparr>) x in
      case kget (ux_side x) i of
        None \<Rightarrow> x
      | Some sl \<Rightarrow>
          (let x = in_core (on_conn i (\<lambda>c. c\<lparr>cn_connect_pending := False\<rparr>)) x in
           if k_destroyed (ux_side x) \<or> error \<noteq> 0 \<or> \<not> conn
           then let x = (if error \<noteq> 0
                         then in_core (\<lambda>k. kact (KLog Error (''DHT connect failed: '' @ ke_connect_error (k_env k) error)) k) x
                         else x)
                in shutdown_conn i x
           else if opened
           then in_core (\<lambda>k. (on_conn i (\<lambda>c. c\<lparr>cn_stream := True\<rparr>) k)\<lparr>k_streams := i # k_streams k\<rparr>) x
           else shutdown_conn i (in_core (kact (KLog Error ''Failed to open stream'')) x)))"

definition on_stream_open :: "u64 \<Rightarrow> client \<Rightarrow> client" where
  "on_stream_open i x =
     (case kget (ux_side x) i of
        None \<Rightarrow> x
      | Some sl \<Rightarrow>
          (let buffered = cn_pending (slot_conn sl);
               rc = ke_write (k_env (ux_side x));
               x = in_core (on_conn i (\<lambda>c. c\<lparr>cn_open := True\<rparr>)) x;
               x = (if buffered = [] then x
                    else in_core (on_conn i (\<lambda>c. ccalled (CWrite buffered rc) (c\<lparr>cn_pending := []\<rparr>))) x)
           in if buffered \<noteq> [] \<and> rc < 0 then shutdown_conn i x
              else if cn_udp (slot_conn sl) then x
              else if \<not> cn_tcp (slot_conn sl) then x
              else (case kget (ux_side x) i of
                      None \<Rightarrow> x
                    | Some sl \<Rightarrow>
                        (let c = (slot_conn sl)\<lparr>cn_tcp := False\<rparr>;
                             p = new_pipe True c;
                             s = \<lparr>sys_pipe = p, wq = [], tcp_sys.dq = [], conn_req = False\<rparr>;
                             x = in_core (\<lambda>k. pipe_event EvAdopt i (kput i (Piped s) k)) x
                         in if snd (adopt (ke_uv (k_env (ux_side x))) True p) \<noteq> 0 then shutdown_conn i x else x))))"

definition client_stream_open_cb :: "u64 \<Rightarrow> client \<Rightarrow> client" where
  "client_stream_open_cb i x =
     (case kget (ux_side x) i of
        None \<Rightarrow> x
      | Some sl \<Rightarrow>
          if \<not> cn_stream (slot_conn sl) \<or> cn_closed (slot_conn sl) then x else on_stream_open i x)"

definition client_stream_data_cb :: "u64 \<Rightarrow> byte list \<Rightarrow> client \<Rightarrow> client" where
  "client_stream_data_cb i data x =
     (case kget (ux_side x) i of
        None \<Rightarrow> x
      | Some sl \<Rightarrow>
          if data = [] then x
          else if cn_udp (slot_conn sl)
          then uproxy_on_stream_data (ke_udp (k_env (ux_side x))) (cn_client_id (slot_conn sl)) data x
          else in_core (pipe_event (EvData data) i) x)"

definition client_stream_close_cb :: "u64 \<Rightarrow> client \<Rightarrow> client" where
  "client_stream_close_cb i x =
     (let x = in_core (\<lambda>k. k\<lparr>k_streams := remove1 i (k_streams k)\<rparr>) x in
      case kget (ux_side x) i of
        None \<Rightarrow> x
      | Some sl \<Rightarrow>
          (let x = in_core (on_conn i (\<lambda>c. c\<lparr>cn_closed := True, cn_stream := False\<rparr>)) x in
           if cn_udp (slot_conn sl)
           then in_core (reap i) (uproxy_on_stream_close (cn_client_id (slot_conn sl)) x)
           else (case sl of
                   Piped s \<Rightarrow> in_core (\<lambda>k. reap i (pipe_event EvStreamClose i k)) x
                 | Bare c \<Rightarrow> if cn_tcp c then shutdown_conn i x else in_core (reap i) x)))"

text \<open>\<open>n\<close> is the drain callback of the pipe, which only TCP writes carry.\<close>

definition client_drain_cb :: "u64 \<Rightarrow> nat \<Rightarrow> client \<Rightarrow> client" where
  "client_drain_cb i n x =
     (case kget (ux_side x) i of
        None \<Rightarrow> x
      | Some sl \<Rightarrow>
          if cn_closed (slot_conn sl) \<or> cn_pipe_done (slot_conn sl) then x
          else in_core (pipe_event (EvDrained n) i) x)"

section \<open>The record and the proxy\<close>

text \<open>A reply of the query; \<open>None\<close> is a null value pointer.\<close>

definition mutable_cb :: "client_core \<Rightarrow> u64 \<times> byte list option \<Rightarrow> client_core" where
  "mutable_cb k reply =
     (case reply of (seq, value) \<Rightarrow>
        (case value of
           None \<Rightarrow> k
         | Some bytes \<Rightarrow>
             if k_destroyed k \<or> bytes = [] then k
             else if k_record k \<noteq> None \<and> seq \<le> k_record_seq k then k
             else (case decode_record (string_of_bytes bytes) of
                     None \<Rightarrow> kact (KLog Warn ''Malformed DHT record, ignoring'') k
                   | Some rec \<Rightarrow>
                       (kact (KLog Debug (''Retrieved DHT data: '' @ string_of_bytes bytes)) k)
                         \<lparr>k_record := Some rec, k_record_seq := seq\<rparr>)))"

definition start_proxy :: "client \<Rightarrow> client \<times> int" where
  "start_proxy x =
     (let x = in_core (\<lambda>k. k\<lparr>k_resolved := client_resolve (k_config k) (k_record k)\<rparr>) x;
          r = k_resolved (ux_side x); e = k_env (ux_side x);
          whr = rs_host r @ '':'' @ to_dec (unat (rs_port r));
          (x, rc) = (if rs_udp r
                     then uproxy_listen (ke_udp e) (rs_host r) (rs_port r) (Some open_udp_stream) x
                     else case proxy_listen (ke_proxy e) (rs_host r) (rs_port r) True (k_tcp_proxy (ux_side x)) of
                            (px, rc) \<Rightarrow> (in_core (\<lambda>k. k\<lparr>k_tcp_proxy := px\<rparr>) x, rc));
          x = (if rc = 0
               then in_core (\<lambda>k. kact (KLog Info (''Proxy listening on '' @ whr @ (if rs_udp r then '' for UDP'' else [])))
                      (k\<lparr>k_state := ''listening''\<rparr>)) x
               else in_core (kact (KLog Error (''Proxy failed on '' @ whr @ '': '' @ e_strerror (ke_uv e) rc))) x);
          x = (if k_on_listening (ux_side x)
               then in_core (\<lambda>k. kact (KListening rc) (k\<lparr>k_on_listening := False\<rparr>)) x else x)
      in (x, rc))"

definition mutable_done_cb :: "client \<Rightarrow> client" where
  "mutable_done_cb x =
     (let x = (if k_query (ux_side x) then in_core (\<lambda>k. kact KQueryFree (k\<lparr>k_query := False\<rparr>)) x else x) in
      if k_destroyed (ux_side x) then x
      else let x = (if k_record (ux_side x) = None then in_core (kact (KLog Warn ''No DHT data retrieved'')) x else x)
           in fst (start_proxy x))"

definition client_connect :: "bool \<Rightarrow> client \<Rightarrow> client \<times> int" where
  "client_connect on_listening x =
     (let k = ux_side x in
      if k_init_error k \<noteq> 0 then (x, k_init_error k)
      else if k_destroyed k then (x, UV_ECANCELED)
      else if \<not> k_dht k then (x, UV_EINVAL)
      else let k = k\<lparr>k_on_listening := on_listening, k_state := ''waiting''\<rparr>;
               k = kact (KLog Info (''Connecting to key: '' @ ck_key (k_config k) @ '', secure: '' @
                     (if ck_secure (k_config k) then ''true'' else ''false''))) k;
               k = kact (KGet (k_target k)) k
           in if ke_query (k_env k) then (x\<lparr>ux_side := k\<lparr>k_query := True\<rparr>\<rparr>, 0)
              else start_proxy (x\<lparr>ux_side := kact (KLog Warn ''No DHT data retrieved'') (k\<lparr>k_query := False\<rparr>)\<rparr>))"

section \<open>Lifecycle\<close>

definition client_pause :: "client_core \<Rightarrow> client_core" where
  "client_pause k =
     (if k_destroyed k \<or> \<not> k_dht k then k
      else (kact KSuspend (kact (KLog Info ''Pausing client'') k))\<lparr>k_state := ''paused''\<rparr>)"

definition client_resume :: "client_core \<Rightarrow> client_core" where
  "client_resume k =
     (if k_destroyed k \<or> \<not> k_dht k then k
      else (kact KResume (kact (KLog Info ''Resuming client'') k))\<lparr>k_state := ''listening''\<rparr>)"

text \<open>
  \<^verbatim>\<open>destroy\<close>. Cancelling the query may run its done callback on the spot; it then finds a
  null query and a destroyed client.
\<close>

definition cancel_query :: "client \<Rightarrow> client" where
  "cancel_query x =
     (if k_query (ux_side x)
      then let x = in_core (\<lambda>k. kact KQueryCancel (k\<lparr>k_query := False\<rparr>)) x;
               x = (if ke_cancel_sync (k_env (ux_side x)) then mutable_done_cb x else x)
           in in_core (kact KQueryFree) x
      else x)"

definition client_destroy :: "client \<Rightarrow> client" where
  "client_destroy x =
     (if k_destroyed (ux_side x) then x
      else let x = cancel_query (in_core (\<lambda>k. k\<lparr>k_destroyed := True\<rparr>) x);
               x = in_core (\<lambda>k. k\<lparr>k_tcp_proxy := proxy_close (k_tcp_proxy k)\<rparr>) x;
               x = uproxy_close x;
               live = map fst (k_conns (ux_side x));
               x = fold shutdown_conn live x
           in in_core (\<lambda>k. kact (KLog Info ''Client destroyed'') (k\<lparr>k_state := ''destroyed''\<rparr>)) x)"

text \<open>
  The destructor: a pipe that is still closing is released to libuv, without its destroy
  callback, and the map is cleared. The result is the pipes released.
\<close>

definition client_delete :: "client \<Rightarrow> client \<times> client_conn tcp_sys list" where
  "client_delete x =
     (let x = client_destroy x;
          orphans = concat (map (\<lambda>kv. case snd kv of
                       Bare c \<Rightarrow> []
                     | Piped s \<Rightarrow> if pipe_up (snd kv)
                         then [s\<lparr>sys_pipe := (sys_pipe s)\<lparr>has_on_destroy := False\<rparr>\<rparr>] else [])
                     (k_conns (ux_side x)))
      in (in_core (\<lambda>k. k\<lparr>k_conns := []\<rparr>) x, orphans))"

section \<open>The client as a machine\<close>

datatype client_event =
    CeConnect bool
  | CeReply u64 "byte list option"
  | CeDone
  | CeAccept int int int
  | CeRecv int "byte list" "sockaddr_in option" bool
  | CeDialed u64 int bool bool
  | CeOpen u64
  | CeData u64 "byte list"
  | CeClosed u64
  | CeDrain u64 nat
  | CePipe u64 tcp_event
  | CePause
  | CeResume
  | CeDestroy

text \<open>One callback or call, under the answers \<open>fst ev\<close>.\<close>

definition client_do :: "(u32 \<Rightarrow> string) \<Rightarrow> client_event \<Rightarrow> client \<Rightarrow> client" where
  "client_do nm v x =
     (case v of
        CeConnect on_listening \<Rightarrow> fst (client_connect on_listening x)
      | CeReply seq value \<Rightarrow> in_core (\<lambda>k. mutable_cb k (seq, value)) x
      | CeDone \<Rightarrow> mutable_done_cb x
      | CeAccept init_rc accept_rc status \<Rightarrow>
          if proxy_connection_cb init_rc accept_rc status (k_tcp_proxy (ux_side x))
          then in_core (on_local_connection True) x else x
      | CeRecv nread buf addr partial \<Rightarrow>
          uproxy_recv_cb (ke_udp (k_env (ux_side x))) nm nread buf addr partial x
      | CeDialed i error conn opened \<Rightarrow> client_connect_cb i error conn opened x
      | CeOpen i \<Rightarrow> client_stream_open_cb i x
      | CeData i data \<Rightarrow> client_stream_data_cb i data x
      | CeClosed i \<Rightarrow> client_stream_close_cb i x
      | CeDrain i n \<Rightarrow> client_drain_cb i n x
      | CePipe i v \<Rightarrow> in_core (pipe_event v i) x
      | CePause \<Rightarrow> in_core client_pause x
      | CeResume \<Rightarrow> in_core client_resume x
      | CeDestroy \<Rightarrow> client_destroy x)"

definition client_step :: "(u32 \<Rightarrow> string) \<Rightarrow> client \<Rightarrow> client_env \<times> client_event \<Rightarrow> client" where
  "client_step nm x ev = client_do nm (snd ev) (in_core (\<lambda>k. k\<lparr>k_env := fst ev\<rparr>) x)"

text \<open>
  What may happen. The owner connects once; hyperdht answers a dial it accepted once, calls
  back on a stream until it has closed it, and acknowledges writes it accepted, whenever it
  likes; libuv's callbacks on a pipe come as for any pipe. Connection numbers are 64 bits
  wide: a client that has opened 2^64 - 1 connections opens no more.
\<close>

definition client_enabled :: "client \<Rightarrow> client_env \<times> client_event \<Rightarrow> bool" where
  "client_enabled x ev =
     (let k = ux_side x; e = fst ev in
      case snd ev of
        CeConnect _ \<Rightarrow> \<not> k_query k \<and> \<not> ux_sock x \<and> \<not> px_handle (k_tcp_proxy k)
      | CeReply _ _ \<Rightarrow> k_query k \<or> k_destroyed k
      | CeDone \<Rightarrow> k_query k \<or> k_destroyed k
      | CeAccept _ _ _ \<Rightarrow> k_next k \<noteq> -1
      | CeRecv _ _ _ _ \<Rightarrow> k_next k \<noteq> -1
      | CeDialed i _ _ _ \<Rightarrow> i \<in> set (k_dials k)
      | CeOpen i \<Rightarrow> i \<in> set (k_streams k)
      | CeData i _ \<Rightarrow> i \<in> set (k_streams k)
      | CeClosed i \<Rightarrow> i \<in> set (k_streams k)
      | CeDrain i n \<Rightarrow> (case kget k i of Some (Piped s) \<Rightarrow> n \<in> set (tcp_sys.dq s) | _ \<Rightarrow> True)
      | CePipe i v \<Rightarrow>
          (case kget k i of
             Some (Piped s) \<Rightarrow> loop_tcp v \<and> tcp_enabled (conn_side (ke_write e)) s (ke_uv e, v)
           | _ \<Rightarrow> False)
      | CePause \<Rightarrow> True
      | CeResume \<Rightarrow> True
      | CeDestroy \<Rightarrow> True)"

definition client_begin :: "client \<Rightarrow> bool" where
  "client_begin x \<longleftrightarrow> (\<exists>cr e dht cfg. x = client_new cr e dht cfg)"

end
