(* ===== verification/Hs_Client_Inv.thy ===== *)
theory Hs_Client_Inv
  imports Hs_Client
begin

text \<open>
  The invariant of the client: what holds of every connection in its map, of the callbacks
  hyperdht and libuv still owe it, and of the streams its UDP proxy has filed. First the
  connections, then the operations on one of them, then the proxy's files.
\<close>

section \<open>One connection\<close>

definition conn_wf :: "u64 \<Rightarrow> client_conn \<Rightarrow> bool" where
  "conn_wf i c \<longleftrightarrow>
     cn_id c = i \<and> length (cn_pending c) \<le> kMaxPending \<and>
     (cn_open c \<longrightarrow> cn_pending c = [] \<and> conn_armed c) \<and>
     (cn_stream c \<longrightarrow> \<not> cn_connect_pending c \<and> \<not> cn_closed c) \<and>
     (cn_connect_pending c \<longrightarrow> \<not> cn_closed c) \<and> (cn_udp c \<longrightarrow> \<not> cn_tcp c)"

text \<open>A pipe exists only on an open stream, has the socket, and its flag is true to it.\<close>

definition slot_wf :: "u64 \<Rightarrow> slot \<Rightarrow> bool" where
  "slot_wf i sl \<longleftrightarrow> conn_wf i (slot_conn sl) \<and>
     (case sl of
        Bare c \<Rightarrow> \<not> cn_pipe_done c
      | Piped s \<Rightarrow> tcp_inv s \<and> client_pipe.owned (sys_pipe s) \<and> client_pipe.settled (sys_pipe s) \<and>
          cn_open (slot_conn sl) \<and> \<not> cn_tcp (slot_conn sl) \<and> \<not> cn_udp (slot_conn sl))"

text \<open>A connection that is over: nothing will call back into it, and it holds no socket.\<close>

definition slot_over :: "slot \<Rightarrow> bool" where
  "slot_over sl \<longleftrightarrow>
     \<not> cn_connect_pending (slot_conn sl) \<and> \<not> cn_stream (slot_conn sl) \<and> \<not> cn_tcp (slot_conn sl) \<and>
     (case sl of Bare c \<Rightarrow> True
      | Piped s \<Rightarrow> destroyed (sys_pipe s) \<and> tcp (sys_pipe s) = None \<and> wq s = [])"

text \<open>A connection that has been shut down.\<close>

definition slot_dead :: "slot \<Rightarrow> bool" where
  "slot_dead sl \<longleftrightarrow> \<not> cn_tcp (slot_conn sl) \<and> conn_shut (slot_conn sl) \<and>
     (case sl of Bare c \<Rightarrow> True | Piped s \<Rightarrow> destroyed (sys_pipe s))"

lemma ccalled_sel [simp]: "cn_tcp (ccalled a c) = cn_tcp c" "cn_stream (ccalled a c) = cn_stream c"
  "cn_closed (ccalled a c) = cn_closed c" "cn_udp (ccalled a c) = cn_udp c" "cn_open (ccalled a c) = cn_open c"
  "cn_client_id (ccalled a c) = cn_client_id c" "cn_connect_pending (ccalled a c) = cn_connect_pending c"
  "cn_id (ccalled a c) = cn_id c"
  by (simp_all add: ccalled_def)

lemma reapable_iff: "reapable sl \<longleftrightarrow> \<not> cn_connect_pending (slot_conn sl) \<and>
    (cn_stream (slot_conn sl) \<longrightarrow> cn_closed (slot_conn sl)) \<and> \<not> pipe_up sl"
  by (simp add: reapable_def Let_def)

lemma reapable_over: "slot_wf i sl \<Longrightarrow> reapable sl \<Longrightarrow> \<not> cn_tcp (slot_conn sl) \<Longrightarrow> slot_over sl"
proof (cases sl)
  case (Bare c)
  then show "slot_wf i sl \<Longrightarrow> reapable sl \<Longrightarrow> \<not> cn_tcp (slot_conn sl) \<Longrightarrow> ?thesis"
    by (auto simp: slot_wf_def conn_wf_def slot_over_def reapable_def Let_def split: if_splits)
next
  case (Piped s)
  assume a: "slot_wf i sl" "reapable sl" "\<not> cn_tcp (slot_conn sl)"
  then have "tcp_inv s" "client_pipe.owned (sys_pipe s)" "cn_pipe_done (side_st (sys_pipe s))"
    using Piped by (simp_all add: slot_wf_def reapable_def Let_def split: if_splits)
  note client_pipe.told_over [OF this(2,1,3)]
  then show ?thesis
    using a Piped by (auto simp: slot_wf_def conn_wf_def slot_over_def reapable_def Let_def split: if_splits)
qed

lemma conn_wf_moves:
  assumes "conn_wf i c" and "conn_moves c c'" and "cn_open c"
  shows "conn_wf i c'"
proof -
  have "conn_view c' = conn_view c" and p: "conn_armed c \<longrightarrow> cn_pending c' = cn_pending c"
    using assms(2) by (simp_all add: conn_moves_def)
  note v = conn_view_fields [OF this(1)]
  show ?thesis using assms(1,3) p unfolding conn_wf_def v by simp
qed

lemma pipe_step_wf:
  assumes "slot_wf i (Piped s)" and "tcp_enabled (conn_side rc) s ev"
  shows "slot_wf i (Piped (tcp_step (conn_side rc) s ev))"
    and "conn_moves (side_st (sys_pipe s)) (side_st (sys_pipe (tcp_step (conn_side rc) s ev)))"
proof -
  let ?s = "tcp_step (conn_side rc) s ev"
  show m: "conn_moves (side_st (sys_pipe s)) (side_st (sys_pipe ?s))" by (rule client_pipe.rel_step)
  then have v: "conn_view (side_st (sys_pipe ?s)) = conn_view (side_st (sys_pipe s))"
    by (simp add: conn_moves_def)
  have w: "conn_wf i (side_st (sys_pipe s))" "tcp_inv s" "client_pipe.owned (sys_pipe s)"
    "client_pipe.settled (sys_pipe s)" "cn_open (side_st (sys_pipe s))" "\<not> cn_tcp (side_st (sys_pipe s))"
    "\<not> cn_udp (side_st (sys_pipe s))"
    using assms(1) by (simp_all add: slot_wf_def)
  show "slot_wf i (Piped ?s)"
    using w(5-7) conn_wf_moves [OF w(1) m w(5)] tcp_inv_step [OF w(2) assms(2)]
      client_pipe.owned_step [OF w(3), of rc ev] client_pipe.settled_step [OF w(4), of rc ev]
    by (simp add: slot_wf_def conn_view_fields [OF v])
qed

lemma pipe_step_dead:
  assumes "slot_dead (Piped s)" and "destroyed (sys_pipe (tcp_step (conn_side rc) s ev))"
  shows "slot_dead (Piped (tcp_step (conn_side rc) s ev))"
proof -
  have m: "conn_moves (side_st (sys_pipe s)) (side_st (sys_pipe (tcp_step (conn_side rc) s ev)))"
    by (rule client_pipe.rel_step)
  then have "conn_view (side_st (sys_pipe (tcp_step (conn_side rc) s ev))) = conn_view (side_st (sys_pipe s))"
    by (simp add: conn_moves_def)
  note v = conn_view_fields [OF this]
  show ?thesis using assms conn_shut_moves [OF m] by (simp add: slot_dead_def v)
qed

text \<open>\<^verbatim>\<open>destroyed_\<close> is never taken back.\<close>

lemma destroyed_step: "destroyed (sys_pipe s) \<Longrightarrow> destroyed (sys_pipe (tcp_step sd s ev))"
  by (cases ev; cases "snd ev")
    (simp_all add: tcp_step_def Let_def pipe_defs adopt_def tcp_connect_def split: prod.split option.split)

section \<open>The map\<close>

definition slot_in :: "client_core \<Rightarrow> u64 \<Rightarrow> slot \<Rightarrow> bool" where
  "slot_in k i sl \<longleftrightarrow> slot_wf i sl \<and> i < k_next k \<and>
     (cn_connect_pending (slot_conn sl) \<longleftrightarrow> i \<in> set (k_dials k)) \<and>
     (cn_stream (slot_conn sl) \<longleftrightarrow> i \<in> set (k_streams k))"

definition core_wf :: "client_core \<Rightarrow> bool" where
  "core_wf k \<longleftrightarrow>
     distinct (map fst (k_conns k)) \<and> (\<forall>i sl. kget k i = Some sl \<longrightarrow> slot_in k i sl) \<and>
     (\<forall>i \<in> set (k_dials k) \<union> set (k_streams k). kget k i \<noteq> None) \<and>
     distinct (k_dials k) \<and> distinct (k_streams k) \<and> (\<forall>sl \<in> set (k_reaped k). slot_over sl)"

text \<open>Every connection in the map, but those in \<open>X\<close>, is still needed.\<close>

definition core_but :: "u64 set \<Rightarrow> client_core \<Rightarrow> bool" where
  "core_but X k \<longleftrightarrow> core_wf k \<and> (\<forall>i sl. i \<notin> X \<longrightarrow> kget k i = Some sl \<longrightarrow> \<not> reapable sl)"

lemma core_frame [simp]:
  "k_next (kput i sl k) = k_next k" "k_dials (kput i sl k) = k_dials k" "k_streams (kput i sl k) = k_streams k"
  "k_reaped (kput i sl k) = k_reaped k" "k_destroyed (kput i sl k) = k_destroyed k" "k_env (kput i sl k) = k_env k"
  "k_tcp_proxy (kput i sl k) = k_tcp_proxy k" "k_query (kput i sl k) = k_query k"
  "k_next (kact a k) = k_next k" "k_dials (kact a k) = k_dials k" "k_streams (kact a k) = k_streams k"
  "k_reaped (kact a k) = k_reaped k" "k_destroyed (kact a k) = k_destroyed k" "k_env (kact a k) = k_env k"
  "k_tcp_proxy (kact a k) = k_tcp_proxy k" "k_query (kact a k) = k_query k" "k_conns (kact a k) = k_conns k"
  by (simp_all add: kput_def kact_def)

lemma kget_kput: "kget (kput i sl k) j = (if j = i then Some sl else kget k j)"
  by (simp add: kget_def kput_def update_conv)

lemma kget_same: "k_conns k' = k_conns k \<Longrightarrow> kget k' = kget k"
  by (rule ext) (simp add: kget_def)

lemma kget_kact [simp]: "kget (kact a k) = kget k"
  by (rule kget_same) simp

lemma kput_distinct: "distinct (map fst (k_conns k)) \<Longrightarrow> distinct (map fst (k_conns (kput i sl k)))"
  by (simp add: kput_def distinct_update)

text \<open>Changing the fields the invariant does not read.\<close>

lemma core_but_same:
  assumes "k_conns k' = k_conns k" "k_next k' = k_next k" "k_dials k' = k_dials k"
    "k_streams k' = k_streams k" "k_reaped k' = k_reaped k"
  shows "core_but X k' = core_but X k"
proof -
  have "kget k' = kget k" using assms(1) by (rule kget_same)
  then show ?thesis using assms by (simp add: core_but_def core_wf_def slot_in_def)
qed

lemma core_but_kact [simp]: "core_but X (kact a k) = core_but X k"
  by (rule core_but_same) simp_all

lemma core_but_mono: "core_but X k \<Longrightarrow> X \<subseteq> Y \<Longrightarrow> core_but Y k"
  by (auto simp: core_but_def)

lemma core_but_get: "core_but X k \<Longrightarrow> kget k i = Some sl \<Longrightarrow> slot_in k i sl"
  by (simp add: core_but_def core_wf_def)

lemma core_but_put:
  assumes "core_but {i} k" and "kget k i \<noteq> None" and "slot_in k i sl"
  shows "core_but {i} (kput i sl k)"
  using assms kput_distinct [of k i sl]
  by (simp add: core_but_def core_wf_def kget_kput slot_in_def)

lemma core_but_needed: "core_but {i} k \<Longrightarrow> (\<And>sl. kget k i = Some sl \<Longrightarrow> \<not> reapable sl) \<Longrightarrow> core_but {} k"
  unfolding core_but_def by (metis empty_iff singletonD)

lemma core_but_reap:
  assumes "core_but {i} k" and "\<And>sl. kget k i = Some sl \<Longrightarrow> reapable sl \<Longrightarrow> \<not> cn_tcp (slot_conn sl)"
  shows "core_but {} (reap i k)"
proof (cases "kget k i")
  case None
  then show ?thesis using assms(1) using core_but_needed [of i k] by (simp add: reap_def)
next
  case (Some sl)
  note get = this
  show ?thesis
  proof (cases "reapable sl")
    case False
    then show ?thesis using core_but_needed [OF assms(1)] get by (simp add: reap_def)
  next
    case True
    let ?k = "k\<lparr>k_conns := AList.delete i (k_conns k), k_reaped := k_reaped k @ [sl]\<rparr>"
    have g: "kget ?k j = (if j = i then None else kget k j)" for j
      by (simp add: kget_def delete_conv')
    have si: "slot_in k i sl" using core_but_get [OF assms(1) get] .
    have "slot_over sl"
      using reapable_over [of i sl] si assms(2) [OF get True] True by (simp add: slot_in_def)
    moreover have "i \<notin> set (k_dials k)" "i \<notin> set (k_streams k)"
      using si True by (auto simp: slot_in_def slot_wf_def conn_wf_def reapable_def Let_def split: if_splits)
    moreover have "distinct (map fst (AList.delete i (k_conns k)))"
      using assms(1) by (simp add: core_but_def core_wf_def distinct_delete)
    ultimately have "core_but {} ?k"
      using assms(1) by (auto simp: core_but_def core_wf_def g slot_in_def)
    then show ?thesis using get True by (simp add: reap_def)
  qed
qed

section \<open>Operations on one connection\<close>

lemma op_frame [simp]:
  "k_next (on_conn i f k) = k_next k" "k_dials (on_conn i f k) = k_dials k"
  "k_streams (on_conn i f k) = k_streams k" "k_destroyed (on_conn i f k) = k_destroyed k"
  "k_env (on_conn i f k) = k_env k" "k_tcp_proxy (on_conn i f k) = k_tcp_proxy k"
  "k_query (on_conn i f k) = k_query k"
  "k_next (reap i k) = k_next k" "k_dials (reap i k) = k_dials k" "k_streams (reap i k) = k_streams k"
  "k_destroyed (reap i k) = k_destroyed k" "k_env (reap i k) = k_env k"
  "k_tcp_proxy (reap i k) = k_tcp_proxy k" "k_query (reap i k) = k_query k"
  by (simp_all add: on_conn_def reap_def split: option.split)

lemma pipe_event_frame [simp]:
  "k_next (pipe_event v i k) = k_next k" "k_dials (pipe_event v i k) = k_dials k"
  "k_streams (pipe_event v i k) = k_streams k" "k_destroyed (pipe_event v i k) = k_destroyed k"
  "k_env (pipe_event v i k) = k_env k" "k_tcp_proxy (pipe_event v i k) = k_tcp_proxy k"
  "k_query (pipe_event v i k) = k_query k"
  by (simp_all add: pipe_event_def Let_def split: option.split slot.split)

lemma shutdown_frame [simp]:
  "k_next (shutdown_core i k) = k_next k" "k_dials (shutdown_core i k) = k_dials k"
  "k_streams (shutdown_core i k) = k_streams k" "k_destroyed (shutdown_core i k) = k_destroyed k"
  "k_env (shutdown_core i k) = k_env k" "k_tcp_proxy (shutdown_core i k) = k_tcp_proxy k"
  "k_query (shutdown_core i k) = k_query k"
  by (simp_all add: shutdown_core_def Let_def split: option.split)

lemma kget_on_conn: "kget (on_conn i f k) j = (if j = i then map_option (on_slot f) (kget k i) else kget k j)"
  by (simp add: on_conn_def kget_kput split: option.split)

lemma kget_reap: "kget (reap i k) j =
    (if j = i \<and> (\<exists>sl. kget k i = Some sl \<and> reapable sl) then None else kget k j)"
  by (auto simp: reap_def kget_def delete_conv' split: option.split)

lemma kget_pipe_other: "j \<noteq> i \<Longrightarrow> kget (pipe_event v i k) j = kget k j"
  by (simp add: pipe_event_def Let_def kget_reap kget_kput split: option.split slot.split)

lemma kget_shutdown_other: "j \<noteq> i \<Longrightarrow> kget (shutdown_core i k) j = kget k j"
  by (simp add: shutdown_core_def Let_def kget_reap kget_on_conn kget_pipe_other split: option.split)

text \<open>A pipe's step, and what is left in the map after it.\<close>

definition pipe_after :: "tcp_event \<Rightarrow> client_core \<Rightarrow> client_conn tcp_sys \<Rightarrow> client_conn tcp_sys" where
  "pipe_after v k s = tcp_step (conn_side (ke_write (k_env k))) s (ke_uv (k_env k), v)"

definition pipe_may :: "tcp_event \<Rightarrow> u64 \<Rightarrow> client_core \<Rightarrow> bool" where
  "pipe_may v i k \<longleftrightarrow>
     (\<forall>s. kget k i = Some (Piped s) \<longrightarrow> tcp_enabled (conn_side (ke_write (k_env k))) s (ke_uv (k_env k), v))"

lemma pipe_may_owner: "pipe_may (EvData data) i k" "pipe_may EvStreamClose i k" "pipe_may EvDestroy i k"
  by (simp_all add: pipe_may_def tcp_enabled_def)

lemma pipe_event_bare: "kget k i = Some (Bare c) \<Longrightarrow> pipe_event v i k = k"
  "kget k i = None \<Longrightarrow> pipe_event v i k = k"
  by (simp_all add: pipe_event_def)

lemma pipe_event_piped: "kget k i = Some (Piped s) \<Longrightarrow> pipe_event v i k =
    (if has_on_destroy (sys_pipe s) \<and> \<not> has_on_destroy (sys_pipe (pipe_after v k s))
     then reap i (kput i (Piped (pipe_after v k s)) k) else kput i (Piped (pipe_after v k s)) k)"
  by (simp add: pipe_event_def pipe_after_def Let_def)

lemma core_but_pipe_put:
  assumes "core_but {i} k" and "pipe_may v i k" and g: "kget k i = Some (Piped s)"
  shows "core_but {i} (kput i (Piped (pipe_after v k s)) k)"
proof -
  have si: "slot_in k i (Piped s)" by (rule core_but_get [OF assms(1) g])
  have en: "tcp_enabled (conn_side (ke_write (k_env k))) s (ke_uv (k_env k), v)"
    using assms(2) g by (simp add: pipe_may_def)
  note w = pipe_step_wf [OF _ en, of i, folded pipe_after_def]
  have "conn_view (side_st (sys_pipe (pipe_after v k s))) = conn_view (side_st (sys_pipe s))"
    using w(2) si by (simp add: slot_in_def conn_moves_def)
  note vw = conn_view_fields [OF this]
  have "slot_in k i (Piped (pipe_after v k s))" using si w(1) by (simp add: slot_in_def vw)
  then show ?thesis using assms(1) g by (simp add: core_but_put)
qed

lemma slot_piped: "slot_in k i (Piped s) \<Longrightarrow> \<not> cn_tcp (side_st (sys_pipe s)) \<and> \<not> cn_udp (side_st (sys_pipe s))"
  by (simp add: slot_in_def slot_wf_def)

lemma core_but_reap_piped:
  assumes "core_but {i} k" and "kget k i = Some (Piped s)"
  shows "core_but {} (reap i k)"
  using slot_piped [OF core_but_get [OF assms]] assms(2) by (intro core_but_reap [OF assms(1)]) simp

lemma core_but_pipe:
  assumes "core_but {i} k" and "pipe_may v i k"
  shows "core_but {i} (pipe_event v i k)"
proof (cases "\<exists>s. kget k i = Some (Piped s)")
  case False
  then show ?thesis using assms(1) by (simp add: pipe_event_def split: option.split slot.split)
next
  case True
  then obtain s where g: "kget k i = Some (Piped s)" by blast
  let ?k = "kput i (Piped (pipe_after v k s)) k"
  have b: "core_but {i} ?k" by (rule core_but_pipe_put [OF assms g])
  have "core_but {} (reap i ?k)"
    by (rule core_but_reap_piped [OF b]) (simp add: kget_kput)
  then show ?thesis using b g by (simp add: pipe_event_piped core_but_mono)
qed

lemma core_but_pipe_needed:
  assumes "core_but {} k" and "pipe_may v i k"
  shows "core_but {} (pipe_event v i k)"
proof (cases "\<exists>s. kget k i = Some (Piped s)")
  case False
  then show ?thesis using assms(1) by (simp add: pipe_event_def split: option.split slot.split)
next
  case True
  then obtain s where g: "kget k i = Some (Piped s)" by blast
  let ?s = "pipe_after v k s"
  let ?k = "kput i (Piped ?s) k"
  have b1: "core_but {i} k" using assms(1) by (rule core_but_mono) simp
  have b: "core_but {i} ?k" by (rule core_but_pipe_put [OF b1 assms(2) g])
  have r: "core_but {} (reap i ?k)"
    by (rule core_but_reap_piped [OF b]) (simp add: kget_kput)
  have si: "slot_in k i (Piped s)" and si': "slot_in ?k i (Piped ?s)"
    using core_but_get [OF b1 g] core_but_get [OF b] by (simp_all add: kget_kput)
  have d: "cn_pipe_done (side_st (sys_pipe q)) \<longleftrightarrow> \<not> has_on_destroy (sys_pipe q)" if "slot_in k' i (Piped q)" for q k'
    using that by (simp add: slot_in_def slot_wf_def client_pipe.owned_def)
  have "\<not> reapable (Piped ?s)" if nf: "\<not> (has_on_destroy (sys_pipe s) \<and> \<not> has_on_destroy (sys_pipe ?s))"
  proof (cases "cn_pipe_done (side_st (sys_pipe ?s))")
    case False
    then show ?thesis by (simp add: reapable_iff)
  next
    case True
    have "cn_pipe_done (side_st (sys_pipe s))" using True nf d [OF si] d [OF si'] by simp
    moreover have "conn_view (side_st (sys_pipe ?s)) = conn_view (side_st (sys_pipe s))"
      using client_pipe.rel_step [of s] by (simp add: conn_moves_def pipe_after_def)
    note vw = conn_view_fields [OF this]
    moreover have "\<not> reapable (Piped s)" using assms(1) g by (simp add: core_but_def)
    ultimately show ?thesis using True by (simp add: reapable_iff vw)
  qed
  then have "core_but {} ?k" if "\<not> (has_on_destroy (sys_pipe s) \<and> \<not> has_on_destroy (sys_pipe ?s))"
    using that by (intro core_but_needed [OF b]) (simp add: kget_kput)
  then show ?thesis using r g by (simp add: pipe_event_piped)
qed


text \<open>Shutting a connection down.\<close>

lemma core_but_on_conn:
  assumes "core_but {i} k" and "\<And>sl. kget k i = Some sl \<Longrightarrow> slot_in k i sl \<Longrightarrow> slot_in k i (on_slot f sl)"
  shows "core_but {i} (on_conn i f k)"
  using assms(2) core_but_get [OF assms(1)] core_but_put [OF assms(1)] assms(1)
  by (cases "kget k i") (simp_all add: on_conn_def)

text \<open>An update that keeps what the invariant reads of a connection.\<close>

lemma slot_in_keep:
  assumes "slot_in k i sl" and "conn_moves (slot_conn sl) (f (slot_conn sl))"
    and "cn_pipe_done (f (slot_conn sl)) = cn_pipe_done (slot_conn sl)"
    and "length (cn_pending (slot_conn sl)) \<le> kMaxPending \<longrightarrow> length (cn_pending (f (slot_conn sl))) \<le> kMaxPending"
  shows "slot_in k i (on_slot f sl)"
proof -
  have "conn_view (f (slot_conn sl)) = conn_view (slot_conn sl)"
    and p: "conn_armed (slot_conn sl) \<longrightarrow> cn_pending (f (slot_conn sl)) = cn_pending (slot_conn sl)"
    using assms(2) by (simp_all add: conn_moves_def)
  note v = conn_view_fields [OF this(1)]
  have c: "conn_wf i (f (slot_conn sl))"
    using assms(1,4) p unfolding slot_in_def slot_wf_def conn_wf_def v by auto
  show ?thesis
  proof (cases sl)
    case (Bare c)
    then show ?thesis using assms c by (simp add: slot_in_def slot_wf_def v [simplified Bare slot_conn_simps])
  next
    case (Piped s)
    let ?s = "s\<lparr>sys_pipe := (sys_pipe s)\<lparr>side_st := f (side_st (sys_pipe s))\<rparr>\<rparr>"
    have "tcp_inv ?s = tcp_inv s" by (simp add: tcp_inv_def tcp_inv_defs tcp_quiet_def)
    moreover have "client_pipe.owned (sys_pipe ?s) = client_pipe.owned (sys_pipe s)"
      using assms(3) Piped by (simp add: client_pipe.owned_def)
    moreover have "client_pipe.settled (sys_pipe s) \<Longrightarrow> client_pipe.settled (sys_pipe ?s)"
      using assms(2) Piped by (auto simp: client_pipe.settled_def dest: conn_shut_moves)
    ultimately show ?thesis
      using assms(1) c by (simp add: Piped slot_in_def slot_wf_def v [simplified Piped slot_conn_simps])
  qed
qed

lemma on_slot_same: "f (slot_conn sl) = slot_conn sl \<Longrightarrow> on_slot f sl = sl"
  by (cases sl) simp_all

lemma slot_in_no_socket: "slot_in k i sl \<Longrightarrow> slot_in k i (on_slot (\<lambda>c. c\<lparr>cn_tcp := False\<rparr>) sl)"
proof (cases sl)
  case (Bare c)
  then show "slot_in k i sl \<Longrightarrow> ?thesis"
    by (auto simp: slot_in_def slot_wf_def conn_wf_def conn_armed_def)
next
  case (Piped s)
  assume a: "slot_in k i sl"
  then have "(slot_conn sl)\<lparr>cn_tcp := False\<rparr> = slot_conn sl" using slot_piped Piped by simp
  then show ?thesis using a by (simp add: on_slot_same)
qed

text \<open>The state of \<open>shutdown_core\<close> before its reap: the connection is shut down, whatever it was.\<close>

lemma shutdown_core_before:
  assumes "core_but {i} k" and "kget k i = Some sl"
  obtains k' where "shutdown_core i k = reap i k'" and "core_but {i} k'"
    and "\<And>sl. kget k' i = Some sl \<Longrightarrow> slot_dead sl"
proof -
  let ?k1 = "if cn_tcp (slot_conn sl)
     then kact (KSocketClose (Some i)) (on_conn i (\<lambda>c. c\<lparr>cn_tcp := False\<rparr>) k) else k"
  let ?k2 = "if pipe_up sl then pipe_event EvDestroy i ?k1
     else if cn_stream (slot_conn sl) \<and> \<not> cn_closed (slot_conn sl) then on_conn i (ccalled CClose) ?k1 else ?k1"
  have e: "shutdown_core i k = reap i ?k2" using assms(2) by (simp add: shutdown_core_def Let_def)
  have si: "slot_in k i sl" by (rule core_but_get [OF assms])
  have b1: "core_but {i} ?k1" using assms(1) by (simp add: core_but_on_conn slot_in_no_socket)
  have g1: "kget ?k1 i = Some (if cn_tcp (slot_conn sl) then on_slot (\<lambda>c. c\<lparr>cn_tcp := False\<rparr>) sl else sl)"
    using assms(2) by (simp add: kget_on_conn)
  have keep: "slot_in k' i (on_slot (ccalled CClose) s')" if "slot_in k' i s'" for k' s'
    by (rule slot_in_keep [OF that]) (simp_all add: conn_call_moves)
  have b2: "core_but {i} ?k2"
    using b1 by (simp add: core_but_pipe pipe_may_owner core_but_on_conn keep)
  have "slot_dead sl'" if g2: "kget ?k2 i = Some sl'" for sl'
  proof (cases sl)
    case (Bare c)
    then show ?thesis using g1 g2 assms(2)
      by (auto simp: slot_dead_def kget_on_conn conn_shut_def split: if_splits)
  next
    case (Piped s)
    have nt: "\<not> cn_tcp (side_st (sys_pipe s))" using si slot_piped Piped by blast
    have w: "client_pipe.settled (sys_pipe s)" "tcp_inv s" "client_pipe.owned (sys_pipe s)"
      using si Piped by (simp_all add: slot_in_def slot_wf_def)
    let ?s = "pipe_after EvDestroy k s"
    show ?thesis
    proof (cases "pipe_up sl")
      case False
      then have "destroyed (sys_pipe s)"
        using client_pipe.told_over(1) [OF w(3,2)] Piped by simp
      then show ?thesis using False Piped nt g1 g2
        by (auto simp: slot_dead_def kget_on_conn conn_shut_def split: if_splits)
    next
      case True
      have sl': "sl' = Piped ?s"
        using True Piped nt g1 g2 by (auto simp: pipe_event_piped kget_reap kget_kput split: if_splits)
      have "client_pipe.settled (sys_pipe ?s)" unfolding pipe_after_def by (rule client_pipe.settled_step [OF w(1)])
      moreover have "destroyed (sys_pipe ?s)" by (simp add: pipe_after_def tcp_step_def Let_def)
      moreover have "conn_moves (side_st (sys_pipe s)) (side_st (sys_pipe ?s))"
        unfolding pipe_after_def by (rule client_pipe.rel_step)
      then have "\<not> cn_tcp (side_st (sys_pipe ?s))" using nt by (simp add: conn_moves_def conn_view_def)
      ultimately show ?thesis by (simp add: sl' slot_dead_def client_pipe.settled_def)
    qed
  qed
  then show ?thesis using e b2 that by blast
qed

lemma shutdown_core_wf:
  assumes "core_but {i} k"
  shows "core_but {} (shutdown_core i k)" and "\<And>sl. kget (shutdown_core i k) i = Some sl \<Longrightarrow> slot_dead sl"
proof -
  have "core_but {} (shutdown_core i k) \<and> (\<forall>sl. kget (shutdown_core i k) i = Some sl \<longrightarrow> slot_dead sl)"
  proof (cases "kget k i")
    case None
    then show ?thesis using core_but_needed [OF assms] by (simp add: shutdown_core_def)
  next
    case (Some sl)
    from assms Some obtain k' where k': "shutdown_core i k = reap i k'" "core_but {i} k'"
      "\<And>sl. kget k' i = Some sl \<Longrightarrow> slot_dead sl" by (rule shutdown_core_before) blast
    then show ?thesis by (auto simp: kget_reap slot_dead_def intro!: core_but_reap)
  qed
  then show "core_but {} (shutdown_core i k)" "\<And>sl. kget (shutdown_core i k) i = Some sl \<Longrightarrow> slot_dead sl"
    by simp_all
qed

section \<open>Updates that change little\<close>

text \<open>\<open>tame f\<close>: what a call of a stream does to a connection.\<close>

definition tame :: "(client_conn \<Rightarrow> client_conn) \<Rightarrow> bool" where
  "tame f \<longleftrightarrow>
     (\<forall>c. conn_moves c (f c) \<and> cn_pipe_done (f c) = cn_pipe_done c \<and>
       (length (cn_pending c) \<le> kMaxPending \<longrightarrow> length (cn_pending (f c)) \<le> kMaxPending))"

lemma tame_calls [simp]: "tame conn_pause" "tame conn_resume" "tame conn_close" "tame (ccalled a)"
  "tame (\<lambda>c. fst (conn_write rc c data n))"
proof -
  have "length (cn_pending (conn_pause c)) = length (cn_pending c)"
    "length (cn_pending (conn_resume c)) = length (cn_pending c)"
    "length (cn_pending (conn_close c)) = length (cn_pending c)" for c
    by (simp_all add: conn_pause_def conn_resume_def conn_close_def)
  then show "tame conn_pause" "tame conn_resume" "tame conn_close" "tame (ccalled a)"
    "tame (\<lambda>c. fst (conn_write rc c data n))"
    by (simp_all add: tame_def conn_call_moves conn_write_moves conn_write_pending)
qed

lemma tame_view: "tame f \<Longrightarrow> conn_view (f c) = conn_view c"
  by (simp add: tame_def conn_moves_def)

lemma tame_slot: "tame f \<Longrightarrow> slot_in k i sl \<Longrightarrow> slot_in k i (on_slot f sl)"
  by (rule slot_in_keep) (simp_all add: tame_def)

lemma tame_reapable: "tame f \<Longrightarrow> reapable (on_slot f sl) = reapable sl"
  using conn_view_fields [OF tame_view [of f "slot_conn sl"]]
  by (cases sl) (simp_all add: reapable_iff tame_def)

lemma core_but_tame:
  assumes "tame f" and "core_but {} k"
  shows "core_but {} (on_conn i f k)"
proof -
  have "core_but {i} k" using assms(2) by (rule core_but_mono) simp
  then have "core_but {i} (on_conn i f k)"
    by (rule core_but_on_conn) (rule tame_slot [OF assms(1)])
  then show ?thesis
    by (rule core_but_needed)
      (use assms in \<open>auto simp: kget_on_conn tame_reapable core_but_def\<close>)
qed

section \<open>The streams the UDP proxy has filed\<close>

text \<open>Connection \<open>j\<close> is a live UDP connection of the client at \<open>i\<close>.\<close>

definition udp_live :: "client_core \<Rightarrow> u64 \<Rightarrow> string \<Rightarrow> bool" where
  "udp_live k j i \<longleftrightarrow>
     (\<exists>c. kget k j = Some (Bare c) \<and> cn_udp c \<and> cn_client_id c = i \<and> \<not> cn_closed c)"

definition filed :: "client \<Rightarrow> bool" where
  "filed x \<longleftrightarrow>
     (\<forall>i c. ux_clients x i = Some c \<longrightarrow> (\<exists>j. uc_stream c = udp_side j \<and> udp_live (ux_side x) j i)) \<and>
     (\<not> ux_sock x \<longrightarrow> ux_clients x = Map.empty) \<and>
     (ux_open x = None \<or> ux_open x = Some open_udp_stream)"

lemma filed_get: "filed x \<Longrightarrow> ux_clients x i = Some c \<Longrightarrow>
    \<exists>j. uc_stream c = udp_side j \<and> udp_live (ux_side x) j i"
  by (simp add: filed_def)

text \<open>A change of the core that keeps the live UDP connections.\<close>

lemma filed_core:
  assumes "filed x" and "\<And>j i. udp_live (ux_side x) j i \<Longrightarrow> udp_live k j i"
  shows "filed (x\<lparr>ux_side := k\<rparr>)"
  using assms by (fastforce simp: filed_def)

lemma udp_live_tame [simp]:
  assumes "tame f" shows "udp_live (on_conn j f k) n i = udp_live k n i"
proof (cases "n = j")
  case True
  have v: "cn_udp (f c) = cn_udp c" "cn_client_id (f c) = cn_client_id c" "cn_closed (f c) = cn_closed c" for c
    by (rule conn_view_fields [OF tame_view [OF assms]])+
  show ?thesis
  proof (cases "kget k j")
    case (Some sl)
    then show ?thesis using True by (cases sl) (simp_all add: udp_live_def kget_on_conn v)
  qed (simp add: udp_live_def kget_on_conn True)
qed (simp add: udp_live_def kget_on_conn)

lemma udp_live_flags [simp]:
  "udp_live (on_conn j (\<lambda>c. c\<lparr>cn_connect_pending := b\<rparr>) k) n i = udp_live k n i"
  "udp_live (on_conn j (\<lambda>c. c\<lparr>cn_stream := b\<rparr>) k) n i = udp_live k n i"
  "udp_live (on_conn j (\<lambda>c. c\<lparr>cn_open := b\<rparr>) k) n i = udp_live k n i"
  "udp_live (on_conn j (\<lambda>c. ccalled a (c\<lparr>cn_pending := bs\<rparr>)) k) n i = udp_live k n i"
  by (cases "kget k j"; cases "the (kget k j)"; auto simp: udp_live_def kget_on_conn)+

lemma udp_live_pipe [simp]: "udp_live (pipe_event v j k) n i = udp_live k n i"
proof (cases "\<exists>s. kget k j = Some (Piped s)")
  case True
  then obtain s where "kget k j = Some (Piped s)" by blast
  then show ?thesis by (simp add: pipe_event_piped udp_live_def kget_reap kget_kput)
next
  case False
  then show ?thesis by (simp add: pipe_event_def split: option.split slot.split)
qed

lemma udp_live_other:
  "n \<noteq> j \<Longrightarrow> udp_live (reap j k) n i = udp_live k n i"
  "n \<noteq> j \<Longrightarrow> udp_live (shutdown_core j k) n i = udp_live k n i"
  "n \<noteq> j \<Longrightarrow> udp_live (on_conn j f k) n i = udp_live k n i"
  by (simp_all add: udp_live_def kget_reap kget_shutdown_other kget_on_conn)

lemma udp_live_same: "k_conns k' = k_conns k \<Longrightarrow> udp_live k' j i = udp_live k j i"
  using kget_same [of k' k] by (simp add: udp_live_def)

lemma udp_live_upd [simp]: "udp_live (k\<lparr>k_streams := is\<rparr>) j i = udp_live k j i"
  "udp_live (k\<lparr>k_dials := is\<rparr>) j i = udp_live k j i" "udp_live (kact a k) j i = udp_live k j i"
  by (rule udp_live_same; simp)+

text \<open>Forgetting the streams of one client, and shutting down a connection of that client.\<close>

lemma filed_drop:
  assumes "filed x"
    and "\<And>n i. i \<noteq> i0 \<Longrightarrow> udp_live (ux_side x) n i \<Longrightarrow> udp_live k n i"
  shows "filed ((uproxy_on_stream_close i0 x)\<lparr>ux_side := k\<rparr>)"
proof -
  have "\<exists>j. uc_stream c = udp_side j \<and> udp_live k j i" if "i \<noteq> i0" and "ux_clients x i = Some c" for i c
    using filed_get [OF assms(1) that(2)] assms(2) [OF that(1)] by blast
  then show ?thesis using assms(1) by (auto simp: filed_def uproxy_on_stream_close_def)
qed

lemma udp_live_id: "kget k j = Some sl \<Longrightarrow> udp_live k j i \<Longrightarrow> cn_udp (slot_conn sl) \<and> i = cn_client_id (slot_conn sl)"
  by (auto simp: udp_live_def)

lemma filed_shutdown:
  assumes "filed x"
  shows "filed (shutdown_conn j x)"
proof (cases "kget (ux_side x) j")
  case None
  then show ?thesis using assms by (simp add: shutdown_conn_def)
next
  case (Some sl)
  let ?k = "shutdown_core j (ux_side x)"
  have o: "udp_live ?k n i" if "udp_live (ux_side x) n i" and "n \<noteq> j" for n i
    using that by (simp add: udp_live_other)
  show ?thesis
  proof (cases "cn_udp (slot_conn sl)")
    case True
    have "filed ((uproxy_on_stream_close (cn_client_id (slot_conn sl)) x)\<lparr>ux_side := ?k\<rparr>)"
      by (rule filed_drop [OF assms]) (use o udp_live_id [OF Some] in blast)
    then show ?thesis using Some True by (simp add: shutdown_conn_def in_core_def uproxy_on_stream_close_def)
  next
    case False
    have "filed (x\<lparr>ux_side := ?k\<rparr>)"
      by (rule filed_core [OF assms]) (use o udp_live_id [OF Some] False in blast)
    then show ?thesis using Some False by (simp add: shutdown_conn_def in_core_def)
  qed
qed

end
