(* ===== verification/Hs_Client_Run.thy ===== *)
theory Hs_Client_Run
  imports Hs_Client_Inv
begin

text \<open>
  The client as a machine: every callback and every call of the owner keeps the invariant of
  \<open>Hs_Client_Inv\<close>, in every order; and what follows from it for the client's users.
\<close>

section \<open>The callbacks\<close>

definition sound :: "client \<Rightarrow> bool" where
  "sound x \<longleftrightarrow> core_but {} (ux_side x) \<and> filed x"

lemma side_in_core [simp]: "ux_side (in_core f x) = f (ux_side x)" "ux_clients (in_core f x) = ux_clients x"
  "ux_sock (in_core f x) = ux_sock x" "ux_open (in_core f x) = ux_open x" "ux_acts (in_core f x) = ux_acts x"
  by (simp_all add: in_core_def)

lemma filed_in_core:
  "filed x \<Longrightarrow> (\<And>j i. udp_live (ux_side x) j i \<Longrightarrow> udp_live (f (ux_side x)) j i) \<Longrightarrow> filed (in_core f x)"
  unfolding in_core_def by (rule filed_core)

lemma side_shutdown [simp]: "ux_side (shutdown_conn i x) = shutdown_core i (ux_side x)"
  by (simp add: shutdown_conn_def shutdown_core_def uproxy_on_stream_close_def split: option.split)

text \<open>A dial is answered, a stream opens, a stream closes: what hyperdht owes changes with the flag.\<close>

lemma core_but_update:
  assumes wf: "core_but {} k" and g: "kget k i = Some sl"
    and d: "set dials = (if cn_connect_pending (f (slot_conn sl)) then insert i else (\<lambda>D. D - {i})) (set (k_dials k))"
    and s: "set streams = (if cn_stream (f (slot_conn sl)) then insert i else (\<lambda>D. D - {i})) (set (k_streams k))"
    and dd: "distinct dials" "distinct streams"
    and w: "slot_wf i (on_slot f sl)"
  shows "core_but {i} ((on_conn i f k)\<lparr>k_dials := dials, k_streams := streams\<rparr>)"
proof -
  let ?k = "(on_conn i f k)\<lparr>k_dials := dials, k_streams := streams\<rparr>"
  have gg: "kget ?k j = kget (on_conn i f k) j" for j by (simp add: kget_def)
  have gk: "kget ?k j = (if j = i then Some (on_slot f sl) else kget k j)" for j
    using g by (simp add: gg kget_on_conn)
  have ix: "i < k_next k" using core_but_get [OF wf g] by (simp add: slot_in_def)
  have "distinct (map fst (k_conns ?k))"
    using wf g kput_distinct [of k i] by (simp add: on_conn_def core_but_def core_wf_def)
  moreover have "slot_in ?k j sl'" if "kget ?k j = Some sl'" for j sl'
  proof (cases "j = i")
    case True
    then show ?thesis using that gk ix w d s by (auto simp: slot_in_def split: if_splits)
  next
    case False
    then have "slot_in k j sl'" using that gk core_but_get [OF wf] by simp
    then show ?thesis using False d s by (simp add: slot_in_def)
  qed
  moreover have "k_reaped ?k = k_reaped k" using g by (simp add: on_conn_def)
  ultimately show ?thesis
    using wf g d s dd by (auto simp: core_but_def core_wf_def gk split: if_splits)
qed

lemma on_conn_owed: "on_conn i f (k\<lparr>k_dials := d\<rparr>) = (on_conn i f k)\<lparr>k_dials := d\<rparr>"
  "on_conn i f (k\<lparr>k_streams := d\<rparr>) = (on_conn i f k)\<lparr>k_streams := d\<rparr>"
  by (cases k; simp add: on_conn_def kget_def kput_def split: option.split)+

lemma core_but_owed:
  assumes "core_but X k" and "i \<in> set (k_dials k) \<or> i \<in> set (k_streams k)"
  shows "\<exists>sl. kget k i = Some sl"
proof -
  have "\<forall>i \<in> set (k_dials k) \<union> set (k_streams k). kget k i \<noteq> None"
    using assms(1) by (simp add: core_but_def core_wf_def)
  then show ?thesis using assms(2) by blast
qed

lemma core_but_dialed:
  assumes "core_but {} k" and "i \<in> set (k_dials k)"
  shows "core_but {i} (on_conn i (\<lambda>c. c\<lparr>cn_connect_pending := False\<rparr>) (k\<lparr>k_dials := remove1 i (k_dials k)\<rparr>))"
    and "\<exists>sl. kget k i = Some sl \<and> \<not> cn_stream (slot_conn sl) \<and> \<not> cn_closed (slot_conn sl)"
proof -
  obtain sl where g: "kget k i = Some sl" using core_but_owed [OF assms(1)] assms(2) by blast
  then have si: "slot_in k i sl" using assms(1) core_but_get by blast
  then have p: "cn_connect_pending (slot_conn sl)" "\<not> cn_stream (slot_conn sl)" "\<not> cn_closed (slot_conn sl)"
    using assms(2) by (auto simp: slot_in_def slot_wf_def conn_wf_def)
  then show "\<exists>sl. kget k i = Some sl \<and> \<not> cn_stream (slot_conn sl) \<and> \<not> cn_closed (slot_conn sl)"
    using g by blast
  have ni: "i \<notin> set (k_streams k)" "distinct (k_dials k)" "distinct (k_streams k)"
    using si p assms(1) by (simp_all add: slot_in_def core_but_def core_wf_def)
  obtain c where b: "sl = Bare c"
    using si p by (cases sl) (auto simp: slot_in_def slot_wf_def conn_wf_def conn_armed_def)
  have "core_but {i} ((on_conn i (\<lambda>c. c\<lparr>cn_connect_pending := False\<rparr>) k)
      \<lparr>k_dials := remove1 i (k_dials k), k_streams := k_streams k\<rparr>)"
    by (rule core_but_update [OF assms(1) g])
      (use si p ni b in \<open>auto simp: slot_in_def slot_wf_def conn_wf_def conn_armed_def\<close>)
  then show "core_but {i} (on_conn i (\<lambda>c. c\<lparr>cn_connect_pending := False\<rparr>) (k\<lparr>k_dials := remove1 i (k_dials k)\<rparr>))"
    unfolding on_conn_owed by (rule core_but_same [THEN iffD1, rotated 5]) simp_all
qed

lemma core_but_opened:
  assumes "core_but {i} k" and "kget k i = Some sl" and "\<not> cn_connect_pending (slot_conn sl)"
    and "\<not> cn_stream (slot_conn sl)" and "\<not> cn_closed (slot_conn sl)"
  shows "core_but {} ((on_conn i (\<lambda>c. c\<lparr>cn_stream := True\<rparr>) k)\<lparr>k_streams := i # k_streams k\<rparr>)"
proof -
  let ?k = "(on_conn i (\<lambda>c. c\<lparr>cn_stream := True\<rparr>) k)\<lparr>k_streams := i # k_streams k\<rparr>"
  have gg: "kget ?k j = kget (on_conn i (\<lambda>c. c\<lparr>cn_stream := True\<rparr>) k) j" for j by (simp add: kget_def)
  have si: "slot_in k i sl" using assms(1,2) by (rule core_but_get)
  obtain c where b: "sl = Bare c"
    using si assms by (cases sl) (auto simp: slot_in_def slot_wf_def conn_wf_def conn_armed_def)
  have gk: "kget ?k j = (if j = i then Some (Bare (c\<lparr>cn_stream := True\<rparr>)) else kget k j)" for j
    using assms(2) b by (simp add: gg kget_on_conn)
  have ni: "i \<notin> set (k_streams k)" using si assms(4) by (simp add: slot_in_def)
  have "slot_in ?k i (Bare (c\<lparr>cn_stream := True\<rparr>))"
    using si assms(3-5) b by (auto simp: slot_in_def slot_wf_def conn_wf_def conn_armed_def)
  moreover have "slot_in ?k j sl'" if "j \<noteq> i" and "kget k j = Some sl'" for j sl'
    using core_but_get [OF assms(1) that(2)] that(1) by (simp add: slot_in_def)
  moreover have "distinct (map fst (k_conns ?k))" "k_reaped ?k = k_reaped k"
    using assms(1,2) kput_distinct [of k i] by (simp_all add: on_conn_def core_but_def core_wf_def)
  ultimately show ?thesis
    using assms(1,2,5) b ni by (auto simp: core_but_def core_wf_def gk reapable_iff)
qed

lemma core_but_closed:
  assumes "core_but {} k" and "i \<in> set (k_streams k)"
  shows "core_but {i} (on_conn i (\<lambda>c. c\<lparr>cn_closed := True, cn_stream := False\<rparr>)
      (k\<lparr>k_streams := remove1 i (k_streams k)\<rparr>))"
    and "\<exists>sl. kget k i = Some sl \<and> cn_stream (slot_conn sl)"
proof -
  let ?f = "\<lambda>c. c\<lparr>cn_closed := True, cn_stream := False\<rparr>"
  obtain sl where g: "kget k i = Some sl" using core_but_owed [OF assms(1)] assms(2) by blast
  then have si: "slot_in k i sl" using assms(1) core_but_get by blast
  then have p: "\<not> cn_connect_pending (slot_conn sl)" "cn_stream (slot_conn sl)" "i \<notin> set (k_dials k)"
    using assms(2) by (auto simp: slot_in_def slot_wf_def conn_wf_def)
  then show "\<exists>sl. kget k i = Some sl \<and> cn_stream (slot_conn sl)" using g by blast
  have di: "distinct (k_dials k)" "distinct (k_streams k)"
    using assms(1) by (simp_all add: core_but_def core_wf_def)
  have w: "slot_wf i (on_slot ?f sl)"
  proof (cases sl)
    case (Bare c)
    then show ?thesis using si p by (auto simp: slot_in_def slot_wf_def conn_wf_def conn_armed_def)
  next
    case (Piped s)
    let ?s = "s\<lparr>sys_pipe := (sys_pipe s)\<lparr>side_st := ?f (side_st (sys_pipe s))\<rparr>\<rparr>"
    have "tcp_inv ?s = tcp_inv s" by (simp add: tcp_inv_def tcp_inv_defs tcp_quiet_def)
    moreover have "client_pipe.owned (sys_pipe ?s) = client_pipe.owned (sys_pipe s)"
      by (simp add: client_pipe.owned_def)
    moreover have "client_pipe.settled (sys_pipe ?s)" by (simp add: client_pipe.settled_def conn_shut_def)
    ultimately show ?thesis
      using si p Piped by (auto simp: slot_in_def slot_wf_def conn_wf_def conn_armed_def)
  qed
  have "core_but {i} ((on_conn i ?f k)\<lparr>k_dials := k_dials k, k_streams := remove1 i (k_streams k)\<rparr>)"
    by (rule core_but_update [OF assms(1) g]) (use p di w in auto)
  then show "core_but {i} (on_conn i ?f (k\<lparr>k_streams := remove1 i (k_streams k)\<rparr>))"
    unfolding on_conn_owed by (rule core_but_same [THEN iffD1, rotated 5]) simp_all
qed

lemma sound_shutdown: "core_but {i} (ux_side x) \<Longrightarrow> filed x \<Longrightarrow> sound (shutdown_conn i x)"
  by (simp add: sound_def shutdown_core_wf filed_shutdown)

lemma sound_core_same:
  assumes "sound x" and "k_conns (f (ux_side x)) = k_conns (ux_side x)" "k_next (f (ux_side x)) = k_next (ux_side x)"
    "k_dials (f (ux_side x)) = k_dials (ux_side x)" "k_streams (f (ux_side x)) = k_streams (ux_side x)"
    "k_reaped (f (ux_side x)) = k_reaped (ux_side x)"
  shows "sound (in_core f x)"
proof -
  have "filed (in_core f x)"
    by (rule filed_in_core) (use assms(1) udp_live_same [OF assms(2)] in \<open>simp_all add: sound_def\<close>)
  then show ?thesis using assms core_but_same [OF assms(2-6)] by (simp add: sound_def)
qed

lemma sound_kact [simp]: "sound x \<Longrightarrow> sound (in_core (kact a) x)"
  by (rule sound_core_same) simp_all

lemma in_core_comp [simp]: "in_core f (in_core g x) = in_core (\<lambda>k. f (g k)) x"
  by (simp add: in_core_def)

lemma sound_connect_cb:
  assumes "sound x" and "i \<in> set (k_dials (ux_side x))"
  shows "sound (client_connect_cb i error conn opened x)"
proof -
  let ?pend = "\<lambda>c. c\<lparr>cn_connect_pending := False\<rparr>"
  let ?k = "(ux_side x)\<lparr>k_dials := remove1 i (k_dials (ux_side x))\<rparr>"
  let ?x = "in_core (\<lambda>k. on_conn i ?pend (k\<lparr>k_dials := remove1 i (k_dials k)\<rparr>)) x"
  have c: "core_but {} (ux_side x)" and f: "filed x" using assms(1) by (simp_all add: sound_def)
  obtain sl where g: "kget (ux_side x) i = Some sl" "\<not> cn_stream (slot_conn sl)" "\<not> cn_closed (slot_conn sl)"
    using core_but_dialed(2) [OF c assms(2)] by blast
  then have gk: "kget ?k i = Some sl" by (simp add: kget_def)
  have b: "core_but {i} (ux_side ?x)" using core_but_dialed(1) [OF c assms(2)] by simp
  have fx: "filed ?x" by (rule filed_in_core [OF f]) (simp add: on_conn_owed)
  have sh: "sound (shutdown_conn i (in_core h ?x))"
    if "\<And>k. core_but {i} (h k) = core_but {i} k" and "\<And>k. k_conns (h k) = k_conns k" for h
    by (rule sound_shutdown) (use b that in simp, rule filed_in_core [OF fx], simp add: udp_live_same [OF that(2)])
  have "sound (in_core (\<lambda>k. (on_conn i (\<lambda>c. c\<lparr>cn_stream := True\<rparr>) k)\<lparr>k_streams := i # k_streams k\<rparr>) ?x)"
  proof -
    have "core_but {} (ux_side (in_core (\<lambda>k. (on_conn i (\<lambda>c. c\<lparr>cn_stream := True\<rparr>) k)\<lparr>k_streams := i # k_streams k\<rparr>) ?x))"
      using core_but_opened [OF b, of "on_slot ?pend sl"] g gk by (simp add: kget_on_conn)
    moreover have "filed (in_core (\<lambda>k. (on_conn i (\<lambda>c. c\<lparr>cn_stream := True\<rparr>) k)\<lparr>k_streams := i # k_streams k\<rparr>) ?x)"
      by (rule filed_in_core [OF fx]) simp
    ultimately show ?thesis by (simp add: sound_def)
  qed
  then show ?thesis
    using gk sh [of id] sh [of "\<lambda>k. kact (KLog Error (''DHT connect failed: '' @ ke_connect_error (k_env k) error)) k"]
      sh [of "kact (KLog Error ''Failed to open stream'')"] g(1)
    by (simp add: client_connect_cb_def Let_def)
qed

lemma sound_pipe:
  assumes "sound x" and "pipe_may v i (ux_side x)"
  shows "sound (in_core (pipe_event v i) x)"
  using assms filed_in_core [of x "pipe_event v i"] by (simp add: sound_def core_but_pipe_needed)

lemma sound_tame: "sound x \<Longrightarrow> tame f \<Longrightarrow> sound (in_core (on_conn i f) x)"
  using filed_in_core [of x "on_conn i f"] by (simp add: sound_def core_but_tame)

lemma sound_drain_cb:
  assumes "sound x" and "client_enabled x (e, CeDrain i n)"
  shows "sound (client_drain_cb i n x)"
proof -
  have "pipe_may (EvDrained n) i (ux_side x)"
    using assms(2) by (auto simp: pipe_may_def client_enabled_def tcp_enabled_def Let_def)
  then show ?thesis using assms(1) by (simp add: client_drain_cb_def sound_pipe split: option.split)
qed

text \<open>The stream opens: the buffer is flushed, and a TCP connection gets its pipe.\<close>

lemma on_conn_comp: "on_conn i g (on_conn i f k) = on_conn i (\<lambda>c. g (f c)) k"
proof -
  have "on_slot g (on_slot f sl) = on_slot (\<lambda>c. g (f c)) sl" for sl by (cases sl) simp_all
  moreover have "kput i a (kput i b k) = kput i a k" for a b
    by (cases k) (simp add: kput_def update_Some_unfold)
  ultimately show ?thesis by (simp add: on_conn_def kget_kput split: option.split)
qed

lemma core_but_live:
  assumes "core_but {} k" and "kget k i = Some sl" and "cn_stream (slot_conn sl)" and "\<not> cn_closed (slot_conn sl)"
    and "slot_in k i sl'" and "cn_stream (slot_conn sl')" and "\<not> cn_closed (slot_conn sl')"
  shows "core_but {} (kput i sl' k)"
proof -
  have "core_but {i} k" using assms(1) by (rule core_but_mono) simp
  then have "core_but {i} (kput i sl' k)" using assms by (simp add: core_but_put)
  then show ?thesis by (rule core_but_needed) (use assms in \<open>auto simp: kget_kput reapable_iff\<close>)
qed

definition opened :: "byte list \<Rightarrow> int \<Rightarrow> client_conn \<Rightarrow> client_conn" where
  "opened buffered rc c =
     (if buffered = [] then c\<lparr>cn_open := True\<rparr>
      else ccalled (CWrite buffered rc) ((c\<lparr>cn_open := True\<rparr>)\<lparr>cn_pending := []\<rparr>))"

lemma opened_sel [simp]: "cn_stream (opened b rc c) = cn_stream c" "cn_closed (opened b rc c) = cn_closed c"
  "cn_tcp (opened b rc c) = cn_tcp c" "cn_udp (opened b rc c) = cn_udp c" "cn_open (opened b rc c)"
  "cn_id (opened b rc c) = cn_id c" "cn_connect_pending (opened b rc c) = cn_connect_pending c"
  "cn_pipe_done (opened b rc c) = cn_pipe_done c" "cn_client_id (opened b rc c) = cn_client_id c"
  "set (cn_calls c) \<subseteq> set (cn_calls (opened b rc c))"
  by (auto simp: opened_def ccalled_def)

lemma opened_pending: "cn_pending (opened (cn_pending c) rc c) = []"
  by (simp add: opened_def ccalled_def)

lemma slot_in_opened:
  assumes "slot_in k i sl" and "cn_stream (slot_conn sl)"
  shows "slot_in k i (on_slot (opened (cn_pending (slot_conn sl)) rc) sl)"
proof (cases sl)
  case (Bare c)
  then show ?thesis using assms
    by (auto simp: slot_in_def slot_wf_def conn_wf_def conn_armed_def opened_pending kMaxPending_def)
next
  case (Piped s)
  have "opened (cn_pending (slot_conn sl)) rc (slot_conn sl) = slot_conn sl"
    using assms Piped by (cases "slot_conn sl") (simp add: slot_in_def slot_wf_def conn_wf_def opened_def)
  then show ?thesis using assms(1) by (simp add: on_slot_same)
qed

lemma sound_on_stream_open:
  assumes "sound x" and g: "kget (ux_side x) i = Some sl" and st: "cn_stream (slot_conn sl)"
    "\<not> cn_closed (slot_conn sl)"
  shows "sound (on_stream_open i x)"
proof -
  let ?b = "cn_pending (slot_conn sl)"
  let ?rc = "ke_write (k_env (ux_side x))"
  let ?sl = "on_slot (opened ?b ?rc) sl"
  let ?x = "in_core (on_conn i (opened ?b ?rc)) x"
  have c: "core_but {} (ux_side x)" and f: "filed x" using assms(1) by (simp_all add: sound_def)
  have si: "slot_in (ux_side x) i sl" by (rule core_but_get [OF c g])
  have k: "ux_side ?x = kput i ?sl (ux_side x)" using g by (simp add: on_conn_def)
  have cx: "core_but {} (ux_side ?x)"
    unfolding k by (rule core_but_live [OF c g st]) (simp_all add: slot_in_opened [OF si st(1)] st)
  have "udp_live (on_conn j (opened b rc) k) n a = udp_live k n a" for j b rc k n a
    by (cases "kget k j"; cases "the (kget k j)"; auto simp: udp_live_def kget_on_conn)
  then have fx: "filed ?x" by (intro filed_in_core [OF f]) simp
  have sx: "sound ?x" using cx fx by (simp add: sound_def)
  have two: "(if ?b = [] then in_core (on_conn i (\<lambda>c. c\<lparr>cn_open := True\<rparr>)) x
      else in_core (on_conn i (\<lambda>c. ccalled (CWrite ?b ?rc) (c\<lparr>cn_pending := []\<rparr>)))
        (in_core (on_conn i (\<lambda>c. c\<lparr>cn_open := True\<rparr>)) x)) = ?x"
    by (simp add: in_core_def on_conn_comp opened_def [abs_def])
  have gx: "kget (ux_side ?x) i = Some ?sl" by (simp add: kget_on_conn g)
  have cx1: "core_but {i} (ux_side ?x)" using cx by (rule core_but_mono) simp
  have ?thesis if tcp: "\<not> cn_udp (slot_conn sl)" "cn_tcp (slot_conn sl)"
    and ok: "\<not> (?b \<noteq> [] \<and> ?rc < 0)"
  proof -
    let ?c = "(slot_conn ?sl)\<lparr>cn_tcp := False\<rparr>"
    let ?s = "\<lparr>sys_pipe = new_pipe True ?c, wq = [], tcp_sys.dq = [], conn_req = False\<rparr>"
    let ?y = "in_core (kput i (Piped ?s)) ?x"
    have "tcp_inv ?s" by (rule tcp_inv_start) (simp add: tcp_start_def new_pipe_def)
    moreover have "slot_in (ux_side x) i ?sl" by (rule slot_in_opened [OF si st(1)])
    moreover obtain cc where b: "sl = Bare cc" using tcp si slot_piped by (cases sl) auto
    ultimately have "slot_in (ux_side ?x) i (Piped ?s)"
      using tcp st by (auto simp: slot_in_def slot_wf_def conn_wf_def conn_armed_def new_pipe_def k
          client_pipe.owned_def client_pipe.settled_def)
    then have "core_but {} (ux_side ?y)"
      unfolding side_in_core
      by (intro core_but_live [OF cx [unfolded side_in_core] gx [unfolded side_in_core]])
        (use st in \<open>simp_all add: new_pipe_def\<close>)
    moreover have "udp_live (kput i (Piped ?s) (ux_side ?x)) j a" if "udp_live (ux_side ?x) j a" for j a
    proof (cases "j = i")
      case True
      then show ?thesis using udp_live_id [OF gx, of a] that tcp by simp
    next
      case False
      then show ?thesis using that unfolding udp_live_def kget_kput by simp
    qed
    then have "filed ?y" by (intro filed_in_core [OF fx]) simp
    ultimately have sy: "sound ?y" by (simp add: sound_def)
    have sz: "sound (in_core (pipe_event EvAdopt i) ?y)"
      by (rule sound_pipe [OF sy]) (simp add: pipe_may_def kget_kput tcp_enabled_def new_pipe_def)
    then have "core_but {i} (ux_side (in_core (pipe_event EvAdopt i) ?y))" "filed (in_core (pipe_event EvAdopt i) ?y)"
      by (auto simp: sound_def intro: core_but_mono)
    note sw = sound_shutdown [OF this]
    show ?thesis
      unfolding on_stream_open_def g option.case Let_def two if_not_P [OF ok]
      using sz sw tcp gx by simp
  qed
  moreover have ?thesis if "?b \<noteq> [] \<and> ?rc < 0 \<or> cn_udp (slot_conn sl) \<or> \<not> cn_tcp (slot_conn sl)"
  proof (cases "?b \<noteq> [] \<and> ?rc < 0")
    case True
    show ?thesis
      unfolding on_stream_open_def g option.case Let_def two if_P [OF True] by (rule sound_shutdown [OF cx1 fx])
  next
    case False
    have "(if cn_udp (slot_conn sl) then ?x else if \<not> cn_tcp (slot_conn sl) then ?x else z) = ?x" for z
      using that False by argo
    then show ?thesis unfolding on_stream_open_def g option.case Let_def two if_not_P [OF False] using sx by simp
  qed
  ultimately show ?thesis by blast
qed

text \<open>A stream closes.\<close>

lemma uclose_sel [simp]: "ux_side (uproxy_on_stream_close a x) = ux_side x"
  "in_core f (uproxy_on_stream_close a x) = uproxy_on_stream_close a (in_core f x)"
  by (simp_all add: uproxy_on_stream_close_def in_core_def)

lemma uclose_side: "uproxy_on_stream_close a (x\<lparr>ux_side := k\<rparr>) = (uproxy_on_stream_close a x)\<lparr>ux_side := k\<rparr>"
  by (cases x) (simp add: uproxy_on_stream_close_def)

lemma sound_stream_close:
  assumes "sound x" and "i \<in> set (k_streams (ux_side x))"
  shows "sound (client_stream_close_cb i x)"
proof -
  let ?f = "\<lambda>c. c\<lparr>cn_closed := True, cn_stream := False\<rparr>"
  let ?k = "on_conn i ?f ((ux_side x)\<lparr>k_streams := remove1 i (k_streams (ux_side x))\<rparr>)"
  let ?x = "in_core (\<lambda>k. on_conn i ?f (k\<lparr>k_streams := remove1 i (k_streams k)\<rparr>)) x"
  have c: "core_but {} (ux_side x)" and f: "filed x" using assms(1) by (simp_all add: sound_def)
  obtain sl where g: "kget (ux_side x) i = Some sl" using core_but_closed(2) [OF c assms(2)] by blast
  have si: "slot_in (ux_side x) i sl" by (rule core_but_get [OF c g])
  have b: "core_but {i} ?k" by (rule core_but_closed(1) [OF c assms(2)])
  have gk: "kget ?k i = Some (on_slot ?f sl)" using g by (simp add: on_conn_owed kget_def kget_on_conn [unfolded kget_def])
  have o: "udp_live ?k n a" if "udp_live (ux_side x) n a" and "n \<noteq> i" for n a
    using that by (simp add: on_conn_owed udp_live_other)
  have fu: "filed (uproxy_on_stream_close (cn_client_id (slot_conn sl)) x\<lparr>ux_side := k\<rparr>)"
    if "\<And>n a. n \<noteq> i \<Longrightarrow> udp_live (ux_side x) n a \<Longrightarrow> udp_live k n a" for k
  proof (rule filed_drop [OF f])
    fix n a
    assume a: "a \<noteq> cn_client_id (slot_conn sl)" "udp_live (ux_side x) n a"
    then have "n \<noteq> i" using udp_live_id [OF g] by auto
    then show "udp_live k n a" using that a(2) by simp
  qed
  have fn: "filed (x\<lparr>ux_side := k\<rparr>)"
    if "\<not> cn_udp (slot_conn sl)" and "\<And>n a. n \<noteq> i \<Longrightarrow> udp_live (ux_side x) n a \<Longrightarrow> udp_live k n a" for k
  proof (rule filed_core [OF f])
    fix n a
    assume a: "udp_live (ux_side x) n a"
    then have "n \<noteq> i" using udp_live_id [OF g] that(1) by auto
    then show "udp_live k n a" using that(2) a by simp
  qed
  have e: "kget ((ux_side x)\<lparr>k_streams := remove1 i (k_streams (ux_side x))\<rparr>) i = Some sl" using g by (simp add: kget_def)
  show ?thesis
  proof (cases "cn_udp (slot_conn sl)")
    case True
    have r: "core_but {} (reap i ?k)"
      by (rule core_but_reap [OF b])
        (use gk True si in \<open>auto simp: slot_in_def slot_wf_def conn_wf_def\<close>)
    have "filed ((uproxy_on_stream_close (cn_client_id (slot_conn sl)) x)\<lparr>ux_side := reap i ?k\<rparr>)"
      by (rule fu) (simp add: o udp_live_other)
    then show ?thesis using r True e
      by (simp add: client_stream_close_cb_def Let_def sound_def)
        (simp add: in_core_def uclose_side)
  next
    case False
    show ?thesis
    proof (cases sl)
      case (Piped s)
      have p: "core_but {i} (pipe_event EvStreamClose i ?k)" by (rule core_but_pipe [OF b pipe_may_owner(2)])
      have "core_but {} (reap i (pipe_event EvStreamClose i ?k))"
      proof (rule core_but_reap [OF p])
        fix s' assume s': "kget (pipe_event EvStreamClose i ?k) i = Some s'"
        then obtain s1 where "s' = Piped s1"
          using gk Piped by (auto simp: pipe_event_piped kget_reap kget_kput split: if_splits)
        then show "\<not> cn_tcp (slot_conn s')" using core_but_get [OF p s'] slot_piped by auto
      qed
      moreover have "filed (x\<lparr>ux_side := reap i (pipe_event EvStreamClose i ?k)\<rparr>)"
        by (rule fn [OF False]) (simp add: o udp_live_other)
      ultimately show ?thesis using Piped False e
        by (simp add: client_stream_close_cb_def Let_def sound_def) (simp add: in_core_def)
    next
      case (Bare cc)
      have "filed ?x" unfolding in_core_def by (rule fn [OF False]) (rule o)
      then have "sound (shutdown_conn i ?x)" using b by (intro sound_shutdown) simp_all
      moreover have "core_but {} (reap i ?k)" if "\<not> cn_tcp cc"
        by (rule core_but_reap [OF b]) (use gk Bare that in simp)
      moreover have "filed (x\<lparr>ux_side := reap i ?k\<rparr>)"
        by (rule fn [OF False]) (simp add: o udp_live_other)
      ultimately show ?thesis using Bare False e
        by (auto simp: client_stream_close_cb_def Let_def sound_def in_core_def)
    qed
  qed
qed

text \<open>Data arrives on a stream; the proxy may drop its client for it.\<close>

lemma sound_same_files:
  assumes "sound x" and "ux_side y = ux_side x" and "ux_sock y = ux_sock x" and "ux_open y = ux_open x"
    and "\<And>i c. ux_clients y i = Some c \<Longrightarrow> \<exists>c0. ux_clients x i = Some c0 \<and> uc_stream c = uc_stream c0"
  shows "sound y"
proof -
  have "\<exists>j. uc_stream c = udp_side j \<and> udp_live (ux_side y) j i" if "ux_clients y i = Some c" for i c
    using assms(5) [OF that] filed_get [of x i] assms(1,2) by (auto simp: sound_def)
  moreover have "ux_clients y = Map.empty" if "\<not> ux_sock y"
  proof (rule ext)
    show "ux_clients y i = None" for i
      using assms(5) [of i] that assms(1,3) by (cases "ux_clients y i") (auto simp: sound_def filed_def)
  qed
  ultimately show ?thesis using assms by (simp add: sound_def filed_def)
qed

lemma udp_side_sel [simp]: "ss_write (udp_side j) = Some (client_side_write j)"
  "ss_close (udp_side j) = Some (on_conn j conn_close)"
  by (simp_all add: udp_side_def)

lemma sound_drop:
  assumes "sound x" and "uc_stream c = udp_side j"
  shows "sound (uproxy_drop i c x)"
proof -
  have "sound (x\<lparr>ux_clients := (ux_clients x)(i := None)\<rparr>)"
    by (rule sound_same_files [OF assms(1)]) (auto split: if_splits)
  from sound_tame [OF this, of conn_close j] show ?thesis
    using assms(2) by (simp add: uproxy_drop_def Let_def call_def in_core_def)
qed

lemma sound_uxemit [simp]: "sound x \<Longrightarrow> sound (uxemit a x)"
  by (erule sound_same_files) (simp_all add: uxemit_def)

lemma sound_udp_data:
  assumes "sound x"
  shows "sound (uproxy_on_stream_data e i data x)"
proof (cases "ux_clients x i")
  case None
  then show ?thesis using assms by (simp add: uproxy_on_stream_data_def)
next
  case (Some c)
  obtain ok buf ds where r: "decoder_push (uc_buf c) data = (ok, buf, ds)"
    by (cases "decoder_push (uc_buf c) data")
  obtain j where j: "uc_stream c = udp_side j" using filed_get [OF _ Some] assms by (auto simp: sound_def)
  let ?x = "x\<lparr>ux_clients := (ux_clients x)(i \<mapsto> c\<lparr>uc_buf := buf\<rparr>), ux_acts := send_all e (uc_addr c) ds (ux_acts x)\<rparr>"
  have s: "sound ?x" by (rule sound_same_files [OF assms]) (use Some in \<open>auto split: if_splits\<close>)
  then show ?thesis
    using Some r assms sound_drop [OF sound_uxemit [OF s] j] by (simp add: uproxy_on_stream_data_def Let_def)
qed

lemma sound_stream_data: "sound x \<Longrightarrow> sound (client_stream_data_cb i data x)"
  by (simp add: client_stream_data_cb_def sound_udp_data sound_pipe pipe_may_owner split: option.split)

lemma sound_stream_open: "sound x \<Longrightarrow> sound (client_stream_open_cb i x)"
  by (auto simp: client_stream_open_cb_def sound_on_stream_open split: option.split)

text \<open>A new connection is dialed.\<close>

lemma next_fresh:
  assumes "core_but {} k" and "k_next k \<noteq> -1"
  shows "kget k (k_next k) = None" and "k_next k < k_next k + 1"
    and "i < k_next k \<Longrightarrow> i < k_next k + 1"
    and "k_next k \<notin> set (k_dials k)" "k_next k \<notin> set (k_streams k)"
proof -
  show n: "kget k (k_next k) = None"
    using assms(1) by (cases "kget k (k_next k)") (auto simp: core_but_def core_wf_def slot_in_def)
  have "1 + k_next k \<noteq> 0" using assms(2) add_eq_0_iff [of 1 "k_next k"] by simp
  from unatSuc [OF this] show l: "k_next k < k_next k + 1" by (simp add: word_less_nat_alt add.commute)
  show "i < k_next k \<Longrightarrow> i < k_next k + 1" using l by simp
  show "k_next k \<notin> set (k_dials k)" "k_next k \<notin> set (k_streams k)"
    using core_but_owed [OF assms(1), of "k_next k"] n by auto
qed

lemma core_but_new:
  assumes wf: "core_but {} k" and nx: "k_next k \<noteq> -1" and c: "conn_wf (k_next k) c" "\<not> cn_pipe_done c" "\<not> cn_stream c"
    and d: "d = (if cn_connect_pending c then k_next k # k_dials k else k_dials k)"
  shows "core_but {k_next k} ((kput (k_next k) (Bare c) (k\<lparr>k_next := k_next k + 1\<rparr>))\<lparr>k_dials := d\<rparr>)"
proof -
  define k' where "k' = (kput (k_next k) (Bare c) (k\<lparr>k_next := k_next k + 1\<rparr>))\<lparr>k_dials := d\<rparr>"
  note fr = next_fresh [OF wf nx]
  have gg: "kget k' j = (if j = k_next k then Some (Bare c) else kget k j)" for j
    by (simp add: kget_def k'_def kput_def update_conv)
  have f: "k_next k' = k_next k + 1" "k_dials k' = d" "k_streams k' = k_streams k" "k_reaped k' = k_reaped k"
    by (simp_all add: k'_def)
  have "slot_in k' (k_next k) (Bare c)" using c d fr by (simp add: slot_in_def slot_wf_def f)
  moreover have "slot_in k' j sl" if "j \<noteq> k_next k" and "kget k j = Some sl" for j sl
    using core_but_get [OF wf that(2)] that(1) fr(3) d by (simp add: slot_in_def f)
  moreover have "distinct (map fst (k_conns k'))"
    using wf kput_distinct [of "k\<lparr>k_next := k_next k + 1\<rparr>"] by (simp add: core_but_def core_wf_def k'_def)
  moreover have "kget k' j \<noteq> None" if "j \<in> set (k_dials k') \<union> set (k_streams k')" for j
    using that core_but_owed [OF wf, of j] d by (auto simp: gg f split: if_splits)
  moreover have "distinct d" using wf d fr(4) by (simp add: core_but_def core_wf_def)
  ultimately have "core_but {k_next k} k'"
    using wf by (simp add: core_but_def core_wf_def f gg)
  then show ?thesis unfolding k'_def .
qed

lemma new_conn_wf: "conn_wf i (new_client_conn i u a)" "conn_wf i ((new_client_conn i u a)\<lparr>cn_connect_pending := False\<rparr>)"
  by (simp_all add: conn_wf_def new_client_conn_def)

text \<open>The common part of \<open>on_local_connection\<close> and \<open>open_udp_stream\<close>.\<close>

definition dial :: "bool \<Rightarrow> string \<Rightarrow> client_core \<Rightarrow> client_core \<times> bool" where
  "dial u a k =
     (let c = new_client_conn (k_next k) u a
      in begin_dht_connect c (kemplace (cn_id c) (Bare c) (k\<lparr>k_next := k_next k + 1\<rparr>)))"

lemma new_conn_sel [simp]: "cn_id (new_client_conn i u a) = i" "cn_udp (new_client_conn i u a) = u"
  "cn_connect_pending (new_client_conn i u a)" "\<not> cn_stream (new_client_conn i u a)"
  "\<not> cn_pipe_done (new_client_conn i u a)" "cn_client_id (new_client_conn i u a) = a"
  "\<not> cn_closed (new_client_conn i u a)"
  by (simp_all add: new_client_conn_def)

lemma dial_cases:
  assumes wf: "core_but {} k" and nx: "k_next k \<noteq> -1"
  obtains (up) k' where "dial u a k = (k', True)" and "core_but {} k'"
      and "kget k' (k_next k) = Some (Bare (new_client_conn (k_next k) u a))"
      and "\<And>j. j \<noteq> k_next k \<Longrightarrow> kget k' j = kget k j" and "k_destroyed k' = k_destroyed k"
    | (down) k' where "dial u a k = (k', False)" and "core_but {} k'"
      and "\<And>j. j \<noteq> k_next k \<Longrightarrow> kget k' j = kget k j" and "k_destroyed k' = k_destroyed k"
proof (cases "ke_connect (k_env k) < 0")
  case False
  let ?i = "k_next k"
  let ?c = "new_client_conn ?i u a"
  let ?k0 = "kput ?i (Bare ?c) (k\<lparr>k_next := ?i + 1\<rparr>)"
  let ?a = "KDial (if ck_secure (k_config k) then Some (k_keypair k) else None) (k_target k) (\<not> u)"
  have fresh: "kget (k\<lparr>k_next := ?i + 1\<rparr>) ?i = None" using next_fresh(1) [OF wf nx] by (simp add: kget_def)
  have e: "dial u a k = ((kact ?a ?k0)\<lparr>k_dials := ?i # k_dials k\<rparr>, True)"
    using False fresh by (simp add: dial_def begin_dht_connect_def Let_def kemplace_def kput_def)
  have "core_but {?i} (?k0\<lparr>k_dials := ?i # k_dials k\<rparr>)"
    by (rule core_but_new [OF wf nx]) (simp_all add: new_conn_wf)
  then have "core_but {} (?k0\<lparr>k_dials := ?i # k_dials k\<rparr>)"
    by (rule core_but_needed) (simp add: kget_def kput_def update_conv reapable_iff)
  then have "core_but {} ((kact ?a ?k0)\<lparr>k_dials := ?i # k_dials k\<rparr>)"
    by (rule core_but_same [THEN iffD1, rotated 5]) (simp_all add: kact_def)
  then show ?thesis
    by (rule up [OF e]) (simp_all add: kget_def kput_def kact_def update_conv)
next
  case True
  let ?i = "k_next k"
  let ?c = "new_client_conn ?i u a"
  let ?k0 = "kput ?i (Bare ?c) (k\<lparr>k_next := ?i + 1\<rparr>)"
  let ?a = "KDial (if ck_secure (k_config k) then Some (k_keypair k) else None) (k_target k) (\<not> u)"
  let ?k1 = "kact (KLog Error (''DHT connect failed: '' @ ke_connect_error (k_env k) (ke_connect (k_env k))))
    (on_conn ?i (\<lambda>c. c\<lparr>cn_connect_pending := False\<rparr>) (kact ?a ?k0))"
  have fresh: "kget (k\<lparr>k_next := ?i + 1\<rparr>) ?i = None" using next_fresh(1) [OF wf nx] by (simp add: kget_def)
  have e: "dial u a k = (shutdown_core ?i ?k1, False)"
    using True fresh by (simp add: dial_def begin_dht_connect_def Let_def kemplace_def kput_def)
  define k2 where "k2 = (kput ?i (Bare (?c\<lparr>cn_connect_pending := False\<rparr>)) (k\<lparr>k_next := ?i + 1\<rparr>))\<lparr>k_dials := k_dials k\<rparr>"
  have b2: "core_but {?i} k2"
    unfolding k2_def by (rule core_but_new [OF wf nx]) (simp_all add: new_conn_wf)
  have c2: "k_conns ?k1 = k_conns k2"
    by (simp add: on_conn_def kget_kput k2_def) (simp add: kput_def kact_def)
  have r2: "k_reaped ?k1 = k_reaped k2" by (simp add: on_conn_def kget_kput k2_def)
  have "core_but {?i} ?k1 = core_but {?i} k2"
    by (rule core_but_same [OF c2 _ _ _ r2]) (simp_all add: k2_def)
  with b2 have b: "core_but {?i} ?k1" by simp
  have "kget (shutdown_core ?i ?k1) j = kget (k\<lparr>k_next := ?i + 1\<rparr>) j" if "j \<noteq> ?i" for j
    using that by (simp add: kget_shutdown_other kget_on_conn kget_kput)
  then have "kget (shutdown_core ?i ?k1) j = kget k j" if "j \<noteq> ?i" for j
    using that by (simp add: kget_def)
  moreover have "k_destroyed (shutdown_core ?i ?k1) = k_destroyed k" by simp
  ultimately show ?thesis by (rule down [OF e shutdown_core_wf(1) [OF b]])
qed

lemma on_local_connection_dial:
  "on_local_connection accepted k =
    (if \<not> accepted then k else if k_destroyed k \<or> \<not> k_dht k then kact (KSocketClose None) k
     else fst (dial False [] k))"
  by (simp add: on_local_connection_def dial_def Let_def)

lemma open_udp_stream_dial:
  "open_udp_stream k a =
    (if k_destroyed k \<or> \<not> k_dht k then (k, no_side)
     else case dial True a k of (k', ok) \<Rightarrow> (k', if ok then udp_side (k_next k) else no_side))"
  by (simp add: open_udp_stream_def dial_def Let_def split: prod.split)

lemma filed_dial:
  assumes "filed x" and "sound x" and "\<And>j. j \<noteq> k_next (ux_side x) \<Longrightarrow> kget k' j = kget (ux_side x) j"
    and "k_next (ux_side x) \<noteq> -1"
  shows "filed (x\<lparr>ux_side := k'\<rparr>)"
proof (rule filed_core [OF assms(1)])
  fix j i
  assume l: "udp_live (ux_side x) j i"
  then have "kget (ux_side x) j \<noteq> None" by (auto simp: udp_live_def)
  moreover have "kget (ux_side x) (k_next (ux_side x)) = None"
    using next_fresh(1) [OF _ assms(4)] assms(2) by (simp add: sound_def)
  ultimately have "j \<noteq> k_next (ux_side x)" by auto
  then show "udp_live k' j i" using l assms(3) by (simp add: udp_live_def)
qed

lemma sound_dial:
  assumes "sound x" and "k_next (ux_side x) \<noteq> -1"
  shows "sound (x\<lparr>ux_side := fst (dial u a (ux_side x))\<rparr>)"
    and "snd (dial u a (ux_side x)) \<Longrightarrow>
      kget (fst (dial u a (ux_side x))) (k_next (ux_side x)) = Some (Bare (new_client_conn (k_next (ux_side x)) u a))"
    and "k_destroyed (fst (dial u a (ux_side x))) = k_destroyed (ux_side x)"
proof -
  have c: "core_but {} (ux_side x)" and f: "filed x" using assms(1) by (simp_all add: sound_def)
  show "sound (x\<lparr>ux_side := fst (dial u a (ux_side x))\<rparr>)"
    by (rule dial_cases [OF c assms(2), of u a])
      (use filed_dial [OF f assms(1) _ assms(2)] in \<open>simp_all add: sound_def\<close>)
  show "snd (dial u a (ux_side x)) \<Longrightarrow>
      kget (fst (dial u a (ux_side x))) (k_next (ux_side x)) = Some (Bare (new_client_conn (k_next (ux_side x)) u a))"
    by (rule dial_cases [OF c assms(2), of u a]) simp_all
  show "k_destroyed (fst (dial u a (ux_side x))) = k_destroyed (ux_side x)"
    by (rule dial_cases [OF c assms(2), of u a]) simp_all
qed

lemma sound_accept:
  assumes "sound x" and "k_next (ux_side x) \<noteq> -1"
  shows "sound (in_core (on_local_connection b) x)"
  using sound_dial(1) [OF assms, of False "[]"] assms(1) sound_kact [OF assms(1), of "KSocketClose None"]
  by (simp add: in_core_def on_local_connection_dial)

lemma side_write_conn:
  "fst (client_side_write j k data n) = on_conn j (\<lambda>c. fst (conn_write (ke_write (k_env k)) c data n)) k"
proof (cases "kget k j")
  case (Some sl)
  have "on_slot (\<lambda>_. f (slot_conn sl)) sl = on_slot f sl" for f by (cases sl) simp_all
  then show ?thesis using Some by (simp add: client_side_write_def on_conn_def split: prod.split) (metis fst_conv)
qed (simp add: client_side_write_def on_conn_def)

lemma sound_uproxy_write:
  assumes "sound x" and "uc_stream c = udp_side j"
  shows "sound (uproxy_write i c data x)"
proof -
  obtain st rc where r: "client_side_write j (ux_side x) (frame data) None = (st, rc)"
    by (cases "client_side_write j (ux_side x) (frame data) None")
  have "sound (x\<lparr>ux_side := st\<rparr>)"
    using sound_tame [OF assms(1), of "\<lambda>c. fst (conn_write (ke_write (k_env (ux_side x))) c (frame data) None)" j]
      side_write_conn [of j "ux_side x" "frame data" None] r
    by (simp add: in_core_def)
  then show ?thesis using assms(2) r sound_drop [OF sound_uxemit assms(2)]
    by (simp add: uproxy_write_def Let_def)
qed

text \<open>The client a datagram belongs to, opened if it is new.\<close>

lemma sound_uproxy_client:
  assumes "sound x" and "k_next (ux_side x) \<noteq> -1" and "ux_sock x"
  shows "sound (fst (uproxy_client nm addr x))"
    and "snd (uproxy_client nm addr x) = Some c \<Longrightarrow> \<exists>j. uc_stream c = udp_side j"
proof -
  let ?i = "client_key nm addr"
  have f: "filed x" using assms(1) by (simp add: sound_def)
  have "sound (fst (uproxy_client nm addr x)) \<and>
    (\<forall>c. snd (uproxy_client nm addr x) = Some c \<longrightarrow> (\<exists>j. uc_stream c = udp_side j))"
  proof (cases "ux_clients x ?i = None \<and> ux_open x \<noteq> None")
    case False
    then show ?thesis using assms(1) filed_get [OF f, of ?i]
      by (auto simp: uproxy_client_def Let_def split: option.split)
  next
    case True
    then have o: "ux_open x = Some open_udp_stream" using f by (auto simp: filed_def)
    let ?k = "ux_side x"
    show ?thesis
    proof (cases "k_destroyed ?k \<or> \<not> k_dht ?k \<or> \<not> snd (dial True ?i ?k)")
      case True
      then have "ss_write (snd (open_udp_stream ?k ?i)) = None \<and> sound (x\<lparr>ux_side := fst (open_udp_stream ?k ?i)\<rparr>)"
        using assms(1) sound_dial(1) [OF assms(1,2), of True ?i]
        by (auto simp: open_udp_stream_dial no_side_def split: prod.split)
      then show ?thesis using \<open>ux_clients x ?i = None \<and> ux_open x \<noteq> None\<close> o
        by (cases "open_udp_stream ?k ?i") (simp add: uproxy_client_def Let_def)
    next
      case False
      let ?k' = "fst (dial True ?i ?k)"
      have op: "open_udp_stream ?k ?i = (?k', udp_side (k_next ?k))"
        using False by (auto simp: open_udp_stream_dial split: prod.split)
      have s: "sound (x\<lparr>ux_side := ?k'\<rparr>)" by (rule sound_dial(1) [OF assms(1,2)])
      have l: "udp_live ?k' (k_next ?k) ?i"
        using sound_dial(2) [OF assms(1,2)] False by (simp add: udp_live_def)
      let ?c = "\<lparr>uc_stream = udp_side (k_next ?k), uc_addr = addr, uc_buf = []\<rparr>"
      let ?y = "(uxemit (ULog Debug (''New UDP client '' @ ?i)) (x\<lparr>ux_side := ?k'\<rparr>))
        \<lparr>ux_clients := (ux_clients x)(?i \<mapsto> ?c)\<rparr>"
      have "sound ?y"
        using s l assms(3) by (auto simp: sound_def filed_def uxemit_def)
      then show ?thesis using True o op
        by (auto simp: uproxy_client_def Let_def uxemit_def)
    qed
  qed
  then show "sound (fst (uproxy_client nm addr x))"
    "snd (uproxy_client nm addr x) = Some c \<Longrightarrow> \<exists>j. uc_stream c = udp_side j" by auto
qed

lemma sound_recv:
  assumes "sound x" and "k_next (ux_side x) \<noteq> -1"
  shows "sound (uproxy_recv_cb e nm nread buf addr partial x)"
proof (cases "ux_sock x")
  case True
  have "sound (case uproxy_client nm a x of (x, None) \<Rightarrow> x | (x, Some c) \<Rightarrow> uproxy_write (client_key nm a) c bs x)" for a bs
    using sound_uproxy_client [OF assms True, of nm a] sound_uproxy_write
    by (auto split: prod.split option.split)
  then show ?thesis using assms(1) by (simp add: uproxy_recv_cb_def split: option.split)
qed (use assms in \<open>simp add: uproxy_recv_cb_def\<close>)

text \<open>The record, the proxy, the owner's calls.\<close>

lemma mutable_cb_frame [simp]:
  "k_conns (mutable_cb k r) = k_conns k" "k_next (mutable_cb k r) = k_next k"
  "k_dials (mutable_cb k r) = k_dials k" "k_streams (mutable_cb k r) = k_streams k"
  "k_reaped (mutable_cb k r) = k_reaped k" "k_destroyed (mutable_cb k r) = k_destroyed k"
  "k_tcp_proxy (mutable_cb k r) = k_tcp_proxy k" "k_query (mutable_cb k r) = k_query k"
  "k_env (mutable_cb k r) = k_env k"
  by (simp_all add: mutable_cb_def split: prod.split option.split)

lemma uproxy_close_sel [simp]: "ux_side (uproxy_close x) = ux_side x" "ux_clients (uproxy_close x) = Map.empty"
  "ux_open (uproxy_close x) = ux_open x" "\<not> ux_sock (uproxy_close x)"
  by (simp_all add: uproxy_close_def uxemit_def Let_def)

lemma sound_uproxy_close: "sound x \<Longrightarrow> sound (uproxy_close x)"
  by (simp add: sound_def filed_def)

lemma uproxy_listen_cases:
  obtains (up) y where "uproxy_listen e h p (Some open_udp_stream) x = (y, 0)" and "ux_sock y"
      and "ux_clients y = ux_clients x" "ux_side y = ux_side x" "ux_open y = Some open_udp_stream"
    | (down) y rc where "uproxy_listen e h p (Some open_udp_stream) x = (y, rc)" and "\<not> ux_sock y"
      and "ux_clients y = Map.empty \<or> ux_clients y = ux_clients x" "ux_side y = ux_side x"
      "ux_open y = Some open_udp_stream \<or> ux_open y = ux_open x"
proof -
  obtain rc addr where a: "resolve (ue_resolver e) h p = (rc, addr)" by (cases "resolve (ue_resolver e) h p")
  show ?thesis
    using up down
    by (cases "ue_init e = 0"; cases "rc = 0"; cases "ue_bind e = 0"; cases "ue_recv_start e = 0"; cases "ue_sockname e")
      (auto simp: uproxy_listen_def Let_def a uxemit_def)
qed

lemma sound_uproxy_listen:
  assumes "sound x" and "\<not> ux_sock x"
  shows "sound (fst (uproxy_listen e h p (Some open_udp_stream) x))"
    and "ux_side (fst (uproxy_listen e h p (Some open_udp_stream) x)) = ux_side x"
proof -
  have "ux_clients x = Map.empty" using assms by (simp add: sound_def filed_def)
  then show "sound (fst (uproxy_listen e h p (Some open_udp_stream) x))"
    using assms(1) by (cases rule: uproxy_listen_cases [of e h p x]) (auto simp: sound_def filed_def)
  show "ux_side (fst (uproxy_listen e h p (Some open_udp_stream) x)) = ux_side x"
    by (cases rule: uproxy_listen_cases [of e h p x]) auto
qed

lemma sound_start_proxy:
  assumes "sound x" and "\<not> ux_sock x"
  shows "sound (fst (start_proxy x))"
proof -
  let ?x = "in_core (\<lambda>k. k\<lparr>k_resolved := client_resolve (k_config k) (k_record k)\<rparr>) x"
  let ?r = "k_resolved (ux_side ?x)"
  let ?e = "k_env (ux_side ?x)"
  let ?l = "if rs_udp ?r then uproxy_listen (ke_udp ?e) (rs_host ?r) (rs_port ?r) (Some open_udp_stream) ?x
    else case proxy_listen (ke_proxy ?e) (rs_host ?r) (rs_port ?r) True (k_tcp_proxy (ux_side ?x)) of
           (px, rc) \<Rightarrow> (in_core (\<lambda>k. k\<lparr>k_tcp_proxy := px\<rparr>) ?x, rc)"
  have sx: "sound ?x" by (rule sound_core_same [OF assms(1)]) simp_all
  have nx: "\<not> ux_sock ?x" using assms(2) by simp
  have "sound (in_core (\<lambda>k. k\<lparr>k_tcp_proxy := px\<rparr>) ?x)" for px by (rule sound_core_same [OF sx]) simp_all
  then have l: "sound (fst ?l)"
    using sound_uproxy_listen(1) [OF sx nx, of "ke_udp ?e" "rs_host ?r" "rs_port ?r"]
    by (simp split: prod.split)
  have up: "sound (in_core (\<lambda>k. kact a (k\<lparr>k_state := st\<rparr>)) y)" "sound (in_core (\<lambda>k. kact a (k\<lparr>k_on_listening := b\<rparr>)) y)"
    if "sound y" for y a st b
    by (rule sound_core_same [OF that]; simp)+
  obtain y rc where yr: "?l = (y, rc)" by (cases ?l)
  then have "sound y" using l by simp
  then show ?thesis
    unfolding start_proxy_def Let_def yr by (simp add: up sound_kact del: in_core_comp)
qed

lemma sound_mutable_done:
  assumes "sound x" and "\<not> ux_sock x"
  shows "sound (mutable_done_cb x)"
proof -
  have "sound (in_core (\<lambda>k. kact a (k\<lparr>k_query := b\<rparr>)) x)" for a b by (rule sound_core_same [OF assms(1)]) simp_all
  then show ?thesis
    using assms by (simp add: mutable_done_cb_def Let_def sound_start_proxy sound_kact del: in_core_comp)
qed

lemma sound_connect:
  assumes "sound x" and "\<not> ux_sock x"
  shows "sound (fst (client_connect b x))"
proof -
  have "sound (x\<lparr>ux_side := k\<rparr>)"
    if "k_conns k = k_conns (ux_side x)" "k_next k = k_next (ux_side x)" "k_dials k = k_dials (ux_side x)"
      "k_streams k = k_streams (ux_side x)" "k_reaped k = k_reaped (ux_side x)" for k
    using sound_core_same [OF assms(1), of "\<lambda>_. k"] that by (simp add: in_core_def)
  note up = this
  show ?thesis
    unfolding client_connect_def Let_def
    by (simp add: assms(2) sound_start_proxy assms(1))
      (intro conjI impI; (rule sound_start_proxy)?; (rule up)?; simp add: assms(2))
qed

text \<open>Teardown of the client: every connection that is left has been shut down.\<close>

lemma fold_shutdown:
  assumes "sound x"
  shows "sound (fold shutdown_conn is x)"
    and "\<And>i sl. i \<in> set is \<Longrightarrow> kget (ux_side (fold shutdown_conn is x)) i = Some sl \<Longrightarrow> slot_dead sl"
    and "\<And>i. i \<notin> set is \<Longrightarrow> kget (ux_side (fold shutdown_conn is x)) i = kget (ux_side x) i"
proof -
  have "sound (fold shutdown_conn is x) \<and>
    (\<forall>i. if i \<in> set is
         then \<forall>sl. kget (ux_side (fold shutdown_conn is x)) i = Some sl \<longrightarrow> slot_dead sl
         else kget (ux_side (fold shutdown_conn is x)) i = kget (ux_side x) i)"
    using assms
  proof (induction "is" rule: rev_induct)
    case (snoc n ns)
    let ?y = "fold shutdown_conn ns x"
    have IH: "sound ?y" "\<And>i. if i \<in> set ns
         then \<forall>sl. kget (ux_side ?y) i = Some sl \<longrightarrow> slot_dead sl else kget (ux_side ?y) i = kget (ux_side x) i"
      using snoc by simp_all
    have c: "core_but {n} (ux_side ?y)" "filed ?y" using IH(1) by (auto simp: sound_def intro: core_but_mono)
    show ?case
      using IH(2) sound_shutdown [OF c] shutdown_core_wf(2) [OF c(1)] kget_shutdown_other [of _ n "ux_side ?y"]
      by (auto simp: Ball_def split: if_splits) metis+
  qed simp
  then show "sound (fold shutdown_conn is x)"
    "\<And>i sl. i \<in> set is \<Longrightarrow> kget (ux_side (fold shutdown_conn is x)) i = Some sl \<Longrightarrow> slot_dead sl"
    "\<And>i. i \<notin> set is \<Longrightarrow> kget (ux_side (fold shutdown_conn is x)) i = kget (ux_side x) i"
    by (simp_all split: if_splits)
qed

section \<open>What a destroyed client does\<close>

text \<open>The switches that only the owner's calls and the query's end turn.\<close>

definition steady :: "client \<Rightarrow> client \<Rightarrow> bool" where
  "steady x y \<longleftrightarrow> k_query (ux_side y) = k_query (ux_side x) \<and> k_destroyed (ux_side y) = k_destroyed (ux_side x) \<and>
     k_tcp_proxy (ux_side y) = k_tcp_proxy (ux_side x) \<and> ux_sock y = ux_sock x"

lemma steady_refl [simp]: "steady x x"
  by (simp add: steady_def)

lemma steady_trans: "steady x y \<Longrightarrow> steady y z \<Longrightarrow> steady x z"
  by (simp add: steady_def)

definition steady_core :: "(client_core \<Rightarrow> client_core) \<Rightarrow> bool" where
  "steady_core f \<longleftrightarrow> (\<forall>k. k_query (f k) = k_query k \<and> k_destroyed (f k) = k_destroyed k \<and> k_tcp_proxy (f k) = k_tcp_proxy k)"

lemma steady_in_core [simp]: "steady_core f \<Longrightarrow> steady x (in_core f y) = steady x y"
  by (simp add: steady_def steady_core_def)

lemma steady_ops [simp]: "steady_core (on_conn i f)" "steady_core (reap i)" "steady_core (pipe_event v i)"
  "steady_core (shutdown_core i)" "steady_core (kact a)" "steady_core (\<lambda>k. mutable_cb k r)" "steady_core (kput i sl)"
  "steady_core (\<lambda>k. kact (g k) k)" "steady_core id"
  by (simp_all add: steady_core_def)

lemma steady_comp: "steady_core f \<Longrightarrow> steady_core g \<Longrightarrow> steady_core (\<lambda>k. f (g k))"
  by (simp add: steady_core_def)

lemma steady_dial: "steady_core (\<lambda>k. fst (dial u a k))"
  by (simp add: steady_core_def dial_def begin_dht_connect_def kemplace_def Let_def)

lemma steady_drop [simp]: "steady x (uproxy_on_stream_close a y) = steady x y"
  by (simp add: steady_def uproxy_on_stream_close_def)

lemma steady_shutdown [simp]: "steady x (shutdown_conn i y) = steady x y"
  by (simp add: shutdown_conn_def split: option.split)

lemma steady_uxemit [simp]: "steady x (uxemit a y) = steady x y"
  by (simp add: steady_def uxemit_def)

lemma steady_stream_open: "steady x (on_stream_open i x)"
proof -
  have "steady_core (\<lambda>k. pipe_event EvAdopt i (kput i s k))" for s by (rule steady_comp) simp_all
  then have t: "steady x (in_core (\<lambda>k. pipe_event EvAdopt i (kput i s k)) y) = steady x y" for s y by simp
  show ?thesis
    unfolding on_stream_open_def Let_def
    by (simp add: t del: in_core_comp split: option.split)
qed

lemma steady_uproxy_drop:
  assumes "uc_stream c = udp_side j"
  shows "steady x (uproxy_drop i c x)"
  using assms by (simp add: steady_def uproxy_drop_def Let_def call_def)

lemma steady_udp_data:
  assumes "filed x"
  shows "steady x (uproxy_on_stream_data e i data x)"
proof (cases "ux_clients x i")
  case (Some c)
  obtain ok buf ds where r: "decoder_push (uc_buf c) data = (ok, buf, ds)"
    by (cases "decoder_push (uc_buf c) data")
  obtain j where "uc_stream c = udp_side j" using filed_get [OF assms Some] by auto
  then show ?thesis using Some r
    by (simp add: uproxy_on_stream_data_def Let_def steady_def uproxy_drop_def call_def uxemit_def)
qed (simp add: uproxy_on_stream_data_def)

lemma steady_uproxy_write:
  assumes "uc_stream c = udp_side j"
  shows "steady x (uproxy_write i c data x)"
proof -
  obtain st rc where r: "client_side_write j (ux_side x) (frame data) None = (st, rc)"
    by (cases "client_side_write j (ux_side x) (frame data) None")
  have "st = on_conn j (\<lambda>c. fst (conn_write (ke_write (k_env (ux_side x))) c (frame data) None)) (ux_side x)"
    using side_write_conn [of j "ux_side x" "frame data" None] r by simp
  then show ?thesis using assms r
    by (simp add: uproxy_write_def Let_def steady_def uproxy_drop_def call_def uxemit_def)
qed

lemma steady_uproxy_client:
  assumes "filed x"
  shows "steady x (fst (uproxy_client nm addr x))"
proof -
  have o: "ux_open x = None \<or> ux_open x = Some open_udp_stream" using assms by (simp add: filed_def)
  have s: "k_query (fst (open_udp_stream k a)) = k_query k" "k_destroyed (fst (open_udp_stream k a)) = k_destroyed k"
    "k_tcp_proxy (fst (open_udp_stream k a)) = k_tcp_proxy k" for k a
    using steady_dial [of True a] by (simp_all add: open_udp_stream_dial steady_core_def split: prod.split) (metis fst_conv)+
  obtain st sd where r: "open_udp_stream (ux_side x) (client_key nm addr) = (st, sd)"
    by (cases "open_udp_stream (ux_side x) (client_key nm addr)")
  then show ?thesis using s [of "ux_side x" "client_key nm addr"] o
    by (cases "ux_clients x (client_key nm addr)"; cases "ss_write sd"; elim disjE)
      (simp_all add: uproxy_client_def Let_def steady_def uxemit_def)
qed

lemma steady_recv:
  assumes "sound x" and "k_next (ux_side x) \<noteq> -1"
  shows "steady x (uproxy_recv_cb e nm nread buf addr partial x)"
proof (cases "ux_sock x")
  case True
  have "steady x (case uproxy_client nm a x of (x, None) \<Rightarrow> x | (x, Some c) \<Rightarrow> uproxy_write (client_key nm a) c bs x)" for a bs
    using steady_uproxy_client [of x nm a] sound_uproxy_client(2) [OF assms True, of nm a]
      steady_trans steady_uproxy_write assms(1)
    by (fastforce simp: sound_def split: prod.split option.split)
  then show ?thesis by (simp add: uproxy_recv_cb_def split: option.split)
qed (simp add: uproxy_recv_cb_def)

definition all_dead :: "client_core \<Rightarrow> bool" where
  "all_dead k \<longleftrightarrow> (\<forall>i sl. kget k i = Some sl \<longrightarrow> slot_dead sl)"

lemma all_dead_get: "all_dead k \<Longrightarrow> kget k i = Some sl \<Longrightarrow> slot_dead sl"
  by (simp add: all_dead_def)

lemma all_dead_same: "k_conns k' = k_conns k \<Longrightarrow> all_dead k' = all_dead k"
  using kget_same [of k' k] by (simp add: all_dead_def)

lemma all_dead_upd [simp]: "all_dead (kact a k) = all_dead k" "all_dead (k\<lparr>k_dials := is\<rparr>) = all_dead k"
  "all_dead (k\<lparr>k_streams := is\<rparr>) = all_dead k" "all_dead (k\<lparr>k_env := e\<rparr>) = all_dead k"
  by (rule all_dead_same; simp)+

lemma all_dead_reap: "all_dead k \<Longrightarrow> all_dead (reap i k)"
  by (auto simp: all_dead_def kget_reap split: if_splits)

lemma all_dead_pipe: "all_dead k \<Longrightarrow> all_dead (pipe_event v i k)"
proof (cases "\<exists>s. kget k i = Some (Piped s)")
  case True
  assume a: "all_dead k"
  from True obtain s where g: "kget k i = Some (Piped s)" by blast
  have "slot_dead (Piped s)" using a g by (rule all_dead_get)
  moreover from this have "destroyed (sys_pipe (pipe_after v k s))"
    unfolding pipe_after_def by (intro destroyed_step) (simp add: slot_dead_def)
  ultimately have "slot_dead (Piped (pipe_after v k s))" unfolding pipe_after_def by (rule pipe_step_dead)
  then have "all_dead (kput i (Piped (pipe_after v k s)) k)" using a by (simp add: all_dead_def kget_kput)
  then show ?thesis using g by (simp add: pipe_event_piped all_dead_reap)
qed (simp add: pipe_event_def split: option.split slot.split)

text \<open>\<open>calm f\<close>: an update that brings nothing back to life.\<close>

definition calm :: "(client_conn \<Rightarrow> client_conn) \<Rightarrow> bool" where
  "calm f \<longleftrightarrow> (\<forall>c. \<not> cn_tcp c \<and> conn_shut c \<longrightarrow> \<not> cn_tcp (f c) \<and> conn_shut (f c))"

lemma all_dead_on_conn: "all_dead k \<Longrightarrow> calm f \<Longrightarrow> all_dead (on_conn i f k)"
proof (cases "kget k i")
  case (Some sl)
  assume a: "all_dead k" "calm f"
  then have "slot_dead sl" using Some all_dead_get by blast
  then have "slot_dead (on_slot f sl)"
    using a(2) by (cases sl) (simp_all add: slot_dead_def calm_def)
  then show ?thesis using a(1) by (simp add: all_dead_def kget_on_conn Some)
qed (simp add: on_conn_def)

lemma calm_ops [simp]: "calm (\<lambda>c. c\<lparr>cn_tcp := False\<rparr>)" "calm (ccalled a)" "calm (\<lambda>c. c\<lparr>cn_connect_pending := b\<rparr>)"
  "calm (\<lambda>c. c\<lparr>cn_open := b\<rparr>)" "calm (\<lambda>c. ccalled a (c\<lparr>cn_pending := bs\<rparr>))"
  "calm (\<lambda>c. c\<lparr>cn_closed := True, cn_stream := False\<rparr>)"
  by (auto simp: calm_def conn_shut_def)

lemma all_dead_shutdown: "all_dead k \<Longrightarrow> all_dead (shutdown_core i k)"
  by (simp add: shutdown_core_def Let_def all_dead_reap all_dead_pipe all_dead_on_conn split: option.split)

lemma all_dead_connect_cb:
  "all_dead (ux_side x) \<Longrightarrow> k_destroyed (ux_side x) \<Longrightarrow> all_dead (ux_side (client_connect_cb i error conn op x))"
  by (simp add: client_connect_cb_def Let_def all_dead_shutdown all_dead_on_conn split: option.split)

lemma all_dead_stream_open:
  assumes "all_dead (ux_side x)"
  shows "all_dead (ux_side (on_stream_open i x))"
proof (cases "kget (ux_side x) i")
  case None
  then show ?thesis using assms by (simp add: on_stream_open_def)
next
  case (Some sl)
  have "\<not> cn_tcp (slot_conn sl)" using all_dead_get [OF assms Some] by (simp add: slot_dead_def)
  then show ?thesis using assms Some
    by (simp add: on_stream_open_def Let_def all_dead_shutdown all_dead_on_conn)
qed

lemma all_dead_stream_close:
  assumes "all_dead (ux_side x)"
  shows "all_dead (ux_side (client_stream_close_cb i x))"
  using assms
  by (simp add: client_stream_close_cb_def Let_def all_dead_shutdown all_dead_on_conn all_dead_reap all_dead_pipe
      split: option.split slot.split)

section \<open>The machine\<close>

definition quiet :: "client \<Rightarrow> bool" where
  "quiet x \<longleftrightarrow>
     (k_query (ux_side x) \<or> k_destroyed (ux_side x) \<longrightarrow> \<not> ux_sock x \<and> \<not> px_handle (k_tcp_proxy (ux_side x))) \<and>
     (k_destroyed (ux_side x) \<longrightarrow> \<not> k_query (ux_side x) \<and> all_dead (ux_side x))"

definition client_inv :: "client \<Rightarrow> bool" where
  "client_inv x \<longleftrightarrow> sound x \<and> quiet x"

lemma quiet_steady:
  assumes "quiet x" and "steady x y" and "k_destroyed (ux_side x) \<Longrightarrow> all_dead (ux_side y)"
  shows "quiet y"
  using assms by (auto simp: quiet_def steady_def)

lemma client_inv_new: "client_inv (client_new cr e dht cfg)"
  by (simp add: client_new_def Let_def client_inv_def sound_def core_but_def core_wf_def filed_def quiet_def
      new_udp_proxy_def new_proxy_def kget_def kact_def split: option.split)

lemma client_inv_env: "client_inv x \<Longrightarrow> client_inv (in_core (\<lambda>k. k\<lparr>k_env := e\<rparr>) x)"
  using sound_core_same [of x "\<lambda>k. k\<lparr>k_env := e\<rparr>"] by (simp add: client_inv_def quiet_def)

text \<open>While a query is out or the client is destroyed, nothing listens.\<close>

lemma quiet_live:
  assumes "\<not> k_query (ux_side x)" and "\<not> k_destroyed (ux_side x)"
  shows "quiet x"
  using assms by (simp add: quiet_def)

lemma start_proxy_flags [simp]:
  "k_query (ux_side (fst (start_proxy x))) = k_query (ux_side x)"
  "k_destroyed (ux_side (fst (start_proxy x))) = k_destroyed (ux_side x)"
proof -
  have u: "ux_side (fst (uproxy_listen e h p (Some open_udp_stream) y)) = ux_side y" for e h p y
    by (cases rule: uproxy_listen_cases [of e h p y]) auto
  show "k_query (ux_side (fst (start_proxy x))) = k_query (ux_side x)"
    "k_destroyed (ux_side (fst (start_proxy x))) = k_destroyed (ux_side x)"
    by (simp_all add: start_proxy_def Let_def case_prod_unfold u)
qed

lemma quiet_done: "quiet x \<Longrightarrow> quiet (mutable_done_cb x)"
proof (cases "k_destroyed (ux_side x)")
  case True
  then show "quiet x \<Longrightarrow> ?thesis" by (simp add: mutable_done_cb_def quiet_def)
next
  case False
  then show ?thesis by (intro quiet_live) (simp_all add: mutable_done_cb_def Let_def)
qed

lemma quiet_connect:
  assumes "quiet x" and "client_enabled x (e, CeConnect b)"
  shows "quiet (fst (client_connect b x))"
proof (cases "k_init_error (ux_side x) \<noteq> 0 \<or> k_destroyed (ux_side x) \<or> \<not> k_dht (ux_side x)")
  case True
  then show ?thesis using assms(1) by (auto simp: client_connect_def Let_def)
next
  case False
  then show ?thesis using assms(2)
    by (cases "ke_query (k_env (ux_side x))")
      (auto simp: client_connect_def Let_def client_enabled_def quiet_def)
qed

text \<open>The owner destroys the client.\<close>

lemma cancel_query_destroyed:
  assumes "k_destroyed (ux_side x)"
  shows "\<exists>f. cancel_query x = in_core f x \<and> (\<forall>k. k_conns (f k) = k_conns k \<and> k_next (f k) = k_next k \<and>
    k_dials (f k) = k_dials k \<and> k_streams (f k) = k_streams k \<and> k_reaped (f k) = k_reaped k \<and>
    k_destroyed (f k) = k_destroyed k \<and> k_tcp_proxy (f k) = k_tcp_proxy k) \<and> \<not> k_query (f (ux_side x))"
proof (cases "k_query (ux_side x)")
  case False
  then show ?thesis by (intro exI [of _ id]) (simp add: cancel_query_def in_core_def)
next
  case True
  let ?f = "\<lambda>k. kact KQueryFree (kact KQueryCancel (k\<lparr>k_query := False\<rparr>))"
  have "mutable_done_cb (in_core (\<lambda>k. kact KQueryCancel (k\<lparr>k_query := False\<rparr>)) x) =
      in_core (\<lambda>k. kact KQueryCancel (k\<lparr>k_query := False\<rparr>)) x"
    using assms by (simp add: mutable_done_cb_def)
  then have "cancel_query x = in_core ?f x" using True by (simp add: cancel_query_def Let_def)
  then show ?thesis by (intro exI [of _ ?f]) simp
qed

lemma fold_shutdown_flags [simp]:
  "k_destroyed (ux_side (fold shutdown_conn is x)) = k_destroyed (ux_side x)"
  "k_query (ux_side (fold shutdown_conn is x)) = k_query (ux_side x)"
  "k_tcp_proxy (ux_side (fold shutdown_conn is x)) = k_tcp_proxy (ux_side x)"
  "ux_sock (fold shutdown_conn is x) = ux_sock x"
proof -
  have "steady x (fold shutdown_conn is x)" by (induction "is" rule: rev_induct) simp_all
  then show "k_destroyed (ux_side (fold shutdown_conn is x)) = k_destroyed (ux_side x)"
    "k_query (ux_side (fold shutdown_conn is x)) = k_query (ux_side x)"
    "k_tcp_proxy (ux_side (fold shutdown_conn is x)) = k_tcp_proxy (ux_side x)"
    "ux_sock (fold shutdown_conn is x) = ux_sock x"
    by (simp_all add: steady_def)
qed

lemma destroy_inv:
  assumes "client_inv x"
  shows "client_inv (client_destroy x)" and "k_destroyed (ux_side (client_destroy x))"
proof -
  have "client_inv (client_destroy x) \<and> k_destroyed (ux_side (client_destroy x))"
  proof (cases "k_destroyed (ux_side x)")
    case True
    then show ?thesis using assms by (simp add: client_destroy_def)
  next
    case False
    let ?x1 = "in_core (\<lambda>k. k\<lparr>k_destroyed := True\<rparr>) x"
    obtain f where f: "cancel_query ?x1 = in_core f ?x1" "\<And>k. k_conns (f k) = k_conns k \<and> k_next (f k) = k_next k \<and>
      k_dials (f k) = k_dials k \<and> k_streams (f k) = k_streams k \<and> k_reaped (f k) = k_reaped k \<and>
      k_destroyed (f k) = k_destroyed k \<and> k_tcp_proxy (f k) = k_tcp_proxy k" "\<not> k_query (f (ux_side ?x1))"
      using cancel_query_destroyed [of ?x1] by auto
    let ?px = "\<lambda>k. k\<lparr>k_tcp_proxy := proxy_close (k_tcp_proxy k)\<rparr>"
    let ?x2 = "uproxy_close (in_core ?px (in_core f ?x1))"
    let ?x3 = "fold shutdown_conn (map fst (k_conns (ux_side ?x2))) ?x2"
    have s: "sound x" using assms by (simp add: client_inv_def)
    have "sound (in_core (\<lambda>k. ?px (f (k\<lparr>k_destroyed := True\<rparr>))) x)"
      by (rule sound_core_same [OF s]) (use f(2) in simp_all)
    then have s2: "sound ?x2" by (simp add: sound_uproxy_close)
    note f3 = fold_shutdown [OF s2]
    have "slot_dead sl" if g: "kget (ux_side ?x3) i = Some sl" for i sl
    proof (cases "i \<in> fst ` set (k_conns (ux_side ?x2))")
      case True
      then show ?thesis by (intro f3(2) [OF _ g]) simp
    next
      case False
      then have "kget (ux_side ?x3) i = None"
        using f3(3) [of i "map fst (k_conns (ux_side ?x2))"] by (simp add: kget_def map_of_eq_None_iff)
      then show ?thesis using g by simp
    qed
    then have "all_dead (ux_side ?x3)" by (simp add: all_dead_def)
    moreover have "k_destroyed (ux_side ?x3)" "\<not> k_query (ux_side ?x3)" "\<not> px_handle (k_tcp_proxy (ux_side ?x3))"
      "\<not> ux_sock ?x3"
      using f(2,3) by (simp_all add: proxy_close_def)
    ultimately have q: "quiet ?x3" by (simp add: quiet_def)
    let ?g = "\<lambda>k. kact (KLog Info ''Client destroyed'') (k\<lparr>k_state := ''destroyed''\<rparr>)"
    have "sound (in_core ?g ?x3)" by (rule sound_core_same [OF f3(1)]) simp_all
    moreover have "quiet (in_core ?g ?x3)"
      using q all_dead_same [of "?g (ux_side ?x3)" "ux_side ?x3"] by (simp add: quiet_def)
    moreover have "client_destroy x = in_core ?g ?x3"
      using False by (simp only: client_destroy_def Let_def f(1) if_False)
    moreover have "k_destroyed (ux_side (in_core ?g ?x3))" using f(2) by simp
    ultimately show ?thesis by (simp add: client_inv_def)
  qed
  then show "client_inv (client_destroy x)" "k_destroyed (ux_side (client_destroy x))" by simp_all
qed

section \<open>Every step\<close>

lemma client_do_sound:
  assumes "client_inv x" and "client_enabled x (k_env (ux_side x), v)"
  shows "sound (client_do nm v x)"
proof -
  have s: "sound x" and q: "quiet x" using assms(1) by (simp_all add: client_inv_def)
  have off: "k_query (ux_side x) \<or> k_destroyed (ux_side x) \<Longrightarrow> \<not> ux_sock x" using q by (simp add: quiet_def)
  have life: "sound (in_core client_pause x)" "sound (in_core client_resume x)"
    by (rule sound_core_same [OF s]; simp add: client_pause_def client_resume_def)+
  show ?thesis
  proof (cases v)
    case (CePipe i w)
    then have "pipe_may w i (ux_side x)"
      using assms(2) by (auto simp: client_enabled_def pipe_may_def Let_def)
    then show ?thesis using s CePipe by (simp add: client_do_def sound_pipe)
  next
    case (CeDrain i n)
    then show ?thesis using s sound_drain_cb assms(2) by (simp add: client_do_def)
  next
    case (CeReply seq val)
    have "sound (in_core (\<lambda>k. mutable_cb k (seq, val)) x)" by (rule sound_core_same [OF s]) simp_all
    then show ?thesis using CeReply by (simp add: client_do_def)
  next
    case CeDestroy
    then show ?thesis using destroy_inv [OF assms(1)] by (simp add: client_do_def client_inv_def)
  qed (use s assms(2) off life in \<open>simp_all add: client_do_def client_enabled_def Let_def sound_connect sound_mutable_done
      sound_accept sound_recv sound_connect_cb sound_stream_open sound_stream_data sound_stream_close\<close>)
qed

lemma client_do_quiet:
  assumes "client_inv x" and "client_enabled x (k_env (ux_side x), v)"
  shows "quiet (client_do nm v x)"
proof -
  have s: "sound x" and q: "quiet x" and f: "filed x" using assms(1) by (simp_all add: client_inv_def sound_def)
  note st = quiet_steady [OF q]
  have dead: "all_dead (ux_side x)" "\<not> ux_sock x" "\<not> px_handle (k_tcp_proxy (ux_side x))"
    if "k_destroyed (ux_side x)" using q that by (simp_all add: quiet_def)
  show ?thesis
  proof (cases v)
    case (CeConnect b)
    then show ?thesis using quiet_connect [OF q] assms(2) by (simp add: client_do_def)
  next
    case (CeAccept a b c)
    have "steady_core (on_local_connection True)"
      using steady_dial [of False "[]"] by (simp add: steady_core_def on_local_connection_dial)
    then show ?thesis using dead CeAccept
      by (auto simp: client_do_def proxy_connection_cb_def q intro: st)
  next
    case (CeRecv n buf a p)
    let ?y = "uproxy_recv_cb (ke_udp (k_env (ux_side x))) nm n buf a p x"
    have "steady x ?y" by (rule steady_recv [OF s]) (use assms(2) CeRecv in \<open>simp add: client_enabled_def Let_def\<close>)
    moreover have "all_dead (ux_side ?y)" if "k_destroyed (ux_side x)"
      using dead(1,2) [OF that] by (simp add: uproxy_recv_cb_def)
    ultimately show ?thesis using CeRecv st by (simp add: client_do_def)
  next
    case (CeDialed i err op b)
    have "steady x (client_connect_cb i err op b x)"
      by (simp add: client_connect_cb_def Let_def steady_core_def split: option.split)
    then show ?thesis using dead all_dead_connect_cb CeDialed by (auto simp: client_do_def intro: st)
  next
    case (CeOpen i)
    then show ?thesis using dead steady_stream_open all_dead_stream_open
      by (auto simp: client_do_def client_stream_open_cb_def q split: option.split intro!: st)
  next
    case (CeData i data)
    have "steady x (client_stream_data_cb i data x)"
      by (simp add: client_stream_data_cb_def steady_udp_data [OF f] split: option.split)
    then show ?thesis using dead CeData
      by (auto simp: client_do_def client_stream_data_cb_def all_dead_pipe uproxy_on_stream_data_def
          split: option.split intro!: st)
  next
    case (CeClosed i)
    have "steady x (client_stream_close_cb i x)"
      by (simp add: client_stream_close_cb_def Let_def steady_core_def split: option.split slot.split)
    then show ?thesis using dead all_dead_stream_close CeClosed by (auto simp: client_do_def intro: st)
  next
    case (CeDrain i n)
    then show ?thesis using dead q
      by (auto simp: client_do_def client_drain_cb_def all_dead_pipe split: option.split intro!: st)
  next
    case (CePipe i w)
    then show ?thesis using dead by (auto simp: client_do_def all_dead_pipe intro!: st)
  next
    case CeDestroy
    then show ?thesis using destroy_inv [OF assms(1)] by (simp add: client_do_def client_inv_def)
  next
    case (CeReply a b)
    have "all_dead (mutable_cb (ux_side x) (a, b)) = all_dead (ux_side x)" by (rule all_dead_same) simp
    then show ?thesis using dead CeReply by (auto simp: client_do_def intro!: st)
  qed (use q in \<open>simp_all add: client_do_def quiet_done, simp_all add: quiet_def client_pause_def client_resume_def\<close>)
qed

lemma client_inv_step:
  assumes "client_inv x" and "client_enabled x ev"
  shows "client_inv (client_step nm x ev)"
proof -
  let ?x = "in_core (\<lambda>k. k\<lparr>k_env := fst ev\<rparr>) x"
  have i: "client_inv ?x" by (rule client_inv_env [OF assms(1)])
  have "client_enabled ?x (k_env (ux_side ?x), snd ev)"
    using assms(2) by (cases "snd ev") (simp_all add: client_enabled_def Let_def kget_def)
  then show ?thesis
    using client_do_sound [OF i] client_do_quiet [OF i] by (simp add: client_step_def client_inv_def)
qed

interpretation client_machine: machine "client_step nm" client_enabled client_begin client_inv
  by unfold_locales (auto simp: client_begin_def client_inv_new client_inv_step)

definition client_reachable :: "(u32 \<Rightarrow> string) \<Rightarrow> client \<Rightarrow> bool" where
  "client_reachable nm = machine.reach (client_step nm) client_enabled client_begin"

lemma client_reachable_start: "client_reachable nm (client_new cr e dht cfg)"
  unfolding client_reachable_def by (rule client_machine.reach_start) (auto simp: client_begin_def)

lemma client_reachable_step:
  "client_reachable nm x \<Longrightarrow> client_enabled x ev \<Longrightarrow> client_reachable nm (client_step nm x ev)"
  unfolding client_reachable_def by (rule client_machine.reach_step)

lemma client_reachable_inv: "client_reachable nm x \<Longrightarrow> client_inv x"
  unfolding client_reachable_def by (rule client_machine.reach_inv)

end
