(* ===== verification/Hs_Client_Props.thy ===== *)
theory Hs_Client_Props
  imports Hs_Client_Run
begin

text \<open>
  What the client guarantees, read off the invariant of its machine: whom it dials, which
  record it believes, where it listens, how long a connection lives, and what is left after
  teardown. The concrete run at the end is a UDP client whose stream is dropped for an
  oversized frame and whose application keeps sending.
\<close>

section \<open>The newest record wins\<close>

definition client_best :: "client_core \<Rightarrow> (u64 \<times> hs_record) option" where
  "client_best k = map_option (\<lambda>r. (k_record_seq k, r)) (k_record k)"

definition reply_record :: "byte list option \<Rightarrow> hs_record option" where
  "reply_record v =
     (case v of None \<Rightarrow> None | Some bs \<Rightarrow> if bs = [] then None else decode_record (string_of_bytes bs))"

text \<open>A client that is not destroyed is a reader of sequenced replies; a tie keeps the first.\<close>

definition live_cb :: "client_core \<Rightarrow> u64 \<times> byte list option \<Rightarrow> client_core" where
  "live_cb k r = mutable_cb (k\<lparr>k_destroyed := False\<rparr>) r"

interpretation client_replies: newest live_cb client_best reply_record
  by unfold_locales
    (auto simp: live_cb_def client_best_def reply_record_def mutable_cb_def kact_def split: option.splits if_splits)

lemma live_run: "\<not> k_destroyed k \<Longrightarrow> foldl mutable_cb k rs = foldl live_cb k rs"
proof (induction rs arbitrary: k)
  case (Cons r rs)
  have "k\<lparr>k_destroyed := False\<rparr> = k" using Cons.prems by (cases k) simp
  then have "live_cb k r = mutable_cb k r" unfolding live_cb_def by (rule arg_cong)
  then show ?case using Cons.IH [of "mutable_cb k r"] Cons.prems by simp
qed simp

definition records_of :: "(u64 \<times> byte list option) list \<Rightarrow> (u64 \<times> hs_record) list" where
  "records_of rs = concat (map (\<lambda>(q, v). case reply_record v of None \<Rightarrow> [] | Some r \<Rightarrow> [(q, r)]) rs)"

text \<open>
  C21: The record a client settles on. Whatever replies its query gets, in whatever order, the
  client ends with no record exactly if none of them decodes; otherwise it has one of the
  records that were received, and no received record has a higher sequence number. Replies
  that are empty or malformed change nothing.
\<close>

theorem client_record_newest:
  fixes rs :: "(u64 \<times> byte list option) list"
  assumes "\<not> k_destroyed k" and "k_record k = None"
  defines "k' \<equiv> foldl mutable_cb k rs"
  shows "case k_record k' of
      None \<Rightarrow> records_of rs = []
    | Some r \<Rightarrow> (k_record_seq k', r) \<in> set (records_of rs) \<and> (\<forall>(q, r') \<in> set (records_of rs). q \<le> k_record_seq k')"
proof -
  have p: "client_replies.parsed rs = records_of rs"
    by (simp add: client_replies.parsed_def records_of_def)
  have "client_best k = None" using assms(2) by (simp add: client_best_def)
  from client_replies.keep_run [OF this, of rs] show ?thesis
    unfolding p k'_def live_run [OF assms(1)] by (simp add: client_best_def split: option.splits)
qed

section \<open>Target and address\<close>

text \<open>
  Whom a client dials. In private mode its target is the public key of the key pair
  derived from the hash of the connection string, and that pair is its own identity. In
  public mode the target is the z-base-32 value of the string; a string that is not 32 bytes
  of z-base-32 leaves the client unusable: connecting returns the error and does nothing.
\<close>

theorem client_target:
  defines "pk \<equiv> \<lambda>cr cfg. fst (c_keypair cr (c_sha256 cr (bytes_of_string (ck_key cfg))))"
  shows "if ck_secure cfg
    then k_target (ux_side (client_new cr e dht cfg)) = pk cr cfg \<and>
         k_keypair (ux_side (client_new cr e dht cfg)) = pk cr cfg \<and>
         k_init_error (ux_side (client_new cr e dht cfg)) = 0
    else case z32_decode (ck_key cfg) of
           None \<Rightarrow> client_connect b (client_new cr e dht cfg) = (client_new cr e dht cfg, UV_EINVAL)
         | Some raw \<Rightarrow>
             if length raw = 32
             then k_target (ux_side (client_new cr e dht cfg)) = raw \<and> k_init_error (ux_side (client_new cr e dht cfg)) = 0
             else client_connect b (client_new cr e dht cfg) = (client_new cr e dht cfg, UV_EINVAL)"
  by (simp add: pk_def client_new_def client_connect_def sha256_def new_udp_proxy_def kact_def UV_EINVAL_def Let_def
      split: option.split)

definition first_of :: "'a option list \<Rightarrow> 'a \<Rightarrow> 'a" where
  "first_of xs d = (case concat (map (\<lambda>x. case x of None \<Rightarrow> [] | Some v \<Rightarrow> [v]) xs) of [] \<Rightarrow> d | v # vs \<Rightarrow> v)"

lemma first_of_simps [simp]: "first_of [] d = d" "first_of (None # xs) d = first_of xs d" "first_of (Some v # xs) d = v"
  by (simp_all add: first_of_def)

lemma proxy_listen_handle: "px_handle (fst (proxy_listen e h p b x)) \<longleftrightarrow> snd (proxy_listen e h p b x) = 0"
  by (simp add: proxy_listen_def proxy_close_def Let_def split: option.split)

lemma uproxy_listen_sock:
  "ux_sock (fst (uproxy_listen e h p (Some open_udp_stream) x)) \<longleftrightarrow> snd (uproxy_listen e h p (Some open_udp_stream) x) = 0"
proof -
  obtain rc addr where "resolve (ue_resolver e) h p = (rc, addr)" by (cases "resolve (ue_resolver e) h p")
  then show ?thesis
    by (simp add: uproxy_listen_def Let_def uxemit_def split: option.split)
qed

text \<open>
  \<^verbatim>\<open>start_proxy\<close> in two halves: the listen, which leaves the rest of the client alone, and what
  is recorded and reported of its result.
\<close>

definition announce :: "client \<Rightarrow> int \<Rightarrow> client" where
  "announce x rc =
     (let r = k_resolved (ux_side x); whr = rs_host r @ '':'' @ to_dec (unat (rs_port r));
          x = (if rc = 0
               then in_core (\<lambda>k. kact (KLog Info (''Proxy listening on '' @ whr @ (if rs_udp r then '' for UDP'' else [])))
                      (k\<lparr>k_state := ''listening''\<rparr>)) x
               else in_core (kact (KLog Error (''Proxy failed on '' @ whr @ '': '' @ e_strerror (ke_uv (k_env (ux_side x))) rc))) x)
      in if k_on_listening (ux_side x)
         then in_core (\<lambda>k. kact (KListening rc) (k\<lparr>k_on_listening := False\<rparr>)) x else x)"

lemma announce_sel:
  "k_resolved (ux_side (announce x rc)) = k_resolved (ux_side x)" "ux_sock (announce x rc) = ux_sock x"
  "k_tcp_proxy (ux_side (announce x rc)) = k_tcp_proxy (ux_side x)"
  "k_state (ux_side (announce x rc)) = (if rc = 0 then ''listening'' else k_state (ux_side x))"
  "\<exists>lv m. k_acts (ux_side (announce x rc)) =
     k_acts (ux_side x) @ KLog lv m # (if k_on_listening (ux_side x) then [KListening rc] else [])"
  by (cases "rc = 0"; cases "k_on_listening (ux_side x)"; simp add: announce_def kact_def Let_def)+

lemma uproxy_listen_side: "ux_side (fst (uproxy_listen e h p (Some open_udp_stream) z)) = ux_side z"
  by (cases rule: uproxy_listen_cases [of e h p z]) auto

lemma start_proxy_halves:
  fixes x :: client
  obtains y rc where "start_proxy x = (announce y rc, rc)"
    "ux_side y = (ux_side x)\<lparr>k_resolved := client_resolve (k_config (ux_side x)) (k_record (ux_side x)),
       k_tcp_proxy := k_tcp_proxy (ux_side y)\<rparr>"
    "(if rs_udp (k_resolved (ux_side y)) then ux_sock y else px_handle (k_tcp_proxy (ux_side y))) = (rc = 0)"
proof -
  let ?x = "in_core (\<lambda>k. k\<lparr>k_resolved := client_resolve (k_config k) (k_record k)\<rparr>) x"
  let ?r = "client_resolve (k_config (ux_side x)) (k_record (ux_side x))" and ?e = "k_env (ux_side x)"
  let ?l = "if rs_udp ?r then uproxy_listen (ke_udp ?e) (rs_host ?r) (rs_port ?r) (Some open_udp_stream) ?x
    else case proxy_listen (ke_proxy ?e) (rs_host ?r) (rs_port ?r) True (k_tcp_proxy (ux_side x)) of
           (px, rc) \<Rightarrow> (in_core (\<lambda>k. k\<lparr>k_tcp_proxy := px\<rparr>) ?x, rc)"
  obtain y rc where l: "?l = (y, rc)" by (cases ?l)
  have side: "ux_side y = (ux_side x)\<lparr>k_resolved := ?r, k_tcp_proxy := k_tcp_proxy (ux_side y)\<rparr>"
  proof (cases "rs_udp ?r")
    case True
    then have "ux_side y = ux_side ?x"
      using l uproxy_listen_side [of "ke_udp ?e" "rs_host ?r" "rs_port ?r" ?x] by simp
    then show ?thesis by simp
  next
    case False
    then show ?thesis using l by (auto split: prod.splits)
  qed
  have up: "(if rs_udp ?r then ux_sock y else px_handle (k_tcp_proxy (ux_side y))) = (rc = 0)"
  proof (cases "rs_udp ?r")
    case True
    then show ?thesis using l uproxy_listen_sock [of "ke_udp ?e" "rs_host ?r" "rs_port ?r" ?x] by simp
  next
    case False
    then show ?thesis
      using l proxy_listen_handle [of "ke_proxy ?e" "rs_host ?r" "rs_port ?r" True "k_tcp_proxy (ux_side x)"]
      by (auto split: prod.splits)
  qed
  have r: "k_resolved (ux_side ?x) = ?r" "k_env (ux_side ?x) = ?e" "k_tcp_proxy (ux_side ?x) = k_tcp_proxy (ux_side x)"
    by simp_all
  have f: "k_resolved (ux_side y) = ?r" "k_env (ux_side y) = ?e" by (subst side, simp)+
  have "start_proxy x = (announce y rc, rc)"
    unfolding start_proxy_def announce_def Let_def r l prod.case f ..
  then show thesis using that side up f by simp
qed


section \<open>Lifetime of a connection\<close>

lemma kget_upd [simp]: "kget (k\<lparr>k_env := e\<rparr>) = kget k" "kget (k\<lparr>k_dials := d\<rparr>) = kget k"
  "kget (k\<lparr>k_streams := d\<rparr>) = kget k" "kget (k\<lparr>k_env := e, k_dials := d\<rparr>) = kget k"
  by (rule kget_same; simp)+

lemma reachable_parts:
  assumes "client_reachable nm x"
  shows "core_but {} (ux_side x)" and "filed x" and "quiet x"
  using client_reachable_inv [OF assms] by (simp_all add: client_inv_def sound_def)

text \<open>
  C5: No callback of hyperdht or libuv finds a freed connection, and none is kept for nothing.
  In every reachable state, each connection whose dial or stream hyperdht still holds a
  callback for is in the client's map; each connection that was erased had no dial, no
  stream and no socket left, and its pipe was destroyed, with its handle gone and no write in
  flight; and each connection in the map is waiting for its dial, has a stream, or has a pipe
  that is not done.
\<close>

theorem client_conn_lifetime:
  assumes "client_reachable nm x"
  defines "k \<equiv> ux_side x"
  shows "(\<forall>i \<in> set (k_dials k). \<exists>sl. kget k i = Some sl \<and> cn_connect_pending (slot_conn sl)) \<and>
    (\<forall>i \<in> set (k_streams k). \<exists>sl. kget k i = Some sl \<and> cn_stream (slot_conn sl)) \<and>
    (\<forall>sl \<in> set (k_reaped k).
       \<not> cn_connect_pending (slot_conn sl) \<and> \<not> cn_stream (slot_conn sl) \<and> \<not> cn_tcp (slot_conn sl) \<and>
       (case sl of Bare c \<Rightarrow> True
        | Piped s \<Rightarrow> destroyed (sys_pipe s) \<and> tcp (sys_pipe s) = None \<and> wq s = [])) \<and>
    (\<forall>i sl. kget k i = Some sl \<longrightarrow>
       cn_connect_pending (slot_conn sl) \<or> cn_stream (slot_conn sl) \<or> pipe_up sl)"
proof -
  have c: "core_but {} k" unfolding k_def by (rule reachable_parts [OF assms(1)])
  have d: "\<exists>sl. kget k i = Some sl \<and> cn_connect_pending (slot_conn sl)" if "i \<in> set (k_dials k)" for i
    using core_but_owed [OF c, of i] core_but_get [OF c, of i] that by (auto simp: slot_in_def)
  have s: "\<exists>sl. kget k i = Some sl \<and> cn_stream (slot_conn sl)" if "i \<in> set (k_streams k)" for i
    using core_but_owed [OF c, of i] core_but_get [OF c, of i] that by (auto simp: slot_in_def)
  have r: "slot_over sl" if "sl \<in> set (k_reaped k)" for sl
    using c that by (simp add: core_but_def core_wf_def)
  have n: "cn_connect_pending (slot_conn sl) \<or> cn_stream (slot_conn sl) \<or> pipe_up sl" if "kget k i = Some sl" for i sl
    using c that by (auto simp: core_but_def reapable_iff)
  show ?thesis using d s r [unfolded slot_over_def] n by blast
qed

text \<open>
  C22: The UDP proxy never holds a stream that is gone. In every reachable state, each client
  entry of the proxy writes to a connection that is in the client's map, was opened for that
  very address, and whose stream has not closed: a write to it is never refused for being
  closed.
\<close>

theorem client_udp_files:
  assumes "client_reachable nm x" and "ux_clients x a = Some c"
  shows "\<exists>j cc. uc_stream c = udp_side j \<and> kget (ux_side x) j = Some (Bare cc) \<and> cn_udp cc \<and>
    cn_client_id cc = a \<and> \<not> cn_closed cc"
  using filed_get [OF reachable_parts(2) [OF assms(1)] assms(2)] by (auto simp: udp_live_def)

lemma client_destroyed_stays:
  assumes "client_reachable nm x" and "v = CeDestroy \<or> k_destroyed (ux_side x)"
  shows "k_destroyed (ux_side (client_step nm x (e, v)))"
proof -
  let ?x = "in_core (\<lambda>k. k\<lparr>k_env := e\<rparr>) x"
  have i: "client_inv ?x" by (rule client_inv_env [OF client_reachable_inv [OF assms(1)]])
  have off: "k_destroyed (ux_side ?x) \<Longrightarrow> \<not> ux_sock ?x" "k_destroyed (ux_side ?x) \<Longrightarrow> \<not> px_handle (k_tcp_proxy (ux_side ?x))"
    using i by (simp_all add: client_inv_def quiet_def)
  have "k_destroyed (ux_side (client_do nm v ?x))" if "v = CeDestroy \<or> k_destroyed (ux_side ?x)"
  proof (cases "v = CeDestroy")
    case True
    then show ?thesis using destroy_inv(2) [OF i] by (simp add: client_do_def)
  next
    case False
    then have d: "k_destroyed (ux_side ?x)" using that by simp
    have "steady y (on_stream_open n y)" for n y by (rule steady_stream_open)
    then have o: "k_destroyed (ux_side (on_stream_open n y)) = k_destroyed (ux_side y)" for n y by (simp add: steady_def)
    show ?thesis
      using d off False
      by (cases v) (simp_all add: client_do_def client_connect_def mutable_done_cb_def proxy_connection_cb_def
          uproxy_recv_cb_def client_connect_cb_def client_stream_open_cb_def client_stream_data_cb_def o
          uproxy_on_stream_data_def client_stream_close_cb_def client_drain_cb_def client_pause_def
          client_resume_def Let_def del: side_in_core split: option.split slot.split, simp_all)
  qed
  then show ?thesis using assms(2) by (simp add: client_step_def)
qed

text \<open>
  C17: Teardown of a client, in any reachable state and for good. After \<open>destroy\<close>, and after
  anything that happens later, the client is destroyed: no query is out, neither proxy
  listens or has clients, and every connection still in the map holds no accepted socket, has
  asked for its stream to be closed if it has one, and its pipe, if it has one, is destroyed.
\<close>

theorem client_teardown:
  assumes "client_reachable nm x" and "client_enabled x (e, v)" and "v = CeDestroy \<or> k_destroyed (ux_side x)"
  defines "y \<equiv> client_step nm x (e, v)"
  shows "k_destroyed (ux_side y) \<and> \<not> k_query (ux_side y) \<and> \<not> px_handle (k_tcp_proxy (ux_side y)) \<and>
    \<not> ux_sock y \<and> ux_clients y = Map.empty \<and>
    (\<forall>i sl. kget (ux_side y) i = Some sl \<longrightarrow>
       \<not> cn_tcp (slot_conn sl) \<and>
       (cn_stream (slot_conn sl) \<and> \<not> cn_closed (slot_conn sl) \<longrightarrow> CClose \<in> set (cn_calls (slot_conn sl))) \<and>
       (case sl of Bare c \<Rightarrow> True | Piped s \<Rightarrow> destroyed (sys_pipe s)))"
proof -
  have i: "client_inv y"
    unfolding y_def by (rule client_inv_step [OF client_reachable_inv [OF assms(1)] assms(2)])
  have "k_destroyed (ux_side y)"
    unfolding y_def by (rule client_destroyed_stays [OF assms(1,3)])
  then show ?thesis
    using i by (auto simp: client_inv_def quiet_def sound_def filed_def all_dead_def slot_dead_def conn_shut_def)
qed

text \<open>
  C39: A late close of an old UDP stream cuts off the new one. The proxy files streams by the
  address of the application, and the close callback erases by that address. So when two
  connections of one address are alive - the old one closing after its client was dropped,
  the new one opened by the next datagram - the close of the old one erases the entry of the
  new one: its connection stays open, but whatever the server sends on it is discarded.
\<close>

theorem client_stale_close:
  fixes e :: client_env
  assumes "client_reachable nm x"
    and "kget (ux_side x) j = Some (Bare old)" and "cn_udp old" and "cn_stream old"
    and "kget (ux_side x) n = Some (Bare new)" and "cn_udp new" and "\<not> cn_closed new"
    and "cn_client_id new = cn_client_id old" and "j \<noteq> n"
  defines "y \<equiv> client_step nm x (e, CeClosed j)"
  shows "kget (ux_side y) n = Some (Bare new) \<and> ux_clients y (cn_client_id new) = None \<and>
    (\<forall>e' data. ux_acts (client_step nm y (e', CeData n data)) = ux_acts y)"
proof -
  have "ux_clients y (cn_client_id new) = None"
    using assms(2,3,8) by (simp add: y_def client_step_def client_do_def client_stream_close_cb_def Let_def kget_def
        uproxy_on_stream_close_def)
  moreover have g: "kget (ux_side y) n = Some (Bare new)"
    using assms(2,3,5,9) by (simp add: y_def client_step_def client_do_def client_stream_close_cb_def Let_def
        kget_reap kget_on_conn)
  ultimately show ?thesis
    using assms(6) by (simp add: client_step_def client_do_def client_stream_data_cb_def uproxy_on_stream_data_def kget_def)
qed

section \<open>A concrete run\<close>

definition demo_crypto2 :: hs_crypto where
  "demo_crypto2 = \<lparr>c_sha256 = (\<lambda>_. replicate 32 7), c_keypair = (\<lambda>s. (map (\<lambda>b. b + 1) s, s))\<rparr>"

definition demo_client_env :: client_env where
  "demo_client_env = \<lparr>ke_write = 0, ke_connect = 0, ke_connect_error = (\<lambda>_. ''error''), ke_query = True,
     ke_cancel_sync = True, ke_uv = demo_env, ke_udp = demo_udp_env,
     ke_proxy = \<lparr>pe_init = 0, pe_resolver = loopback_resolver, pe_bind = 0, pe_listen = 0, pe_sockname = Some 4000\<rparr>\<rparr>"

definition demo_client_config :: client_config where
  "demo_client_config = \<lparr>ck_key = ''secret'', ck_secure = True, ck_port = None, ck_host = None, ck_udp = Some True\<rparr>"

lemmas client_run_defs = client_step_def client_do_def client_enabled_def client_connect_def mutable_done_cb_def
  start_proxy_def client_resolve_def default_resolved_def uproxy_listen_def Let_def
  client_connect_cb_def client_stream_open_cb_def on_stream_open_def client_stream_data_cb_def
  client_stream_close_cb_def on_conn_def kget_def kput_def kemplace_def reap_def reapable_iff
  begin_dht_connect_def

lemmas demo_client_defs = demo_client_env_def demo_client_config_def demo_udp_env_def demo_env_def

definition demo_c1 :: client where
  "demo_c1 = client_step dotted_quad (client_step dotted_quad (client_new demo_crypto2 demo_client_env True demo_client_config)
     (demo_client_env, CeConnect True)) (demo_client_env, CeDone)"

lemma demo_c1: "client_reachable dotted_quad demo_c1"
  unfolding demo_c1_def
  by (intro client_reachable_step client_reachable_start)
    (simp_all add: client_run_defs demo_client_defs client_new_def in_core_def new_udp_proxy_def kact_def new_proxy_def)

lemma demo_c1_state: "ux_sock demo_c1" "ux_open demo_c1 = Some open_udp_stream" "ux_clients demo_c1 = Map.empty"
  "k_conns (ux_side demo_c1) = []" "k_next (ux_side demo_c1) = 1" "k_dials (ux_side demo_c1) = []"
  "k_streams (ux_side demo_c1) = []" "k_dht (ux_side demo_c1)" "\<not> k_destroyed (ux_side demo_c1)"
  by (simp_all add: demo_c1_def client_run_defs demo_client_defs client_new_def in_core_def new_udp_proxy_def kact_def
      new_proxy_def resolve_def resolve_ip4_def loopback_resolver_def uv_codes)

abbreviation demo_id :: string where "demo_id \<equiv> client_key dotted_quad demo_app"

definition demo_recv :: "client \<Rightarrow> client" where
  "demo_recv x = client_step dotted_quad x (demo_client_env, CeRecv 1 [9] (Some demo_app) False)"

definition demo_c2 :: client where "demo_c2 = demo_recv demo_c1"
definition demo_c3 :: client where
  "demo_c3 = client_step dotted_quad (client_step dotted_quad demo_c2 (demo_client_env, CeDialed 1 0 True True))
     (demo_client_env, CeOpen 1)"
definition demo_c4 :: client where
  "demo_c4 = client_step dotted_quad demo_c3 (demo_client_env, CeData 1 [0xFF, 0xFF, 0xFF, 0xFF])"
definition demo_c5 :: client where "demo_c5 = demo_recv demo_c4"

definition demo_conn :: "u64 \<Rightarrow> client_conn" where
  "demo_conn i = (new_client_conn i True demo_id)\<lparr>cn_pending := frame [9]\<rparr>"

lemma demo_frame: "length (frame [9]) = 5"
  by (simp add: frame_def frame_header_def)

lemma demo_recv_state:
  assumes "ux_sock x" "ux_open x = Some open_udp_stream" "ux_clients x demo_id = None" "k_dht (ux_side x)"
    "\<not> k_destroyed (ux_side x)" "kget (ux_side x) (k_next (ux_side x)) = None"
  shows "ux_clients (demo_recv x) demo_id = Some \<lparr>uc_stream = udp_side (k_next (ux_side x)), uc_addr = demo_app, uc_buf = []\<rparr>"
    "kget (ux_side (demo_recv x)) i = (if i = k_next (ux_side x) then Some (Bare (demo_conn i)) else kget (ux_side x) i)"
    "k_next (ux_side (demo_recv x)) = k_next (ux_side x) + 1"
    "k_dials (ux_side (demo_recv x)) = k_next (ux_side x) # k_dials (ux_side x)"
    "k_streams (ux_side (demo_recv x)) = k_streams (ux_side x)"
    "k_dht (ux_side (demo_recv x))" "\<not> k_destroyed (ux_side (demo_recv x))" "ux_sock (demo_recv x)"
    "ux_open (demo_recv x) = Some open_udp_stream"
  using assms demo_frame
  by (simp_all add: demo_recv_def client_step_def client_do_def uproxy_recv_cb_def is_end_of_pass_def uproxy_client_def
      uproxy_write_def Let_def open_udp_stream_def begin_dht_connect_def kemplace_def kget_def kput_def update_conv
      client_side_write_def conn_write_def demo_conn_def demo_client_env_def new_client_conn_def kMaxPending_def kact_def
      uxemit_def)

lemma demo_c2_reach: "client_reachable dotted_quad demo_c2"
  unfolding demo_c2_def demo_recv_def
  by (intro client_reachable_step demo_c1) (simp add: client_enabled_def demo_c1_state)

lemma demo_c2_state:
  "ux_clients demo_c2 demo_id = Some \<lparr>uc_stream = udp_side 1, uc_addr = demo_app, uc_buf = []\<rparr>"
  "kget (ux_side demo_c2) i = (if i = 1 then Some (Bare (demo_conn i)) else None)"
  "k_next (ux_side demo_c2) = 2" "k_dials (ux_side demo_c2) = [1]" "k_streams (ux_side demo_c2) = []"
  "k_dht (ux_side demo_c2)" "\<not> k_destroyed (ux_side demo_c2)" "ux_sock demo_c2" "ux_open demo_c2 = Some open_udp_stream"
  using demo_recv_state [of demo_c1] by (simp_all add: demo_c1_state demo_c2_def kget_def)

lemma dht_frame [simp]: "k_dht (on_conn i f k) = k_dht k" "k_dht (kact a k) = k_dht k"
  by (simp_all add: on_conn_def kput_def kact_def split: option.split)

lemma demo_dialed:
  fixes nm :: "u32 \<Rightarrow> string"
  assumes "kget (ux_side x) i = Some (Bare c)" and "\<not> k_destroyed (ux_side x)"
  defines "y \<equiv> client_step nm x (demo_client_env, CeDialed i 0 True True)"
  shows "kget (ux_side y) j = (if j = i then Some (Bare (c\<lparr>cn_connect_pending := False, cn_stream := True\<rparr>)) else kget (ux_side x) j)"
    "k_streams (ux_side y) = i # k_streams (ux_side x)" "k_dials (ux_side y) = remove1 i (k_dials (ux_side x))"
    "ux_clients y = ux_clients x" "ux_sock y = ux_sock x" "ux_open y = ux_open x" "k_next (ux_side y) = k_next (ux_side x)"
    "k_dht (ux_side y) = k_dht (ux_side x)" "k_destroyed (ux_side y) = k_destroyed (ux_side x)"
  using assms(1,2) unfolding y_def
  by (simp_all add: client_step_def client_do_def client_connect_cb_def Let_def kget_on_conn)

lemma demo_opened:
  fixes nm :: "u32 \<Rightarrow> string"
  assumes "kget (ux_side x) i = Some (Bare c)" and "cn_udp c" "cn_stream c" "\<not> cn_closed c"
  defines "y \<equiv> client_step nm x (demo_client_env, CeOpen i)"
  shows "kget (ux_side y) j = (if j = i then Some (Bare (opened (cn_pending c) 0 c)) else kget (ux_side x) j)"
    "k_streams (ux_side y) = k_streams (ux_side x)" "k_dials (ux_side y) = k_dials (ux_side x)"
    "ux_clients y = ux_clients x" "ux_sock y = ux_sock x" "ux_open y = ux_open x" "k_next (ux_side y) = k_next (ux_side x)"
    "k_dht (ux_side y) = k_dht (ux_side x)" "k_destroyed (ux_side y) = k_destroyed (ux_side x)"
  using assms(1-4) unfolding y_def
  by (simp_all add: client_step_def client_do_def client_stream_open_cb_def on_stream_open_def Let_def
      kget_on_conn demo_client_env_def opened_def)

lemma demo_oversized:
  fixes nm :: "u32 \<Rightarrow> string"
  assumes "kget (ux_side x) i = Some (Bare c)" and "cn_udp c"
    and "ux_clients x (cn_client_id c) = Some \<lparr>uc_stream = udp_side i, uc_addr = a, uc_buf = []\<rparr>" and "ux_sock x"
  defines "y \<equiv> client_step nm x (demo_client_env, CeData i [0xFF, 0xFF, 0xFF, 0xFF])"
  shows "kget (ux_side y) j = (if j = i then Some (Bare (conn_close c)) else kget (ux_side x) j)"
    "k_streams (ux_side y) = k_streams (ux_side x)" "k_dials (ux_side y) = k_dials (ux_side x)"
    "ux_clients y = (ux_clients x)(cn_client_id c := None)" "ux_sock y" "ux_open y = ux_open x"
    "k_next (ux_side y) = k_next (ux_side x)"
    "k_dht (ux_side y) = k_dht (ux_side x)" "k_destroyed (ux_side y) = k_destroyed (ux_side x)"
proof -
  have l: "kMaxDatagram < unat (frame_len_at [0xFF, 0xFF, 0xFF, 0xFF])"
    by (simp add: frame_len_at_def kMaxDatagram_def)
  have p: "decoder_push [] [0xFF, 0xFF, 0xFF, 0xFF] = (False, [0xFF, 0xFF, 0xFF, 0xFF], [])"
    unfolding decoder_push_deframe using l by (subst deframe.simps) simp
  show "kget (ux_side y) j = (if j = i then Some (Bare (conn_close c)) else kget (ux_side x) j)"
    "k_streams (ux_side y) = k_streams (ux_side x)" "k_dials (ux_side y) = k_dials (ux_side x)"
    "ux_clients y = (ux_clients x)(cn_client_id c := None)" "ux_sock y" "ux_open y = ux_open x"
    "k_next (ux_side y) = k_next (ux_side x)"
    "k_dht (ux_side y) = k_dht (ux_side x)" "k_destroyed (ux_side y) = k_destroyed (ux_side x)"
    using assms(1-4) p unfolding y_def
    by (simp_all add: client_step_def client_do_def client_stream_data_cb_def uproxy_on_stream_data_def Let_def
        uproxy_drop_def call_def uxemit_def kget_on_conn)
qed

definition demo_mid :: client where
  "demo_mid = client_step dotted_quad demo_c2 (demo_client_env, CeDialed 1 0 True True)"

lemma demo_conn_sel [simp]: "cn_udp (demo_conn i)" "cn_client_id (demo_conn i) = demo_id"
  "\<not> cn_closed (demo_conn i)" "cn_pending (demo_conn i) = frame [9]" "cn_id (demo_conn i) = i"
  by (simp_all add: demo_conn_def)

lemma demo_mid_state:
  "kget (ux_side demo_mid) i = (if i = 1 then Some (Bare ((demo_conn 1)\<lparr>cn_connect_pending := False, cn_stream := True\<rparr>)) else None)"
  "k_next (ux_side demo_mid) = 2" "k_dials (ux_side demo_mid) = []" "k_streams (ux_side demo_mid) = [1]"
  "k_dht (ux_side demo_mid)" "\<not> k_destroyed (ux_side demo_mid)" "ux_sock demo_mid" "ux_open demo_mid = Some open_udp_stream"
  "ux_clients demo_mid demo_id = Some \<lparr>uc_stream = udp_side 1, uc_addr = demo_app, uc_buf = []\<rparr>"
  using demo_dialed [of demo_c2 1 "demo_conn 1" dotted_quad] by (simp_all add: demo_mid_def demo_c2_state)

definition demo_old :: client_conn where
  "demo_old = opened (frame [9]) 0 ((demo_conn 1)\<lparr>cn_connect_pending := False, cn_stream := True\<rparr>)"

lemma demo_old_sel [simp]: "cn_udp demo_old" "cn_client_id demo_old = demo_id" "\<not> cn_closed demo_old" "cn_stream demo_old"
  by (simp_all add: demo_old_def)

lemma demo_c3_state:
  "kget (ux_side demo_c3) i = (if i = 1 then Some (Bare demo_old) else None)"
  "k_next (ux_side demo_c3) = 2" "k_dials (ux_side demo_c3) = []" "k_streams (ux_side demo_c3) = [1]"
  "k_dht (ux_side demo_c3)" "\<not> k_destroyed (ux_side demo_c3)" "ux_sock demo_c3" "ux_open demo_c3 = Some open_udp_stream"
  "ux_clients demo_c3 demo_id = Some \<lparr>uc_stream = udp_side 1, uc_addr = demo_app, uc_buf = []\<rparr>"
  using demo_opened [of demo_mid 1 "(demo_conn 1)\<lparr>cn_connect_pending := False, cn_stream := True\<rparr>" dotted_quad]
  by (simp_all add: demo_c3_def demo_mid_def [symmetric] demo_mid_state demo_old_def)

lemma demo_c3_reach: "client_reachable dotted_quad demo_c3"
proof -
  have "client_reachable dotted_quad demo_mid"
    unfolding demo_mid_def by (intro client_reachable_step demo_c2_reach) (simp add: client_enabled_def demo_c2_state)
  then show ?thesis
    unfolding demo_c3_def demo_mid_def [symmetric]
    by (rule client_reachable_step) (simp add: client_enabled_def demo_mid_state)
qed

lemma demo_c4_state:
  "kget (ux_side demo_c4) i = (if i = 1 then Some (Bare (conn_close demo_old)) else None)"
  "k_next (ux_side demo_c4) = 2" "k_dials (ux_side demo_c4) = []" "k_streams (ux_side demo_c4) = [1]"
  "k_dht (ux_side demo_c4)" "\<not> k_destroyed (ux_side demo_c4)" "ux_sock demo_c4" "ux_open demo_c4 = Some open_udp_stream"
  "ux_clients demo_c4 demo_id = None"
  using demo_oversized [of demo_c3 1 demo_old demo_app dotted_quad]
  by (simp_all add: demo_c4_def demo_c3_state)

lemma demo_c4_reach: "client_reachable dotted_quad demo_c4"
  unfolding demo_c4_def by (rule client_reachable_step [OF demo_c3_reach]) (simp add: client_enabled_def demo_c3_state)

lemma demo_c5_reach: "client_reachable dotted_quad demo_c5"
  unfolding demo_c5_def demo_recv_def
  by (rule client_reachable_step [OF demo_c4_reach]) (simp add: client_enabled_def demo_c4_state)

lemma demo_c5_state:
  "kget (ux_side demo_c5) i =
     (if i = 2 then Some (Bare (demo_conn 2)) else if i = 1 then Some (Bare (conn_close demo_old)) else None)"
  "k_dials (ux_side demo_c5) = [2]" "k_streams (ux_side demo_c5) = [1]" "\<not> k_destroyed (ux_side demo_c5)"
  "ux_clients demo_c5 demo_id = Some \<lparr>uc_stream = udp_side 2, uc_addr = demo_app, uc_buf = []\<rparr>"
  using demo_recv_state [of demo_c4] by (simp_all add: demo_c4_state demo_c5_def)

lemma conn_close_sel [simp]: "cn_udp (conn_close c) = cn_udp c" "cn_stream (conn_close c) = cn_stream c"
  "cn_client_id (conn_close c) = cn_client_id c"
  by (simp_all add: conn_close_def)

theorem client_stale_close_witness:
  defines "y \<equiv> client_step dotted_quad demo_c5 (demo_client_env, CeClosed 1)"
  shows "client_reachable dotted_quad demo_c5 \<and> ux_clients demo_c5 demo_id \<noteq> None \<and>
    kget (ux_side y) 2 = Some (Bare (demo_conn 2)) \<and> ux_clients y demo_id = None"
  using client_stale_close [OF demo_c5_reach, of 1 "conn_close demo_old" 2 "demo_conn 2" demo_client_env]
  by (simp add: demo_c5_state demo_c5_reach y_def)

theorem client_conn_lifetime_witness:
  "client_reachable dotted_quad demo_c5 \<and> k_dials (ux_side demo_c5) = [2] \<and> k_streams (ux_side demo_c5) = [1] \<and>
   (\<exists>sl. kget (ux_side demo_c5) 2 = Some sl \<and> cn_connect_pending (slot_conn sl))"
  using client_conn_lifetime [OF demo_c5_reach] demo_c5_reach by (simp add: demo_c5_state)

theorem client_udp_files_witness:
  "\<exists>c. ux_clients demo_c5 demo_id = Some c \<and> client_reachable dotted_quad demo_c5 \<and>
     (\<exists>j cc. uc_stream c = udp_side j \<and> kget (ux_side demo_c5) j = Some (Bare cc) \<and> cn_client_id cc = demo_id)"
  using client_udp_files [OF demo_c5_reach demo_c5_state(5)] demo_c5_reach demo_c5_state(5) by blast

theorem client_teardown_witness:
  defines "y \<equiv> client_step dotted_quad demo_c5 (demo_client_env, CeDestroy)"
  shows "client_reachable dotted_quad y \<and> \<not> k_destroyed (ux_side demo_c5) \<and> k_destroyed (ux_side y) \<and> ux_clients y = Map.empty"
proof -
  have e: "client_enabled demo_c5 (demo_client_env, CeDestroy)" by (simp add: client_enabled_def)
  show ?thesis
    using client_teardown [OF demo_c5_reach e] client_reachable_step [OF demo_c5_reach e]
    by (simp add: y_def demo_c5_state)
qed

theorem client_record_newest_witness:
  defines "k \<equiv> ux_side (client_new demo_crypto2 demo_client_env True demo_client_config)"
  shows "\<not> k_destroyed k \<and> k_record k = None \<and> k_record (mutable_cb (mutable_cb k (3, None)) (4, Some [])) = None"
proof -
  have k: "\<not> k_destroyed k" "k_record k = None"
    by (simp_all add: k_def client_new_def demo_client_config_def new_udp_proxy_def Let_def)
  show ?thesis using client_record_newest [OF k, of "[(3, None), (4, Some [])]"] k
    by (auto simp: records_of_def reply_record_def mutable_cb_def split: option.splits)
qed

end
