(* ===== verification/Hs_Endpoint.thy ===== *)
theory Hs_Endpoint
  imports Hs_Server Hs_Client_Props
begin

text \<open>
  The public API (\<^verbatim>\<open>src/holesail.cpp\<close>): the derivation of key, seed and mode from the options;
  the endpoint that owns the DHT and a server or a client; the deferred freeing of a DHT; and
  the lookup of a record. The random source is the argument \<open>rnd\<close>, the 32 bytes it would
  return; whether \<^verbatim>\<open>hyperdht_create\<close> succeeds is an argument too.
\<close>

section \<open>Freeing a DHT\<close>

text \<open>
  \<^verbatim>\<open>DhtReaper\<close>: a timer that first asks the DHT to destroy itself, then, when that is done,
  counts turns of the loop and frees it.
\<close>

definition kDrainTurns :: int where "kDrainTurns = 16"

datatype reap_phase = Armed | Destroying | Draining | Freed

record dht_reaper =
  rp_phase :: reap_phase
  rp_turns_left :: int

text \<open>\<open>None\<close> is a null DHT, for which nothing is scheduled.\<close>

definition reap_dht :: "bool \<Rightarrow> dht_reaper option" where
  "reap_dht dht = (if \<not> dht then None else Some \<lparr>rp_phase = Armed, rp_turns_left = kDrainTurns\<rparr>)"

definition begin_reap :: "dht_reaper \<Rightarrow> dht_reaper" where
  "begin_reap r = r\<lparr>rp_phase := Destroying\<rparr>"

text \<open>The callback of \<^verbatim>\<open>hyperdht_destroy\<close>: the same timer starts over, as a repeating one.\<close>

definition destroyed_cb :: "dht_reaper \<Rightarrow> dht_reaper" where
  "destroyed_cb r = r\<lparr>rp_phase := Draining\<rparr>"

definition reap_tick :: "dht_reaper \<Rightarrow> dht_reaper" where
  "reap_tick r =
     (let r = r\<lparr>rp_turns_left := rp_turns_left r - 1\<rparr>
      in if 0 < rp_turns_left r then r else r\<lparr>rp_phase := Freed\<rparr>)"

text \<open>What the loop does next with a reaper: the timer's callback, or the DHT's.\<close>

definition reaper_step :: "dht_reaper \<Rightarrow> dht_reaper" where
  "reaper_step r =
     (case rp_phase r of
        Armed \<Rightarrow> begin_reap r | Destroying \<Rightarrow> destroyed_cb r | Draining \<Rightarrow> reap_tick r | Freed \<Rightarrow> r)"

section \<open>Options and derivation\<close>

record options =
  op_server :: bool
  op_client :: bool
  op_port :: "u16 option"
  op_host :: "string option"
  op_key :: "string option"
  op_secure :: "bool option"
  op_udp :: "bool option"
  op_log_level :: int

text \<open>\<open>Inl\<close> is the message of the \<^verbatim>\<open>OptionsError\<close> thrown.\<close>

definition validate_opts :: "options \<Rightarrow> string + options" where
  "validate_opts opts =
     (if (op_client opts \<and> op_key opts = None) \<or> op_key opts = Some [] then Inl ''Key is empty''
      else if op_server opts \<and> op_client opts then Inl ''Can not set both server and client at once''
      else if op_server opts \<and> (op_host opts = None \<or> op_host opts = Some []) then Inl ''No host specified''
      else Inr opts)"

definition hash_hex :: "hs_crypto \<Rightarrow> string \<Rightarrow> string" where
  "hash_hex cr key = to_hex (sha256 (c_sha256 cr) key)"

record derived =
  de_secure :: bool
  de_key :: string
  de_seed_hex :: string

definition value_or :: "'a option \<Rightarrow> 'a \<Rightarrow> 'a" where
  "value_or x d = (case x of None \<Rightarrow> d | Some v \<Rightarrow> v)"

definition derive :: "hs_crypto \<Rightarrow> byte list \<Rightarrow> options \<Rightarrow> derived" where
  "derive cr rnd opts =
     (let parsed = parse_url (value_or (op_key opts) []);
          d = \<lparr>de_secure = (case pu_secure parsed of Some s \<Rightarrow> s | None \<Rightarrow> value_or (op_secure opts) False),
               de_key = [], de_seed_hex = []\<rparr>
      in if op_server opts
         then (if pu_key parsed \<noteq> []
               then d\<lparr>de_key := pu_key parsed, de_seed_hex := hash_hex cr (pu_key parsed)\<rparr>
               else if de_secure d
               then (let key = random_hex32 rnd in d\<lparr>de_key := key, de_seed_hex := hash_hex cr key\<rparr>)
               else d)
         else (let d = d\<lparr>de_key := pu_key parsed\<rparr>
               in if de_secure d then d\<lparr>de_seed_hex := hash_hex cr (de_key d)\<rparr> else d))"

definition make_url :: "bool \<Rightarrow> string \<Rightarrow> string" where
  "make_url secure key = (if secure then ''hs://s000'' else ''hs://0000'') @ key"

section \<open>The endpoint\<close>

record info =
  in_type :: string
  in_state :: string
  in_secure :: bool
  in_port :: u16
  in_host :: string
  in_protocol :: string
  in_seed :: string
  in_key :: string
  in_url :: string
  in_public_key :: string

definition empty_info :: info where
  "empty_info = \<lparr>in_type = [], in_state = [], in_secure = False, in_port = 0, in_host = [], in_protocol = [],
     in_seed = [], in_key = [], in_url = [], in_public_key = []\<rparr>"

text \<open>
  \<open>ep_created\<close> counts the DHTs created; \<open>ep_reapers\<close>, \<open>ep_gone\<close> and \<open>ep_orphans\<close> are the
  DHTs, the servers and the client's unfinished pipes the endpoint has let go of.
\<close>

record endpoint =
  ep_options :: options
  ep_derived :: derived
  ep_logger :: logger
  ep_dht :: bool
  ep_opened :: bool
  ep_server :: "server option"
  ep_client :: "client option"
  ep_info :: info
  ep_created :: nat
  ep_reapers :: "dht_reaper list"
  ep_gone :: "server list"
  ep_orphans :: "client_conn tcp_sys list"

definition clamp :: "int \<Rightarrow> int \<Rightarrow> int \<Rightarrow> int" where
  "clamp x lo hi = (if x < lo then lo else if hi < x then hi else x)"

definition endpoint_new :: "hs_crypto \<Rightarrow> byte list \<Rightarrow> options \<Rightarrow> string + endpoint" where
  "endpoint_new cr rnd opts =
     (case validate_opts opts of
        Inl msg \<Rightarrow> Inl msg
      | Inr opts \<Rightarrow> Inr
          \<lparr>ep_options = opts, ep_derived = derive cr rnd opts,
           ep_logger = \<lparr>lg_prefix = ''Holesail'', lg_enabled = 0 \<le> op_log_level opts,
                        lg_min_level = level_of_int (clamp (op_log_level opts) 0 3)\<rparr>,
           ep_dht = False, ep_opened = False, ep_server = None, ep_client = None, ep_info = empty_info,
           ep_created = 0, ep_reapers = [], ep_gone = [], ep_orphans = []\<rparr>)"

definition server_config :: "endpoint \<Rightarrow> config" where
  "server_config x =
     (let opts = ep_options x; d = ep_derived x in
      \<lparr>cf_port = value_or (op_port opts) 0, cf_host = value_or (op_host opts) ''127.0.0.1'',
       cf_seed_hex = de_seed_hex d, cf_secure = de_secure d, cf_udp = value_or (op_udp opts) False\<rparr>)"

definition client_config_of :: "endpoint \<Rightarrow> client_config" where
  "client_config_of x =
     (let opts = ep_options x; d = ep_derived x in
      \<lparr>ck_key = de_key d, ck_secure = de_secure d, ck_port = op_port opts, ck_host = op_host opts,
       ck_udp = op_udp opts\<rparr>)"

text \<open>
  \<open>created\<close>: \<^verbatim>\<open>hyperdht_create\<close> returned a DHT. The result is the return value, or the
  message of an exception that leaves \<^verbatim>\<open>ready\<close> (the server's constructor may throw).
\<close>

definition endpoint_ready ::
  "hs_crypto \<Rightarrow> byte list \<Rightarrow> bool \<Rightarrow> server_env \<Rightarrow> client_env \<Rightarrow> bool \<Rightarrow> endpoint \<Rightarrow> endpoint \<times> (string + int)" where
  "endpoint_ready cr rnd created se ce cb x =
     (if ep_dht x then (x, Inr UV_EALREADY)
      else if \<not> created then (x, Inr UV_ENOMEM)
      else let x = x\<lparr>ep_dht := True, ep_created := Suc (ep_created x)\<rparr>;
               x = x\<lparr>ep_opened := True\<rparr>
        in if op_server (ep_options x)
           then (case server_new cr rnd True (server_config x) of
                   Inl msg \<Rightarrow> (x, Inl msg)
                 | Inr s \<Rightarrow> (case server_start se cb s of (s, rc) \<Rightarrow> (x\<lparr>ep_server := Some s\<rparr>, Inr rc)))
           else (case client_connect cb (client_new cr ce True (client_config_of x)) of
                   (c, rc) \<Rightarrow> (x\<lparr>ep_client := Some c\<rparr>, Inr rc)))"

definition endpoint_pause :: "endpoint \<Rightarrow> endpoint" where
  "endpoint_pause x = x\<lparr>ep_server := map_option server_pause (ep_server x),
     ep_client := map_option (in_core client_pause) (ep_client x)\<rparr>"

definition endpoint_resume :: "endpoint \<Rightarrow> endpoint" where
  "endpoint_resume x = x\<lparr>ep_server := map_option server_resume (ep_server x),
     ep_client := map_option (in_core client_resume) (ep_client x)\<rparr>"

text \<open>
  \<open>info()\<close> recomputes the mutable \<open>info_\<close>: what the server or client reports, or what the
  options say before the first \<^verbatim>\<open>ready\<close>; and the key the underlying object would report.
\<close>

definition server_info :: "server \<Rightarrow> info \<Rightarrow> info" where
  "server_info s i =
     i\<lparr>in_state := sv_state s, in_port := cf_port (sv_config s), in_host := cf_host (sv_config s),
       in_protocol := if cf_udp (sv_config s) then ''udp'' else ''tcp'', in_public_key := public_key_z32 s\<rparr>"

definition client_info :: "client_core \<Rightarrow> info \<Rightarrow> info" where
  "client_info k i =
     i\<lparr>in_state := k_state k, in_port := rs_port (k_resolved k), in_host := rs_host (k_resolved k),
       in_protocol := if rs_udp (k_resolved k) then ''udp'' else ''tcp'', in_public_key := z32_encode (k_target k)\<rparr>"

definition options_info :: "options \<Rightarrow> info \<Rightarrow> info" where
  "options_info opts i =
     i\<lparr>in_port := value_or (op_port opts) 0, in_host := value_or (op_host opts) [],
       in_protocol := if value_or (op_udp opts) False then ''udp'' else ''tcp''\<rparr>"

definition endpoint_info :: "endpoint \<Rightarrow> endpoint" where
  "endpoint_info x =
     (let d = ep_derived x; opts = ep_options x;
          i = (ep_info x)\<lparr>in_type := if op_server opts then ''server'' else ''client'',
                in_secure := de_secure d, in_seed := de_seed_hex d\<rparr>;
          (i, underlying) =
            (case ep_server x of
               Some s \<Rightarrow> (server_info s i, server_key s)
             | None \<Rightarrow>
                 (case ep_client x of
                    Some c \<Rightarrow> client_info (ux_side c) i
                  | None \<Rightarrow> if \<not> ep_opened x then options_info opts i else i, de_key d));
          key = (if de_key d \<noteq> [] \<and> de_secure d then de_key d else underlying)
      in x\<lparr>ep_info := i\<lparr>in_key := key, in_url := make_url (de_secure d) key\<rparr>\<rparr>)"

text \<open>
  \<open>close\<close>, and the destructor, which is the same. Dropping the server runs its destructor,
  which destroys it again; dropping the client leaves its unfinished pipes to libuv.
\<close>

definition drop_server :: "server_env \<Rightarrow> endpoint \<Rightarrow> endpoint" where
  "drop_server e x =
     (case ep_server x of
        None \<Rightarrow> x
      | Some s \<Rightarrow> x\<lparr>ep_gone := ep_gone x @ [server_destroy e s], ep_server := None\<rparr>)"

definition drop_client :: "endpoint \<Rightarrow> endpoint" where
  "drop_client x =
     (case ep_client x of
        None \<Rightarrow> x
      | Some c \<Rightarrow> x\<lparr>ep_orphans := ep_orphans x @ snd (client_delete c), ep_client := None\<rparr>)"

definition endpoint_close :: "server_env \<Rightarrow> endpoint \<Rightarrow> endpoint" where
  "endpoint_close e x =
     (let x = x\<lparr>ep_server := map_option (server_destroy e) (ep_server x)\<rparr>;
          x = x\<lparr>ep_client := map_option client_destroy (ep_client x)\<rparr>;
          x = endpoint_info x;
          x = drop_client (drop_server e x);
          x = (case reap_dht (ep_dht x) of None \<Rightarrow> x | Some r \<Rightarrow> x\<lparr>ep_reapers := ep_reapers x @ [r]\<rparr>)
      in x\<lparr>ep_dht := False, ep_info := (ep_info x)\<lparr>in_state := ''destroyed''\<rparr>\<rparr>)"

section \<open>The endpoint as a machine\<close>

text \<open>
  What happens to an endpoint: its owner's calls, and the callbacks of the server or the
  client it holds, which are the machines of those components.
\<close>

datatype endpoint_event =
    EpReady hs_crypto "byte list" bool server_env client_env bool
  | EpPause
  | EpResume
  | EpInfo
  | EpClose server_env
  | EpServer "server_env \<times> server_event"
  | EpClient "client_env \<times> client_event"

definition endpoint_step :: "(u32 \<Rightarrow> string) \<Rightarrow> endpoint \<Rightarrow> endpoint_event \<Rightarrow> endpoint" where
  "endpoint_step nm x ev =
     (case ev of
        EpReady cr rnd created se ce cb \<Rightarrow> fst (endpoint_ready cr rnd created se ce cb x)
      | EpPause \<Rightarrow> endpoint_pause x
      | EpResume \<Rightarrow> endpoint_resume x
      | EpInfo \<Rightarrow> endpoint_info x
      | EpClose e \<Rightarrow> endpoint_close e x
      | EpServer v \<Rightarrow> x\<lparr>ep_server := map_option (\<lambda>s. server_step s v) (ep_server x)\<rparr>
      | EpClient v \<Rightarrow> x\<lparr>ep_client := map_option (\<lambda>c. client_step nm c v) (ep_client x)\<rparr>)"

definition endpoint_enabled :: "endpoint \<Rightarrow> endpoint_event \<Rightarrow> bool" where
  "endpoint_enabled x ev =
     (case ev of
        EpServer v \<Rightarrow> (case ep_server x of None \<Rightarrow> False | Some s \<Rightarrow> server_enabled s v)
      | EpClient v \<Rightarrow> (case ep_client x of None \<Rightarrow> False | Some c \<Rightarrow> client_enabled c v)
      | _ \<Rightarrow> True)"

definition endpoint_begin :: "endpoint \<Rightarrow> bool" where
  "endpoint_begin x \<longleftrightarrow> (\<exists>cr rnd opts. endpoint_new cr rnd opts = Inr x)"

text \<open>
  What holds of every endpoint: the server and the client are in reachable states of their
  own and exist only while the DHT they borrow does; what was let go of is torn down; and
  every DHT ever created is either the endpoint's own or with one reaper.
\<close>

definition endpoint_inv :: "(u32 \<Rightarrow> string) \<Rightarrow> endpoint \<Rightarrow> bool" where
  "endpoint_inv nm x \<longleftrightarrow>
     (\<forall>s. ep_server x = Some s \<longrightarrow> server_reachable s \<and> ep_dht x \<and> op_server (ep_options x)) \<and>
     (\<forall>c. ep_client x = Some c \<longrightarrow> client_reachable nm c \<and> ep_dht x \<and> \<not> op_server (ep_options x)) \<and>
     (\<forall>s \<in> set (ep_gone x). server_reachable s \<and> server_down s) \<and>
     (\<forall>p \<in> set (ep_orphans x). destroyed (sys_pipe p) \<and> \<not> has_on_destroy (sys_pipe p)) \<and>
     length (ep_reapers x) + (if ep_dht x then 1 else 0) = ep_created x"

lemma info_frame [simp]:
  "ep_server (endpoint_info x) = ep_server x" "ep_client (endpoint_info x) = ep_client x"
  "ep_dht (endpoint_info x) = ep_dht x" "ep_options (endpoint_info x) = ep_options x"
  "ep_derived (endpoint_info x) = ep_derived x" "ep_opened (endpoint_info x) = ep_opened x"
  "ep_created (endpoint_info x) = ep_created x" "ep_reapers (endpoint_info x) = ep_reapers x"
  "ep_gone (endpoint_info x) = ep_gone x" "ep_orphans (endpoint_info x) = ep_orphans x"
  by (simp_all add: endpoint_info_def Let_def split: option.split prod.split)

lemma drop_parts_frame [simp]:
  "ep_server (drop_server e x) = None" "ep_client (drop_server e x) = ep_client x"
  "ep_dht (drop_server e x) = ep_dht x" "ep_created (drop_server e x) = ep_created x"
  "ep_reapers (drop_server e x) = ep_reapers x" "ep_orphans (drop_server e x) = ep_orphans x"
  "ep_options (drop_server e x) = ep_options x" "ep_info (drop_server e x) = ep_info x"
  "ep_derived (drop_server e x) = ep_derived x" "ep_opened (drop_server e x) = ep_opened x"
  "ep_gone (drop_server e x) = ep_gone x @ (case ep_server x of None \<Rightarrow> [] | Some s \<Rightarrow> [server_destroy e s])"
  "ep_client (drop_client x) = None" "ep_server (drop_client x) = ep_server x"
  "ep_dht (drop_client x) = ep_dht x" "ep_created (drop_client x) = ep_created x"
  "ep_reapers (drop_client x) = ep_reapers x" "ep_gone (drop_client x) = ep_gone x"
  "ep_options (drop_client x) = ep_options x" "ep_info (drop_client x) = ep_info x"
  "ep_derived (drop_client x) = ep_derived x" "ep_opened (drop_client x) = ep_opened x"
  "ep_orphans (drop_client x) = ep_orphans x @ (case ep_client x of None \<Rightarrow> [] | Some c \<Rightarrow> snd (client_delete c))"
  by (simp_all add: drop_server_def drop_client_def split: option.split)

end
