(* ===== verification/Hs_Endpoint_Props.thy ===== *)
theory Hs_Endpoint_Props
  imports Hs_Endpoint
begin

text \<open>
  What holds of an endpoint: its invariant in every reachable state, the freeing of a DHT, the
  errors of the options, and the agreement of the two ends that share a connection string.
\<close>

section \<open>The endpoint's invariant\<close>

lemma server_reachable_destroy [simp]: "server_reachable s \<Longrightarrow> server_reachable (server_destroy e s)"
  using server_reachable_step [of s "(e, SvDestroy)"] by (simp add: server_step_def server_enabled_def)

lemma server_reachable_pause [simp]: "server_reachable s \<Longrightarrow> server_reachable (server_pause s)"
  using server_reachable_step [of s "(e, SvPause)" for e] by (simp add: server_step_def server_enabled_def)

lemma server_reachable_resume [simp]: "server_reachable s \<Longrightarrow> server_reachable (server_resume s)"
  using server_reachable_step [of s "(e, SvResume)" for e] by (simp add: server_step_def server_enabled_def)

lemma env_same: "in_core (\<lambda>k. k\<lparr>k_env := k_env (ux_side x)\<rparr>) x = (x :: client)"
  by (simp add: in_core_def)

lemma client_reachable_call:
  assumes "client_reachable nm x" and "v = CePause \<or> v = CeResume \<or> v = CeDestroy"
  shows "client_reachable nm (client_do nm v x)"
  using client_reachable_step [OF assms(1), of "(k_env (ux_side x), v)"] assms(2)
  by (auto simp: client_step_def env_same client_enabled_def Let_def)

lemma client_reachable_ops [simp]:
  assumes "client_reachable nm x"
  shows "client_reachable nm (in_core client_pause x)" "client_reachable nm (in_core client_resume x)"
    "client_reachable nm (client_destroy x)"
  using client_reachable_call [OF assms, of CePause] client_reachable_call [OF assms, of CeResume]
    client_reachable_call [OF assms, of CeDestroy] by (simp_all add: client_do_def)

text \<open>What a deleted client leaves behind is dead and reports to nobody.\<close>

lemma client_delete_orphans:
  assumes "client_reachable nm x" and "p \<in> set (snd (client_delete x))"
  shows "destroyed (sys_pipe p) \<and> \<not> has_on_destroy (sys_pipe p)"
proof -
  let ?k = "ux_side (client_destroy x)"
  have i: "client_inv (client_destroy x)" "k_destroyed ?k"
    using client_reachable_inv [OF assms(1)] destroy_inv by blast+
  from assms(2) obtain i s where m: "(i, Piped s) \<in> set (k_conns ?k)"
    and p: "p = s\<lparr>sys_pipe := (sys_pipe s)\<lparr>has_on_destroy := False\<rparr>\<rparr>"
    by (auto simp: client_delete_def Let_def split: slot.splits if_splits)
  have "distinct (map fst (k_conns ?k))" using i(1) by (simp add: client_inv_def sound_def core_but_def core_wf_def)
  then have "kget ?k i = Some (Piped s)" using m by (simp add: kget_def)
  then have "slot_dead (Piped s)" using i by (simp add: client_inv_def quiet_def all_dead_def)
  then show ?thesis by (simp add: p slot_dead_def)
qed

lemma server_reachable_new:
  assumes "server_new cr rnd dht cfg = Inr s"
  shows "server_reachable (fst (server_start e cb s))"
proof -
  have "server_reachable s" using assms by (intro server_reachable_begin) (auto simp: server_begin_def)
  then show ?thesis
    using server_reachable_step [of s "(e, SvStart cb)"] by (simp add: server_step_def server_enabled_def)
qed

lemma client_reachable_new: "client_reachable nm (fst (client_connect cb (client_new cr e dht cfg)))"
proof -
  let ?x = "client_new cr e dht cfg"
  have "client_enabled ?x (k_env (ux_side ?x), CeConnect cb)"
    by (simp add: client_enabled_def client_new_def new_udp_proxy_def new_proxy_def kact_def Let_def split: option.split)
  from client_reachable_step [OF client_reachable_start [of nm] this] show ?thesis
    by (simp add: client_step_def client_do_def env_same)
qed

lemma endpoint_new_Inr:
  assumes "endpoint_new cr rnd opts = Inr x"
  shows "validate_opts opts = Inr opts" "ep_options x = opts" "ep_derived x = derive cr rnd opts"
    "\<not> ep_dht x" "\<not> ep_opened x" "ep_server x = None" "ep_client x = None" "ep_created x = 0"
    "ep_reapers x = []" "ep_gone x = []" "ep_orphans x = []"
proof -
  have v: "validate_opts opts = Inr y \<Longrightarrow> y = opts" for y by (auto simp: validate_opts_def split: if_splits)
  obtain y where y: "validate_opts opts = Inr y"
    using assms by (cases "validate_opts opts") (simp_all add: endpoint_new_def)
  show "validate_opts opts = Inr opts" "ep_options x = opts" "ep_derived x = derive cr rnd opts"
    "\<not> ep_dht x" "\<not> ep_opened x" "ep_server x = None" "ep_client x = None" "ep_created x = 0"
    "ep_reapers x = []" "ep_gone x = []" "ep_orphans x = []"
    using assms y v [OF y] by (auto simp: endpoint_new_def)
qed

lemma endpoint_inv_begin: "endpoint_begin x \<Longrightarrow> endpoint_inv nm x"
  using endpoint_new_Inr by (auto simp: endpoint_begin_def endpoint_inv_def)

lemma endpoint_inv_ready:
  assumes "endpoint_inv nm x"
  shows "endpoint_inv nm (fst (endpoint_ready cr rnd created se ce cb x))"
proof -
  let ?x = "x\<lparr>ep_dht := True, ep_created := Suc (ep_created x), ep_opened := True\<rparr>"
  have c: "client_reachable nm (fst (client_connect cb (client_new cr ce True (client_config_of ?x))))"
    by (rule client_reachable_new)
  have none: "\<not> ep_dht x \<Longrightarrow> ep_server x = None \<and> ep_client x = None"
    using assms by (cases "ep_server x"; cases "ep_client x") (simp_all add: endpoint_inv_def)
  have step: "endpoint_inv nm ?x" if "\<not> ep_dht x"
    using assms none [OF that] that by (simp add: endpoint_inv_def)
  show ?thesis
  proof (cases "ep_dht x \<or> \<not> created")
    case True
    then show ?thesis using assms by (auto simp: endpoint_ready_def)
  next
    case False
    then have f: "\<not> ep_dht x" "created" by simp_all
    show ?thesis
    proof (cases "op_server (ep_options x)")
      case False
      then show ?thesis
        using step [OF f(1)] none [OF f(1)] c f
        by (cases "client_connect cb (client_new cr ce True (client_config_of ?x))")
          (simp add: endpoint_ready_def Let_def endpoint_inv_def)
    next
      case True
      show ?thesis
      proof (cases "server_new cr rnd True (server_config ?x)")
        case (Inl msg)
        then show ?thesis using step [OF f(1)] True f by (simp add: endpoint_ready_def Let_def)
      next
        case (Inr s)
        then show ?thesis
          using step [OF f(1)] none [OF f(1)] True f server_reachable_new [OF Inr, of se cb]
          by (cases "server_start se cb s") (simp add: endpoint_ready_def Let_def endpoint_inv_def)
      qed
    qed
  qed
qed

lemma endpoint_inv_info [simp]: "endpoint_inv nm (endpoint_info x) = endpoint_inv nm x"
  by (simp add: endpoint_inv_def)

lemma endpoint_inv_close:
  assumes "endpoint_inv nm x"
  shows "endpoint_inv nm (endpoint_close e x)"
proof -
  have s: "server_reachable (server_destroy e' (server_destroy e s)) \<and> server_down (server_destroy e' (server_destroy e s))"
    if "ep_server x = Some s" for s e'
    using assms that by (simp add: endpoint_inv_def server_destroy_down)
  have c: "\<forall>p \<in> set (snd (client_delete (client_destroy c))). destroyed (sys_pipe p) \<and> \<not> has_on_destroy (sys_pipe p)"
    if "ep_client x = Some c" for c
    using assms that client_delete_orphans [of nm "client_destroy c"] by (simp add: endpoint_inv_def)
  show ?thesis
    using assms s c
    by (cases "ep_dht x"; cases "ep_server x"; cases "ep_client x")
      (simp_all add: endpoint_inv_def endpoint_close_def reap_dht_def Let_def ball_Un)
qed

lemma endpoint_inv_step:
  assumes "endpoint_inv nm x" and "endpoint_enabled x ev"
  shows "endpoint_inv nm (endpoint_step nm x ev)"
proof (cases ev)
  case (EpReady cr rnd created se ce cb)
  then show ?thesis using endpoint_inv_ready [OF assms(1)] by (simp add: endpoint_step_def)
next
  case (EpClose e)
  then show ?thesis using endpoint_inv_close [OF assms(1)] by (simp add: endpoint_step_def)
qed (use assms in \<open>auto simp: endpoint_step_def endpoint_inv_def endpoint_enabled_def endpoint_pause_def
    endpoint_resume_def intro: server_reachable_step client_reachable_step split: option.splits\<close>)

interpretation endpoint_machine: machine "endpoint_step nm" endpoint_enabled endpoint_begin "endpoint_inv nm"
  by unfold_locales (rule endpoint_inv_begin, assumption, rule endpoint_inv_step)

definition endpoint_reachable :: "(u32 \<Rightarrow> string) \<Rightarrow> endpoint \<Rightarrow> bool" where
  "endpoint_reachable nm = machine.reach (endpoint_step nm) endpoint_enabled endpoint_begin"

lemma endpoint_reachable_inv: "endpoint_reachable nm x \<Longrightarrow> endpoint_inv nm x"
  unfolding endpoint_reachable_def by (rule endpoint_machine.reach_inv)

section \<open>Owning the DHT\<close>

text \<open>
  C6: The endpoint owns the DHT and lends it. In every reachable state a server or a client
  exists only while the endpoint holds a DHT, never both, and the kind the options ask for;
  every DHT ever created is held or has been handed to exactly one reaper; and a second
  \<^verbatim>\<open>ready\<close> is refused and changes nothing.
\<close>

theorem endpoint_lends_dht:
  assumes "endpoint_reachable nm x"
  shows "(ep_server x \<noteq> None \<longrightarrow> ep_dht x \<and> ep_client x = None \<and> op_server (ep_options x)) \<and>
    (ep_client x \<noteq> None \<longrightarrow> ep_dht x \<and> ep_server x = None \<and> \<not> op_server (ep_options x)) \<and>
    length (ep_reapers x) + (if ep_dht x then 1 else 0) = ep_created x \<and>
    (ep_dht x \<longrightarrow> endpoint_ready cr rnd created se ce cb x = (x, Inr UV_EALREADY))"
  using endpoint_reachable_inv [OF assms]
  by (cases "ep_server x"; cases "ep_client x") (simp_all add: endpoint_inv_def endpoint_ready_def)


section \<open>Freeing a DHT\<close>

lemma reaper_drains:
  "rp_phase r = Draining \<Longrightarrow> rp_turns_left r = int (Suc n) \<Longrightarrow>
     (\<forall>j \<le> n. rp_phase ((reaper_step ^^ j) r) = Draining) \<and> rp_phase ((reaper_step ^^ Suc n) r) = Freed"
proof (induction n arbitrary: r)
  case 0
  then show ?case by (simp add: reaper_step_def reap_tick_def)
next
  case (Suc n)
  have s: "rp_phase (reaper_step r) = Draining" "rp_turns_left (reaper_step r) = int (Suc n)"
    using Suc.prems by (simp_all add: reaper_step_def reap_tick_def)
  have "rp_phase ((reaper_step ^^ j) r) = Draining" if "j \<le> Suc n" for j
    using Suc.IH [OF s] that Suc.prems(1) by (cases j) (simp_all add: funpow_swap1)
  then show ?case using Suc.IH [OF s] by (simp add: funpow_swap1)
qed

lemma freed_stays: "rp_phase r = Freed \<Longrightarrow> rp_phase ((reaper_step ^^ n) r) = Freed"
  by (induction n) (simp_all add: reaper_step_def)


section \<open>Options\<close>

text \<open>
  What the constructor refuses. It throws exactly for a client without a key, an empty
  key, a server and client in one, and a server without a host, in this order of precedence;
  otherwise the endpoint is built from the options as they are, with no DHT.
\<close>

theorem endpoint_options_errors:
  defines "no_key \<equiv> \<lambda>p. (op_client p \<and> op_key p = None) \<or> op_key p = Some []"
    and "both \<equiv> \<lambda>p. op_server p \<and> op_client p"
    and "no_host \<equiv> \<lambda>p. op_server p \<and> (op_host p = None \<or> op_host p = Some [])"
  shows "case endpoint_new cr rnd opts of
      Inl msg \<Rightarrow> (no_key opts \<or> both opts \<or> no_host opts) \<and>
        msg = (if no_key opts then ''Key is empty'' else if both opts then ''Can not set both server and client at once''
               else ''No host specified'')
    | Inr x \<Rightarrow> \<not> no_key opts \<and> \<not> both opts \<and> \<not> no_host opts \<and> ep_options x = opts \<and>
        ep_derived x = derive cr rnd opts \<and> \<not> ep_dht x"
  by (simp add: endpoint_new_def validate_opts_def no_key_def both_def no_host_def)

section \<open>Starting\<close>

lemma length_sha256: "crypto_law cr \<Longrightarrow> length (sha256 (c_sha256 cr) s) = 32"
  by (simp add: crypto_law_def sha256_def)

lemma from_hash_hex [simp]: "from_hex (hash_hex cr s) = Some (sha256 (c_sha256 cr) s)"
  by (simp add: hash_hex_def from_hex_to_hex)

lemma hash_hex_nonempty: "crypto_law cr \<Longrightarrow> hash_hex cr s \<noteq> []"
  using length_sha256 [of cr s] by (auto simp: hash_hex_def to_hex_def)

lemma derive_server:
  fixes cr :: hs_crypto
  assumes "op_server opts" and "length rnd = 32"
  defines "d \<equiv> derive cr rnd opts"
  shows "de_seed_hex d = (if de_key d = [] then [] else hash_hex cr (de_key d))"
    and "de_secure d \<Longrightarrow> de_key d \<noteq> []"
proof -
  have "random_hex32 rnd \<noteq> []" using assms(2) by (auto simp: random_hex32_def to_hex_def)
  then show "de_seed_hex d = (if de_key d = [] then [] else hash_hex cr (de_key d))"
    and "de_secure d \<Longrightarrow> de_key d \<noteq> []"
    using assms(1) by (auto simp: d_def derive_def Let_def)
qed

lemma server_new_total:
  assumes "length rnd = 32" and "cf_seed_hex cfg = [] \<or> (\<exists>b. from_hex (cf_seed_hex cfg) = Some b \<and> length b = 32)"
  shows "\<exists>s. server_new cr rnd dht cfg = Inr s"
proof (cases "cf_seed_hex cfg = []")
  case True
  then show ?thesis using assms(1) by (simp add: server_new_def random_hex32_def from_hex_to_hex)
next
  case False
  then show ?thesis using assms(2) by (auto simp: server_new_def)
qed

text \<open>
  Starting never throws. Whatever options the constructor accepted, \<^verbatim>\<open>ready\<close> returns a
  status: the seed it hands to the server is empty or 64 hexadecimal digits. When the DHT is
  created, the endpoint then has a server or a client, the one its options ask for; when it is
  not, \<^verbatim>\<open>ready\<close> reports \<^verbatim>\<open>UV_ENOMEM\<close> and may be called again.
\<close>

theorem endpoint_ready_total:
  assumes "crypto_law cr" and "length rnd = 32" and "length rnd' = 32"
    and "endpoint_new cr rnd opts = Inr x"
  shows "\<exists>y rc. endpoint_ready cr rnd' created se ce cb x = (y, Inr rc) \<and>
    (if created then ep_dht y \<and> (ep_server y \<noteq> None) = op_server opts \<and> (ep_client y \<noteq> None) = (\<not> op_server opts)
     else y = x \<and> rc = UV_ENOMEM)"
proof -
  note n = endpoint_new_Inr [OF assms(4)]
  let ?x = "x\<lparr>ep_dht := True, ep_created := Suc (ep_created x), ep_opened := True\<rparr>"
  show ?thesis
  proof (cases "created \<and> op_server opts")
    case True
    have "cf_seed_hex (server_config ?x) = [] \<or> (\<exists>b. from_hex (cf_seed_hex (server_config ?x)) = Some b \<and> length b = 32)"
      using derive_server(1) [of opts rnd cr] True assms(1,2) by (simp add: server_config_def Let_def n length_sha256)
    then obtain s where "server_new cr rnd' True (server_config ?x) = Inr s"
      using server_new_total [OF assms(3)] by blast
    then show ?thesis
      using True n by (cases "server_start se cb s") (simp add: endpoint_ready_def Let_def)
  next
    case False
    then show ?thesis
      using n by (cases "client_connect cb (client_new cr ce True (client_config_of ?x))")
        (auto simp: endpoint_ready_def Let_def)
  qed
qed

section \<open>Two ends of one connection string\<close>

lemma server_start_identity [simp]:
  "sv_pk (fst (server_start e cb s)) = sv_pk s" "sv_seed (fst (server_start e cb s)) = sv_seed s"
  "sv_config (fst (server_start e cb s)) = sv_config s"
  by (simp_all add: server_start_def Let_def server_publish_def)

lemma derive_client:
  assumes "\<not> op_server opts" and "op_key opts = Some url"
  shows "de_key (derive cr rnd opts) = pu_key (parse_url url)"
    and "de_secure (derive cr rnd opts) = (case pu_secure (parse_url url) of Some b \<Rightarrow> b | None \<Rightarrow> value_or (op_secure opts) False)"
  using assms by (simp_all add: derive_def Let_def value_or_def)

text \<open>The server an endpoint starts, and the connection string it then shows.\<close>

lemma started_server:
  assumes "crypto_law cr" and "length rnd = 32"
    and "endpoint_new cr rnd opts = Inr x" and "op_server opts"
    and "ep_server (fst (endpoint_ready cr rnd' True se ce cb x)) = Some s"
  defines "d \<equiv> derive cr rnd opts"
    and "y \<equiv> endpoint_info (fst (endpoint_ready cr rnd' True se ce cb x))"
  shows "sv_pk s = fst (c_keypair cr (sv_seed s))" and "length (sv_pk s) = 32"
    and "de_key d \<noteq> [] \<Longrightarrow> sv_seed s = sha256 (c_sha256 cr) (de_key d)"
    and "in_url (ep_info y) = make_url (de_secure d) (if de_secure d then de_key d else z32_encode (sv_pk s))"
proof -
  note n = endpoint_new_Inr [OF assms(3)]
  let ?x = "x\<lparr>ep_dht := True, ep_created := Suc (ep_created x), ep_opened := True\<rparr>"
  have cfg: "cf_seed_hex (server_config ?x) = de_seed_hex d" "cf_secure (server_config ?x) = de_secure d"
    by (simp_all add: server_config_def Let_def n d_def)
  obtain s0 where s0: "server_new cr rnd' True (server_config ?x) = Inr s0" and s: "s = fst (server_start se cb s0)"
    using assms(4,5) n by (auto simp: endpoint_ready_def Let_def split: sum.splits prod.splits)
  note f = server_new_Inr [OF s0]
  show pk: "sv_pk s = fst (c_keypair cr (sv_seed s))" by (simp add: s f(3))
  then show "length (sv_pk s) = 32" using assms(1) by (simp add: crypto_law_def)
  show "sv_seed s = sha256 (c_sha256 cr) (de_key d)" if "de_key d \<noteq> []"
  proof -
    have "cf_seed_hex (server_config ?x) = hash_hex cr (de_key d)"
      using derive_server(1) [OF assms(4,2), of cr] that by (simp add: cfg d_def)
    then show ?thesis using f(1) hash_hex_nonempty [OF assms(1)] by (simp add: s seeded_def)
  qed
  have "cf_secure (sv_config s) = de_secure d" by (simp add: s f(4) seeded_def cfg)
  moreover have "ep_derived (fst (endpoint_ready cr rnd' True se ce cb x)) = d"
    using n assms(4) s0 by (simp add: endpoint_ready_def Let_def d_def split: prod.split)
  moreover have "de_secure d \<Longrightarrow> de_key d \<noteq> []" using derive_server(2) [OF assms(4,2), of cr] by (simp add: d_def)
  ultimately show "in_url (ep_info y) = make_url (de_secure d) (if de_secure d then de_key d else z32_encode (sv_pk s))"
    using assms(5) by (simp add: y_def endpoint_info_def Let_def server_key_def split: if_splits)
qed

lemma parse_made_url [simp]:
  "parse_url (make_url secure key) = \<lparr>pu_key = key, pu_secure = if secure then Some True else None\<rparr>"
  using parse_url_prefixed [of "''s000''" key] parse_url_prefixed [of "''0000''" key] by (simp add: make_url_def)

text \<open>
  Two ends that share a connection string meet. A server is started from any options, a
  client from any options with the connection string the server shows as its key (and, for a
  public one, without forcing private mode). Then the client is usable and the key it asks the
  DHT for is the server's public key; and in private mode the client's own identity, derived
  from the string alone, is one that the server's firewall accepts.
\<close>

lemma endpoint_agreement:
  fixes ce' :: client_env
  assumes "crypto_law cr" and "length rnd = 32"
    and "endpoint_new cr rnd so = Inr x" and "op_server so"
    and "ep_server (fst (endpoint_ready cr rnd1 True se ce cb x)) = Some s"
    and "endpoint_new cr rnd2 co = Inr y" and "\<not> op_server co"
    and "op_key co = Some (in_url (ep_info (endpoint_info (fst (endpoint_ready cr rnd1 True se ce cb x)))))"
    and "op_secure co \<noteq> Some True \<or> de_secure (ep_derived x)"
  defines "k \<equiv> ux_side (client_new cr ce' True (client_config_of y))"
  shows "k_init_error k = 0 \<and> k_target k = sv_pk s \<and> ck_secure (k_config k) = de_secure (ep_derived x) \<and>
    (de_secure (ep_derived x) \<longrightarrow> firewall_cb (Some (k_keypair k)) s = 0)"
proof -
  let ?d = "derive cr rnd so"
  note st = started_server [OF assms(1-5)]
  note xs = endpoint_new_Inr [OF assms(3)] and ys = endpoint_new_Inr [OF assms(6)]
  have key: "op_key co = Some (make_url (de_secure ?d) (if de_secure ?d then de_key ?d else z32_encode (sv_pk s)))"
    using assms(8) st(4) by simp
  have cfg: "ck_secure (client_config_of y) = de_secure ?d"
    "ck_key (client_config_of y) = (if de_secure ?d then de_key ?d else z32_encode (sv_pk s))"
    using assms(9) derive_client [OF assms(7) key, of cr rnd2]
    by (auto simp: client_config_of_def Let_def ys(3) xs(3) value_or_def split: option.split)
  show ?thesis
  proof (cases "de_secure ?d")
    case True
    then have "de_key ?d \<noteq> []" by (rule derive_server(2) [OF assms(4,2)])
    from st(1) st(3) [OF this] have "sv_pk s = fst (c_keypair cr (sha256 (c_sha256 cr) (de_key ?d)))" by simp
    then show ?thesis
      using True cfg by (simp add: k_def client_new_def new_udp_proxy_def firewall_cb_def xs Let_def)
  next
    case False
    then show ?thesis
      using cfg st(2) by (simp add: k_def client_new_def new_udp_proxy_def z32_decode_encode xs Let_def)
  qed
qed

text \<open>What \<open>info()\<close> shows as the connection string, and what \<^verbatim>\<open>close\<close> leaves of it.\<close>

lemma info_url:
  "in_url (ep_info (endpoint_info x)) = make_url (de_secure (ep_derived x))
     (if de_key (ep_derived x) \<noteq> [] \<and> de_secure (ep_derived x) then de_key (ep_derived x)
      else case ep_server x of Some s \<Rightarrow> server_key s | None \<Rightarrow> de_key (ep_derived x))"
  by (cases "ep_server x"; cases "ep_client x") (simp_all add: endpoint_info_def Let_def)

lemma close_info:
  "ep_info (endpoint_close e x) = (ep_info (endpoint_info (x\<lparr>ep_server := map_option (server_destroy e) (ep_server x),
     ep_client := map_option client_destroy (ep_client x)\<rparr>)))\<lparr>in_state := ''destroyed''\<rparr>"
  "ep_server (endpoint_close e x) = None" "ep_derived (endpoint_close e x) = ep_derived x"
  by (cases "ep_dht x"; simp add: endpoint_close_def reap_dht_def Let_def)+

lemma server_destroy_key [simp]: "server_key (server_destroy e s) = server_key s"
  by (simp add: server_key_def server_destroy_def Let_def)

text \<open>
  After \<^verbatim>\<open>close\<close> the stored info still shows the connection string of a public server, but
  asking for it again loses it: the info is recomputed from the derived key alone, which for a
  public server is not the key it published (it is empty unless a key was given).
\<close>

theorem endpoint_info_after_close:
  assumes "ep_server x = Some s" and "\<not> de_secure (ep_derived x)" and "\<not> cf_secure (sv_config s)"
  shows "in_url (ep_info (endpoint_close e x)) = make_url False (z32_encode (sv_pk s)) \<and>
    in_url (ep_info (endpoint_info (endpoint_close e x))) = make_url False (de_key (ep_derived x))"
  using assms by (simp add: close_info info_url) (simp add: server_key_def)

section \<open>Witnesses\<close>

definition demo_options :: "bool \<Rightarrow> bool \<Rightarrow> options" where
  "demo_options srv sec = \<lparr>op_server = srv, op_client = False, op_port = Some 22, op_host = Some ''127.0.0.1'',
     op_key = None, op_secure = Some sec, op_udp = None, op_log_level = -1\<rparr>"

definition demo_endpoint :: "bool \<Rightarrow> bool \<Rightarrow> endpoint" where
  "demo_endpoint srv sec = (case endpoint_new demo_crypto (replicate 32 7) (demo_options srv sec) of Inr x \<Rightarrow> x)"

lemma demo_endpoint: "endpoint_new demo_crypto (replicate 32 7) (demo_options srv sec) = Inr (demo_endpoint srv sec)"
  by (simp add: demo_endpoint_def endpoint_new_def validate_opts_def demo_options_def)

abbreviation demo_ready :: "bool \<Rightarrow> endpoint" where
  "demo_ready sec \<equiv> fst (endpoint_ready demo_crypto (replicate 32 9) True demo_server_env demo_client_env True (demo_endpoint True sec))"

theorem endpoint_ready_total_witness:
  "ep_dht (demo_ready True) \<and> ep_server (demo_ready True) \<noteq> None \<and> ep_client (demo_ready True) = None"
  using endpoint_ready_total [OF demo_crypto_law _ _ demo_endpoint [of True True], of "replicate 32 9" True demo_server_env demo_client_env True]
  by (auto simp: demo_options_def)

lemma demo_ready_reachable: "endpoint_reachable nm (demo_ready sec)"
proof -
  let ?ev = "EpReady demo_crypto (replicate 32 9) True demo_server_env demo_client_env True"
  have "endpoint_reachable nm (endpoint_step nm (demo_endpoint True sec) ?ev)"
    unfolding endpoint_reachable_def
    by (rule endpoint_machine.reach_step, rule endpoint_machine.reach_start)
      (use demo_endpoint [of True sec] in \<open>auto simp: endpoint_begin_def endpoint_enabled_def\<close>)
  then show ?thesis by (simp add: endpoint_step_def)
qed

lemma demo_ready_server:
  obtains s where "ep_server (demo_ready sec) = Some s" "cf_secure (sv_config s) = sec"
    "ep_derived (demo_ready sec) = derive demo_crypto (replicate 32 7) (demo_options True sec)" "ep_dht (demo_ready sec)"
proof -
  note n = endpoint_new_Inr [OF demo_endpoint [of True sec]]
  let ?x = "demo_endpoint True sec"
  let ?x1 = "?x\<lparr>ep_dht := True, ep_created := Suc (ep_created ?x), ep_opened := True\<rparr>"
  have "cf_seed_hex (server_config ?x1) = [] \<or> (\<exists>b. from_hex (cf_seed_hex (server_config ?x1)) = Some b \<and> length b = 32)"
    using derive_server(1) [of "demo_options True sec" "replicate 32 7" demo_crypto]
    by (simp add: server_config_def Let_def n length_sha256 demo_crypto_law demo_options_def)
  from server_new_total [OF _ this] obtain s where s: "server_new demo_crypto (replicate 32 9) True (server_config ?x1) = Inr s"
    by (metis length_replicate)
  have "cf_secure (sv_config s) = sec"
    by (simp add: server_new_Inr(4) [OF s] seeded_def server_config_def Let_def n derive_def demo_options_def
        value_or_def parse_url_def kProtocol_def)
  then show thesis
    using s n that [of "fst (server_start demo_server_env True s)"]
    by (cases "server_start demo_server_env True s") (simp add: endpoint_ready_def Let_def demo_options_def,
        metis fst_conv server_start_identity(3))
qed

theorem endpoint_lends_dht_witness:
  "ep_server (demo_ready True) \<noteq> None \<and> ep_client (demo_ready True) = None \<and>
   length (ep_reapers (demo_ready True)) + 1 = ep_created (demo_ready True)"
proof -
  obtain s where "ep_server (demo_ready True) = Some s" "ep_dht (demo_ready True)"
    using demo_ready_server [of True] by blast
  then show ?thesis using endpoint_lends_dht [OF demo_ready_reachable [of dotted_quad True],
      of demo_crypto "[]" True demo_server_env demo_client_env True] by auto
qed



definition demo_peer :: "bool \<Rightarrow> options" where
  "demo_peer sec = (demo_options False False)\<lparr>op_client := True, op_secure := None,
     op_key := Some (in_url (ep_info (endpoint_info (demo_ready sec))))\<rparr>"

lemma demo_peer: "\<exists>y. endpoint_new demo_crypto [] (demo_peer sec) = Inr y"
proof -
  have "make_url b key \<noteq> []" for b key by (simp add: make_url_def)
  then show ?thesis by (simp add: endpoint_new_def validate_opts_def demo_peer_def demo_options_def info_url)
qed

lemma endpoint_agreement_witness:
  "\<exists>s y. ep_server (demo_ready True) = Some s \<and> endpoint_new demo_crypto [] (demo_peer True) = Inr y \<and>
     k_target (ux_side (client_new demo_crypto demo_client_env True (client_config_of y))) = sv_pk s"
proof -
  obtain s where s: "ep_server (demo_ready True) = Some s" using demo_ready_server [of True] by blast
  obtain y where y: "endpoint_new demo_crypto [] (demo_peer True) = Inr y" using demo_peer by blast
  show ?thesis
    using s y endpoint_agreement [OF demo_crypto_law _ demo_endpoint [of True True] _ s y, of demo_client_env]
    by (simp add: demo_options_def demo_peer_def)
qed

theorem endpoint_info_after_close_witness:
  "in_url (ep_info (endpoint_info (endpoint_close demo_server_env (demo_ready False)))) = ''hs://0000''"
proof -
  obtain s where s: "ep_server (demo_ready False) = Some s" "\<not> cf_secure (sv_config s)"
    and d: "ep_derived (demo_ready False) = derive demo_crypto (replicate 32 7) (demo_options True False)"
    using demo_ready_server [of False] by blast
  have "\<not> de_secure (ep_derived (demo_ready False))" "de_key (ep_derived (demo_ready False)) = []"
    by (simp_all add: d derive_def demo_options_def value_or_def parse_url_def kProtocol_def)
  then show ?thesis
    using endpoint_info_after_close [OF s(1) _ s(2), of demo_server_env] by (simp add: make_url_def)
qed

end
