(* ===== verification/Hs_Lookup.thy ===== *)
theory Hs_Lookup
  imports Hs_Endpoint_Props
begin

text \<open>
  Looking a record up (\<^verbatim>\<open>Holesail::lookup\<close> in \<^verbatim>\<open>src/holesail.cpp\<close>): one throwaway DHT, two
  queries at once, one for each reading of the key, and one callback. hyperdht's part is the
  order in which replies and completions of the two queries arrive.
\<close>

section \<open>Model\<close>

record lookup_result =
  lr_host :: string
  lr_port :: u16
  lr_protocol :: string
  lr_secure :: bool

record lookup_ctx =
  lc_secure :: bool
  lc_pending :: int
  lc_primary_record :: "hs_record option"
  lc_fallback_record :: "hs_record option"
  lc_primary_seq :: u64
  lc_fallback_seq :: u64
  lc_cb :: bool

text \<open>
  A lookup as the loop sees it: the context (\<open>None\<close> once it is deleted), the keys asked for
  (with \<open>True\<close> for the primary arm), the arms whose query is still to complete, the calls made
  to the callback, and the reapers scheduled.
\<close>

record lookup =
  lk_ctx :: "lookup_ctx option"
  lk_gets :: "(bool \<times> byte list) list"
  lk_open :: "bool list"
  lk_calls :: "(int \<times> lookup_result option) list"
  lk_reapers :: "dht_reaper list"

definition lookup_value_cb :: "bool \<Rightarrow> lookup_ctx \<Rightarrow> u64 \<times> byte list option \<Rightarrow> lookup_ctx" where
  "lookup_value_cb primary ctx reply =
     (case reply of (seq, value) \<Rightarrow>
        (case value of
           None \<Rightarrow> ctx
         | Some bytes \<Rightarrow>
             if bytes = [] then ctx
             else let rec = (if primary then lc_primary_record ctx else lc_fallback_record ctx);
                      record_seq = (if primary then lc_primary_seq ctx else lc_fallback_seq ctx)
                  in if rec \<noteq> None \<and> seq \<le> record_seq then ctx
                     else (case decode_record (string_of_bytes bytes) of
                             None \<Rightarrow> ctx
                           | Some d \<Rightarrow>
                               if primary then ctx\<lparr>lc_primary_record := Some d, lc_primary_seq := seq\<rparr>
                               else ctx\<lparr>lc_fallback_record := Some d, lc_fallback_seq := seq\<rparr>)))"

definition lookup_result_of :: "lookup_ctx \<Rightarrow> lookup_result option" where
  "lookup_result_of ctx =
     (let rec = (if lc_primary_record ctx \<noteq> None then lc_primary_record ctx else lc_fallback_record ctx)
      in case rec of
           None \<Rightarrow> None
         | Some d \<Rightarrow> Some \<lparr>lr_host = host d, lr_port = value_or (port d) 0,
                          lr_protocol = if value_or (udp d) False then ''udp'' else ''tcp'', lr_secure = lc_secure ctx\<rparr>)"

text \<open>The context dies at the end of \<^verbatim>\<open>lookup_finish\<close>; the DHT goes to a reaper first.\<close>

definition lookup_finish :: "lookup_ctx \<Rightarrow> lookup \<Rightarrow> lookup" where
  "lookup_finish ctx x =
     (let result = lookup_result_of ctx;
          x = x\<lparr>lk_reapers := lk_reapers x @ (case reap_dht True of None \<Rightarrow> [] | Some r \<Rightarrow> [r])\<rparr>;
          x = (if lc_cb ctx then x\<lparr>lk_calls := lk_calls x @ [(0, result)]\<rparr> else x)
      in x\<lparr>lk_ctx := None\<rparr>)"

definition lookup_done_cb :: "lookup_ctx \<Rightarrow> lookup \<Rightarrow> lookup" where
  "lookup_done_cb ctx x =
     (let ctx = ctx\<lparr>lc_pending := lc_pending ctx - 1\<rparr>;
          x = x\<lparr>lk_ctx := Some ctx\<rparr>
      in if 0 < lc_pending ctx then x else lookup_finish ctx x)"

text \<open>
  \<open>created\<close> is whether the throwaway DHT could be created, \<open>rc1\<close> and \<open>rc2\<close> what
  \<^verbatim>\<open>hyperdht_mutable_get\<close> returns for the two arms. Without a DHT there is no lookup.
\<close>

definition new_lookup_ctx :: "bool \<Rightarrow> bool \<Rightarrow> lookup_ctx" where
  "new_lookup_ctx secure cb =
     \<lparr>lc_secure = secure, lc_pending = 2, lc_primary_record = None, lc_fallback_record = None,
      lc_primary_seq = 0, lc_fallback_seq = 0, lc_cb = cb\<rparr>"

definition lookup_arg :: "hs_crypto \<Rightarrow> string \<Rightarrow> bool \<times> string" where
  "lookup_arg cr url =
     (let parsed = parse_url url; secure = value_or (pu_secure parsed) False
      in (secure, if secure then z32_encode (sha256 (c_sha256 cr) (pu_key parsed)) else pu_key parsed))"

definition lookup_start :: "hs_crypto \<Rightarrow> bool \<Rightarrow> int \<Rightarrow> int \<Rightarrow> string \<Rightarrow> bool \<Rightarrow> int \<times> lookup option" where
  "lookup_start cr created rc1 rc2 url cb =
     (case lookup_arg cr url of (secure, arg) \<Rightarrow>
        (case z32_decode arg of
           None \<Rightarrow> (UV_EINVAL, None)
         | Some raw \<Rightarrow>
             if length raw \<noteq> 32 then (UV_EINVAL, None)
             else if \<not> created then (UV_ENOMEM, None)
             else let keypair = fst (c_keypair cr raw);
                      primary_ok = rc1 = 0; fallback_ok = rc2 = 0;
                      ctx = new_lookup_ctx secure cb;
                      x = \<lparr>lk_ctx = Some ctx, lk_gets = [(True, keypair), (False, raw)],
                           lk_open = (if primary_ok then [True] else []) @ (if fallback_ok then [False] else []),
                           lk_calls = [], lk_reapers = []\<rparr>
                  in if \<not> primary_ok \<and> \<not> fallback_ok
                     then (UV_EIO, Some (x\<lparr>lk_ctx := None,
                             lk_reapers := (case reap_dht True of None \<Rightarrow> [] | Some r \<Rightarrow> [r])\<rparr>))
                     else if \<not> primary_ok \<or> \<not> fallback_ok then (0, Some (lookup_done_cb ctx x))
                     else (0, Some x)))"

text \<open>
  The callbacks of the two queries. They are handed a pointer into the context; in a state
  where it is deleted they would use freed memory, which \<open>None\<close> in \<open>lk_ctx\<close> makes visible.
\<close>

datatype lookup_event = LkValue bool "u64 \<times> byte list option" | LkDone bool

definition lookup_step :: "lookup \<Rightarrow> lookup_event \<Rightarrow> lookup" where
  "lookup_step x ev =
     (case ev of
        LkValue arm reply \<Rightarrow> x\<lparr>lk_ctx := map_option (\<lambda>ctx. lookup_value_cb arm ctx reply) (lk_ctx x)\<rparr>
      | LkDone arm \<Rightarrow>
          (let x = x\<lparr>lk_open := remove1 arm (lk_open x)\<rparr>
           in case lk_ctx x of None \<Rightarrow> x | Some ctx \<Rightarrow> lookup_done_cb ctx x))"

text \<open>A query answers until it completes, and completes once.\<close>

definition lookup_enabled :: "lookup \<Rightarrow> lookup_event \<Rightarrow> bool" where
  "lookup_enabled x ev = (case ev of LkValue arm _ \<Rightarrow> arm \<in> set (lk_open x) | LkDone arm \<Rightarrow> arm \<in> set (lk_open x))"

fun lookup_runs :: "lookup \<Rightarrow> lookup_event list \<Rightarrow> bool" where
  "lookup_runs x [] = True"
| "lookup_runs x (e # es) = (lookup_enabled x e \<and> lookup_runs (lookup_step x e) es)"

section \<open>The life of a lookup\<close>

text \<open>While a query is under way the context is there and counts the queries; after the last it is gone.\<close>

definition lookup_inv :: "bool \<Rightarrow> lookup \<Rightarrow> bool" where
  "lookup_inv cb x \<longleftrightarrow> distinct (lk_open x) \<and>
     (case lk_ctx x of
        None \<Rightarrow> lk_open x = [] \<and> length (lk_calls x) = (if cb then 1 else 0) \<and> length (lk_reapers x) = 1
      | Some c \<Rightarrow> lk_open x \<noteq> [] \<and> lc_pending c = int (length (lk_open x)) \<and> lc_cb c = cb \<and>
          lk_calls x = [] \<and> lk_reapers x = [])"

definition lookup_begin :: "bool \<Rightarrow> lookup \<Rightarrow> bool" where
  "lookup_begin cb x \<longleftrightarrow> (\<exists>cr created rc1 rc2 url. lookup_start cr created rc1 rc2 url cb = (0, Some x))"

lemma length_reap [simp]: "length (case reap_dht True of None \<Rightarrow> [] | Some r \<Rightarrow> [r]) = 1"
  by (simp add: reap_dht_def)

lemma value_cb_frame [simp]:
  "lc_pending (lookup_value_cb a c r) = lc_pending c" "lc_cb (lookup_value_cb a c r) = lc_cb c"
  "lc_secure (lookup_value_cb a c r) = lc_secure c"
  by (simp_all add: lookup_value_cb_def Let_def split: prod.split option.split)

lemma lookup_start_cases:
  assumes "lookup_start cr created rc1 rc2 url cb = (rc, r)"
  obtains (bad) "rc = UV_EINVAL" "r = None" "\<nexists>raw. z32_decode (snd (lookup_arg cr url)) = Some raw \<and> length raw = 32"
  | (no_dht) raw where "z32_decode (snd (lookup_arg cr url)) = Some raw" "length raw = 32" "\<not> created" "rc = UV_ENOMEM" "r = None"
  | (ran) raw x where "z32_decode (snd (lookup_arg cr url)) = Some raw" "length raw = 32" "created" "r = Some x"
      "x = \<lparr>lk_ctx = (if rc1 \<noteq> 0 \<and> rc2 \<noteq> 0 then None
              else Some ((new_lookup_ctx (fst (lookup_arg cr url)) cb)\<lparr>lc_pending := if rc1 = 0 \<and> rc2 = 0 then 2 else 1\<rparr>)),
            lk_gets = [(True, fst (c_keypair cr raw)), (False, raw)],
            lk_open = (if rc1 = 0 then [True] else []) @ (if rc2 = 0 then [False] else []), lk_calls = [],
            lk_reapers = (if rc1 \<noteq> 0 \<and> rc2 \<noteq> 0 then (case reap_dht True of None \<Rightarrow> [] | Some r \<Rightarrow> [r]) else [])\<rparr>"
      "rc = (if rc1 \<noteq> 0 \<and> rc2 \<noteq> 0 then UV_EIO else 0)"
proof -
  obtain secure arg where a: "lookup_arg cr url = (secure, arg)" by (cases "lookup_arg cr url")
  show ?thesis
  proof (cases "\<exists>raw. z32_decode arg = Some raw \<and> length raw = 32")
    case False
    then show ?thesis using assms bad by (auto simp: lookup_start_def a split: option.splits if_splits)
  next
    case True
    then obtain raw where raw: "z32_decode arg = Some raw" "length raw = 32" by blast
    show ?thesis
    proof (cases created)
      case False
      then show ?thesis using assms raw no_dht [of raw] by (simp add: lookup_start_def a)
    next
      case True
      have n: "(new_lookup_ctx secure cb)\<lparr>lc_pending := 2\<rparr> = new_lookup_ctx secure cb"
        by (simp add: new_lookup_ctx_def)
      have d: "lookup_done_cb (new_lookup_ctx secure cb) x = x\<lparr>lk_ctx := Some ((new_lookup_ctx secure cb)\<lparr>lc_pending := 1\<rparr>)\<rparr>" for x
        by (simp add: lookup_done_cb_def new_lookup_ctx_def Let_def)
      from assms raw True show ?thesis
        by (cases "rc1 = 0"; cases "rc2 = 0")
          (auto simp: lookup_start_def a d n intro: ran [of raw "the r"])
    qed
  qed
qed

lemma lookup_inv_begin: "lookup_begin cb x \<Longrightarrow> lookup_inv cb x"
  by (auto simp: lookup_begin_def lookup_inv_def new_lookup_ctx_def UV_EIO_def elim!: lookup_start_cases split: if_splits)

lemma lookup_inv_step:
  assumes "lookup_inv cb x" and "lookup_enabled x ev"
  shows "lookup_inv cb (lookup_step x ev)"
proof -
  obtain c where c: "lk_ctx x = Some c" "lc_pending c = int (length (lk_open x))" "lc_cb c = cb"
    and x: "distinct (lk_open x)" "lk_calls x = []" "lk_reapers x = []"
    using assms by (cases "lk_ctx x"; cases ev) (auto simp: lookup_inv_def lookup_enabled_def)
  show ?thesis
  proof (cases ev)
    case (LkValue arm reply)
    then show ?thesis using assms(1) c by (simp add: lookup_step_def lookup_inv_def)
  next
    case (LkDone arm)
    then have m: "arm \<in> set (lk_open x)" using assms(2) by (simp add: lookup_enabled_def)
    have "distinct (remove1 arm (lk_open x))" using x(1) by simp
    moreover from m have "length (lk_open x) = Suc (length (remove1 arm (lk_open x)))"
      by (simp add: length_remove1) (metis Suc_pred length_pos_if_in_set)
    ultimately show ?thesis
      using c x by (cases "remove1 arm (lk_open x)")
        (simp_all add: LkDone lookup_step_def lookup_done_cb_def lookup_finish_def lookup_inv_def Let_def)
  qed
qed

interpretation lookup_machine: machine lookup_step lookup_enabled "lookup_begin cb" "lookup_inv cb"
  by unfold_locales (rule lookup_inv_begin, assumption, rule lookup_inv_step)

lemma lookup_runs_reach:
  "machine.reach lookup_step lookup_enabled (lookup_begin cb) x \<Longrightarrow> lookup_runs x es \<Longrightarrow>
     machine.reach lookup_step lookup_enabled (lookup_begin cb) (foldl lookup_step x es)"
  by (induction es arbitrary: x) (auto intro: lookup_machine.reach_step)

lemma lookup_runs_inv:
  assumes "lookup_start cr created rc1 rc2 url cb = (0, Some x)" and "lookup_runs x es"
  shows "lookup_inv cb (foldl lookup_step x es)"
  using assms by (intro lookup_machine.reach_inv lookup_runs_reach lookup_machine.reach_start)
    (unfold lookup_begin_def, blast)

section \<open>What a lookup reports\<close>

definition lookup_best :: "bool \<Rightarrow> lookup_ctx \<Rightarrow> (u64 \<times> hs_record) option" where
  "lookup_best arm c =
     (if arm then map_option (\<lambda>d. (lc_primary_seq c, d)) (lc_primary_record c)
      else map_option (\<lambda>d. (lc_fallback_seq c, d)) (lc_fallback_record c))"

interpretation lookup_replies: newest "lookup_value_cb arm" "lookup_best arm" reply_record
  by unfold_locales
    (auto simp: lookup_value_cb_def lookup_best_def reply_record_def Let_def split: option.splits if_splits)

fun run_values :: "lookup_ctx \<Rightarrow> lookup_event list \<Rightarrow> lookup_ctx" where
  "run_values c [] = c"
| "run_values c (LkValue arm r # es) = run_values (lookup_value_cb arm c r) es"
| "run_values c (LkDone arm # es) = run_values c es"

fun replies_on :: "bool \<Rightarrow> lookup_event list \<Rightarrow> (u64 \<times> byte list option) list" where
  "replies_on arm [] = []"
| "replies_on arm (LkValue a r # es) = (if a = arm then [r] else []) @ replies_on arm es"
| "replies_on arm (LkDone a # es) = replies_on arm es"

lemma value_cb_pending:
  "lookup_value_cb a (c\<lparr>lc_pending := n\<rparr>) r = (lookup_value_cb a c r)\<lparr>lc_pending := n\<rparr>"
  by (simp add: lookup_value_cb_def Let_def split: prod.split option.split)

lemma run_values_pending: "run_values (c\<lparr>lc_pending := n\<rparr>) es = (run_values c es)\<lparr>lc_pending := n\<rparr>"
  by (induction c es rule: run_values.induct) (simp_all add: value_cb_pending)

lemma result_pending [simp]: "lookup_result_of (c\<lparr>lc_pending := n\<rparr>) = lookup_result_of c"
  by (simp add: lookup_result_of_def split: option.split)

lemma run_values_secure [simp]: "lc_secure (run_values c es) = lc_secure c"
  by (induction c es rule: run_values.induct) simp_all

text \<open>The two arms do not disturb each other.\<close>

definition keep_best :: "(u64 \<times> hs_record) option \<Rightarrow> u64 \<times> byte list option \<Rightarrow> (u64 \<times> hs_record) option" where
  "keep_best b r =
     (case reply_record (snd r) of
        None \<Rightarrow> b
      | Some d \<Rightarrow> if b \<noteq> None \<and> fst r \<le> fst (the b) then b else Some (fst r, d))"

lemma best_own: "lookup_best arm (lookup_value_cb arm c r) = keep_best (lookup_best arm c) r"
  by (cases r; cases "snd r"; cases "snd r = Some []"; cases "decode_record (string_of_bytes (the (snd r)))";
      cases arm; cases "lc_primary_record c"; cases "lc_fallback_record c")
    (simp_all add: lookup_best_def lookup_value_cb_def keep_best_def reply_record_def)

lemma best_other: "a \<noteq> arm \<Longrightarrow> lookup_best arm (lookup_value_cb a c r) = lookup_best arm c"
  by (cases arm) (simp_all add: lookup_best_def lookup_value_cb_def Let_def split: prod.split option.split)

lemma best_foldl: "lookup_best arm (foldl (lookup_value_cb arm) c rs) = foldl keep_best (lookup_best arm c) rs"
  by (induction rs arbitrary: c) (simp_all add: best_own)

lemma best_run_values:
  "lookup_best arm (run_values c es) = lookup_best arm (foldl (lookup_value_cb arm) c (replies_on arm es))"
  unfolding best_foldl
  by (induction c es rule: run_values.induct) (simp_all add: best_own best_other)

text \<open>The run of a lookup up to its end, seen from the context it started with.\<close>

lemma lookup_run_report:
  assumes "lookup_inv True x" and "lk_ctx x = Some c" and "lookup_runs x es" and "lk_open (foldl lookup_step x es) = []"
  shows "lk_calls (foldl lookup_step x es) = [(0, lookup_result_of (run_values c es))]"
  using assms
proof (induction es arbitrary: x c)
  case Nil
  then show ?case by (simp add: lookup_inv_def)
next
  case (Cons e es)
  let ?y = "lookup_step x e"
  have en: "lookup_enabled x e" and runs: "lookup_runs ?y es" using Cons.prems(3) by simp_all
  have inv: "lookup_inv True ?y" by (rule lookup_inv_step [OF Cons.prems(1) en])
  show ?case
  proof (cases "lk_ctx ?y")
    case None
    then have "lk_open ?y = []" using inv by (simp add: lookup_inv_def)
    with runs have "es = []" by (cases es; cases "hd es") (auto simp: lookup_enabled_def)
    with None Cons.prems(1,2) show ?thesis
      by (cases e) (auto simp: lookup_step_def lookup_done_cb_def lookup_finish_def lookup_inv_def Let_def split: if_splits)
  next
    case (Some d)
    have "lookup_result_of (run_values d es) = lookup_result_of (run_values c (e # es))"
      using Some Cons.prems(2)
      by (cases e) (auto simp: lookup_step_def lookup_done_cb_def lookup_finish_def run_values_pending Let_def split: if_splits)
    then show ?thesis using Cons.IH [OF inv Some runs] Cons.prems(4) by simp
  qed
qed

lemma value_or_simps [simp]: "value_or None d = d" "value_or (Some v) d = v"
  by (simp_all add: value_or_def)

section \<open>Properties\<close>

text \<open>
  How a lookup starts. A key that is not 32 bytes of z-base-32 (after hashing, for a
  private string) is refused before anything is created; without a DHT it fails; otherwise
  exactly two queries are started, for the key pair's public key and for the key itself. When
  neither can be started the lookup fails with the DHT already handed to a reaper. Whenever
  the result is an error the callback is not called and nothing is left under way.
\<close>

theorem lookup_start_errors:
  defines "arg \<equiv> \<lambda>cr url. z32_decode (snd (lookup_arg cr url))"
  shows "case lookup_start cr created rc1 rc2 url cb of (rc, r) \<Rightarrow>
    (case r of
       None \<Rightarrow> rc = (if map_option length (arg cr url) = Some 32 then UV_ENOMEM else UV_EINVAL)
     | Some x \<Rightarrow> created \<and> map_option length (arg cr url) = Some 32 \<and>
         lk_gets x = [(True, fst (c_keypair cr (the (arg cr url)))), (False, the (arg cr url))] \<and>
         rc = (if rc1 = 0 \<or> rc2 = 0 then 0 else UV_EIO) \<and> (lk_ctx x = None) = (rc \<noteq> 0) \<and>
         lk_calls x = [] \<and> length (lk_reapers x) = (if rc = 0 then 0 else 1) \<and>
         lk_open x = filter (\<lambda>a. if a then rc1 = 0 else rc2 = 0) [True, False])"
proof -
  obtain rc r where l: "lookup_start cr created rc1 rc2 url cb = (rc, r)"
    by (cases "lookup_start cr created rc1 rc2 url cb")
  show ?thesis
    unfolding l prod.case by (cases rule: lookup_start_cases [OF l]) (auto simp: arg_def UV_EIO_def)
qed

text \<open>
  C13: One answer, and no use of freed memory. However the replies and the completions of the
  two queries interleave, the context the callbacks point into exists as long as a query is
  under way; when the last one completes it is deleted, the DHT is handed to exactly one
  reaper, and the callback, if there is one, has been called exactly once.
\<close>

theorem lookup_answers_once:
  assumes "lookup_start cr created rc1 rc2 url cb = (0, Some x)" and "lookup_runs x es"
  defines "y \<equiv> foldl lookup_step x es"
  shows "(lk_ctx y \<noteq> None) = (lk_open y \<noteq> []) \<and>
    length (lk_calls y) = (if lk_open y = [] \<and> cb then 1 else 0) \<and>
    length (lk_reapers y) = (if lk_open y = [] then 1 else 0)"
  using lookup_runs_inv [OF assms(1,2)] by (auto simp: lookup_inv_def y_def split: option.splits)

text \<open>
  C14: What it answers. When both queries have completed, the callback was given no record if
  no reply of either query decodes; otherwise a record of the newest kind (no received record
  of that query has a higher sequence number) of the primary query if that got any, and of the
  fallback query only if not. The port defaults to 0, the protocol to TCP, and the privacy is
  what the connection string says.
\<close>

theorem lookup_answer:
  assumes "lookup_start cr created rc1 rc2 url True = (0, Some x)" and "lookup_runs x es"
    and "lk_open (foldl lookup_step x es) = []"
  defines "found \<equiv> \<lambda>arm. records_of (replies_on arm es)"
    and "secure \<equiv> fst (lookup_arg cr url)"
  shows "\<exists>result. lk_calls (foldl lookup_step x es) = [(0, result)] \<and>
    (case result of
       None \<Rightarrow> found True = [] \<and> found False = []
     | Some r \<Rightarrow> \<exists>(q, d) \<in> set (found (found True \<noteq> [])).
         (\<forall>(q', d') \<in> set (found (found True \<noteq> [])). q' \<le> q) \<and>
         r = \<lparr>lr_host = host d, lr_port = value_or (port d) 0,
              lr_protocol = if value_or (udp d) False then ''udp'' else ''tcp'', lr_secure = secure\<rparr>)"
proof -
  obtain c where c: "lk_ctx x = Some c" "lc_secure c = secure" "\<And>arm. lookup_best arm c = None"
    using assms(1) by (cases rule: lookup_start_cases)
      (auto simp: secure_def new_lookup_ctx_def lookup_best_def UV_EIO_def UV_EINVAL_def UV_ENOMEM_def split: if_splits)
  let ?d = "run_values c es"
  have inv: "lookup_inv True x" using lookup_runs_inv [OF assms(1), of "[]"] by simp
  have p: "lookup_replies.parsed rs = records_of rs" for rs
    by (simp add: lookup_replies.parsed_def records_of_def)
  have best: "case lookup_best arm ?d of None \<Rightarrow> found arm = []
      | Some (q, r) \<Rightarrow> (q, r) \<in> set (found arm) \<and> (\<forall>(q', r') \<in> set (found arm). q' \<le> q)" for arm
    using lookup_replies.keep_run [OF c(3) [of arm], of "replies_on arm es"] unfolding p best_run_values found_def .
  have "lk_calls (foldl lookup_step x es) = [(0, lookup_result_of ?d)]"
    by (rule lookup_run_report [OF inv c(1) assms(2,3)])
  moreover let ?lr = "\<lambda>d. \<lparr>lr_host = host d, lr_port = value_or (port d) 0,
      lr_protocol = if value_or (udp d) False then ''udp'' else ''tcp'', lr_secure = secure\<rparr>"
  let ?b = "lookup_best (found True \<noteq> []) ?d"
  have prim: "(lc_primary_record ?d \<noteq> None) = (found True \<noteq> [])"
    using best [of True] by (cases "lc_primary_record ?d") (auto simp: lookup_best_def)
  then have "lookup_result_of ?d = map_option (\<lambda>(q, d). ?lr d) ?b"
    using c(2) by (cases "lc_primary_record ?d"; cases "lc_fallback_record ?d") (simp_all add: lookup_result_of_def lookup_best_def)
  moreover have "found True = []" if "?b = None"
    using that prim by (cases "lc_primary_record ?d") (auto simp: lookup_best_def split: if_splits)
  ultimately show ?thesis
    using best [of "found True \<noteq> []"] by (cases ?b) (fastforce split: if_splits)+
qed

text \<open>
  C29: A lookup of the connection string a server shows asks for the key under which that
  server publishes: its public key is the primary query's key for a private server and the
  fallback query's for a public one.
\<close>

theorem lookup_finds_server:
  assumes "crypto_law cr" and "length rnd = 32"
    and "endpoint_new cr rnd so = Inr x" and "op_server so"
    and "ep_server (fst (endpoint_ready cr rnd1 True se ce cb x)) = Some s"
  defines "url \<equiv> in_url (ep_info (endpoint_info (fst (endpoint_ready cr rnd1 True se ce cb x))))"
  shows "\<exists>rc l. lookup_start cr True rc1 rc2 url cb' = (rc, Some l) \<and>
    (de_secure (ep_derived x), sv_pk s) \<in> set (lk_gets l) \<and> (rc < 0) = (rc1 \<noteq> 0 \<and> rc2 \<noteq> 0)"
proof -
  note st = started_server [OF assms(1-5)] and n = endpoint_new_Inr [OF assms(3)]
  let ?d = "derive cr rnd so"
  have a: "lookup_arg cr url = (de_secure ?d,
      if de_secure ?d then z32_encode (sha256 (c_sha256 cr) (de_key ?d)) else z32_encode (sv_pk s))"
    unfolding url_def st(4) by (simp add: lookup_arg_def)
  have dec: "z32_decode (snd (lookup_arg cr url)) = Some (if de_secure ?d then sv_seed s else sv_pk s)"
    using st(3) derive_server(2) [OF assms(4,2)] by (simp add: a z32_decode_encode)
  have len: "length (if de_secure ?d then sv_seed s else sv_pk s) = 32"
    using st(2,3) derive_server(2) [OF assms(4,2), of cr] length_sha256 [OF assms(1)] by simp
  obtain rc r where l: "lookup_start cr True rc1 rc2 url cb' = (rc, r)" by fastforce
  show ?thesis
    unfolding l by (cases "de_secure ?d"; cases rule: lookup_start_cases [OF l])
      (use dec len st(1) in \<open>auto simp: n(3) UV_EIO_def\<close>)
qed

section \<open>Witnesses\<close>

definition demo_url :: string where "demo_url = make_url False (z32_encode (replicate 32 5))"

definition demo_reply :: "byte list" where "demo_reply = bytes_of_string (encode_record ''10.0.0.1'' None 22)"

definition demo_events :: "lookup_event list" where
  "demo_events = [LkValue False (3, Some demo_reply), LkDone True, LkDone False]"

lemma demo_lookup_arg: "z32_decode (snd (lookup_arg demo_crypto demo_url)) = Some (replicate 32 5)" "\<not> fst (lookup_arg demo_crypto demo_url)"
  by (simp_all add: demo_url_def lookup_arg_def z32_decode_encode)

definition demo_lookup :: lookup where
  "demo_lookup = the (snd (lookup_start demo_crypto True 0 0 demo_url True))"

lemma demo_lookup: "lookup_start demo_crypto True 0 0 demo_url True = (0, Some demo_lookup)"
  "lk_open demo_lookup = [True, False]" "lk_ctx demo_lookup \<noteq> None"
proof -
  obtain rc r where l: "lookup_start demo_crypto True 0 0 demo_url True = (rc, r)" by fastforce
  then show "lookup_start demo_crypto True 0 0 demo_url True = (0, Some demo_lookup)"
    "lk_open demo_lookup = [True, False]" "lk_ctx demo_lookup \<noteq> None"
    by (cases rule: lookup_start_cases; simp add: demo_lookup_def demo_lookup_arg)+
qed

lemma demo_reply_record: "reply_record (Some demo_reply) = Some \<lparr>host = ''10.0.0.1'', udp = None, port = Some 22\<rparr>"
proof -
  have "encode_record ''10.0.0.1'' None 22 \<noteq> []" by (rule encode_record_nonempty)
  then show ?thesis
    using decode_encode_record [of "''10.0.0.1''" None 22 "[]"]
    by (simp add: reply_record_def demo_reply_def string_of_bytes_of_string) (simp add: bytes_of_string_def)
qed

lemma demo_runs: "lookup_runs demo_lookup demo_events" and demo_open: "lk_open (foldl lookup_step demo_lookup demo_events) = []"
  using demo_lookup(2,3) by (auto simp: demo_events_def lookup_enabled_def lookup_step_def lookup_done_cb_def
      lookup_finish_def Let_def)

theorem lookup_answers_once_witness: "length (lk_calls (foldl lookup_step demo_lookup demo_events)) = 1"
  using lookup_answers_once [OF demo_lookup(1) demo_runs] demo_open by simp

theorem lookup_answer_witness:
  "lk_calls (foldl lookup_step demo_lookup demo_events) =
     [(0, Some \<lparr>lr_host = ''10.0.0.1'', lr_port = 22, lr_protocol = ''tcp'', lr_secure = False\<rparr>)]"
proof -
  have "records_of (replies_on True demo_events) = []"
    "records_of (replies_on False demo_events) = [(3, \<lparr>host = ''10.0.0.1'', udp = None, port = Some 22\<rparr>)]"
    by (simp_all add: demo_events_def records_of_def demo_reply_record)
  then show ?thesis
    using lookup_answer [OF demo_lookup(1) demo_runs demo_open] by (auto simp: demo_lookup_arg split: option.splits)
qed

theorem lookup_finds_server_witness:
  "\<exists>s rc l. ep_server (demo_ready True) = Some s \<and>
     lookup_start demo_crypto True 0 0 (in_url (ep_info (endpoint_info (demo_ready True)))) True = (rc, Some l) \<and>
     sv_pk s \<in> snd ` set (lk_gets l)"
proof -
  obtain s where s: "ep_server (demo_ready True) = Some s" using demo_ready_server [of True] by blast
  show ?thesis
    using s lookup_finds_server [OF demo_crypto_law _ demo_endpoint [of True True] _ s, of 0 0 True]
    by (force simp: demo_options_def)
qed

end
