(* ===== verification/Hs_Cli.thy ===== *)
theory Hs_Cli
  imports Hs_Logger Hs_Lookup
begin

text \<open>
  The command line (\<^verbatim>\<open>src/cli.cpp\<close>): the minimist-like reader of the arguments, their
  validation, the texts printed, the choice of what to run, and the life of a running endpoint
  with its two signal handlers. Strings are byte strings; the QR code generator is an argument.
  The C locale is the program's, so \<^verbatim>\<open>toupper\<close> changes ASCII letters only.
\<close>

section \<open>Arguments\<close>

record args =
  ar_values :: "string \<rightharpoonup> string"
  ar_flags :: "string set"
  ar_rest :: "string list"

definition no_args :: args where
  "no_args = \<lparr>ar_values = Map.empty, ar_flags = {}, ar_rest = []\<rparr>"

definition arg_has :: "args \<Rightarrow> string \<Rightarrow> bool" where
  "arg_has a name \<longleftrightarrow> ar_values a name \<noteq> None \<or> name \<in> ar_flags a"

definition arg_str :: "args \<Rightarrow> string \<Rightarrow> string option" where
  "arg_str a name = ar_values a name"

text \<open>
  \<^verbatim>\<open>std::from_chars\<close> into a 64-bit \<^verbatim>\<open>long\<close>, required to consume the whole text: an optional
  minus sign, decimal digits, and no overflow.
\<close>

definition from_chars_long :: "string \<Rightarrow> int option" where
  "from_chars_long s =
     (let neg = (s \<noteq> [] \<and> hd s = CHR ''-''); ds = (if neg then tl s else s);
          v = (if neg then - int (dec_value ds) else int (dec_value ds))
      in if ds = [] \<or> \<not> list_all is_digit ds then None
         else if v < - (2 ^ 63) \<or> 2 ^ 63 \<le> v then None else Some v)"

definition arg_num :: "args \<Rightarrow> string \<Rightarrow> int option" where
  "arg_num a name =
     (case arg_str a name of None \<Rightarrow> None | Some v \<Rightarrow> if v = [] then None else from_chars_long v)"

definition arg_boolean :: "args \<Rightarrow> string \<Rightarrow> bool" where
  "arg_boolean a name \<longleftrightarrow> name \<in> ar_flags a"

definition set_value :: "string \<Rightarrow> string \<Rightarrow> args \<Rightarrow> args" where
  "set_value name v a = a\<lparr>ar_flags := ar_flags a - {name}, ar_values := (ar_values a)(name \<mapsto> v)\<rparr>"

definition set_flag :: "string \<Rightarrow> args \<Rightarrow> args" where
  "set_flag name a = a\<lparr>ar_values := (ar_values a)(name := None), ar_flags := insert name (ar_flags a)\<rparr>"

text \<open>The option name a token introduces; \<open>None\<close> for a positional.\<close>

definition option_name :: "string \<Rightarrow> string option" where
  "option_name tok =
     (if 2 < length tok \<and> take 2 tok = ''--'' then Some (drop 2 tok)
      else if 1 < length tok \<and> tok ! 0 = CHR ''-'' \<and> tok ! 1 \<noteq> CHR ''-'' \<and> \<not> is_digit (tok ! 1)
      then Some (drop 1 tok)
      else None)"

fun parse_tokens :: "args \<Rightarrow> string list \<Rightarrow> args" where
  "parse_tokens a [] = a"
| "parse_tokens a (tok # toks) =
     (case option_name tok of
        None \<Rightarrow> parse_tokens (a\<lparr>ar_rest := ar_rest a @ [tok]\<rparr>) toks
      | Some name \<Rightarrow>
          (case sv_find name CHR ''='' of
             Some eq \<Rightarrow> parse_tokens (set_value (take eq name) (drop (eq + 1) name) a) toks
           | None \<Rightarrow>
               (case toks of
                  next # toks' \<Rightarrow>
                    if take 2 next \<noteq> ''--'' then parse_tokens (set_value name next a) toks'
                    else parse_tokens (set_flag name a) toks
                | [] \<Rightarrow> set_flag name a)))"

text \<open>\<open>argv\<close> without the program's name.\<close>

definition parse_argv :: "string list \<Rightarrow> args" where
  "parse_argv toks = parse_tokens no_args toks"

section \<open>Reading the options\<close>

definition kVersion :: string where "kVersion = ''0.2.1''"
definition kDefaultHost :: string where "kDefaultHost = ''127.0.0.1''"
definition kMaxPort :: int where "kMaxPort = 65535"

definition kBadPort :: string where
  "kBadPort = ''Error: Given port is not a valid number. Run holesail --help to see examples''"

definition toupper :: "char \<Rightarrow> char" where
  "toupper c = (if chr_code CHR ''a'' \<le> chr_code c \<and> chr_code c \<le> chr_code CHR ''z''
                then char_of (chr_code c - 32) else c)"

definition upper :: "string \<Rightarrow> string" where
  "upper s = map toupper s"

definition capitalise :: "string \<Rightarrow> string" where
  "capitalise s = (case s of [] \<Rightarrow> [] | c # cs \<Rightarrow> toupper c # cs)"

definition truthy :: "args \<Rightarrow> string \<Rightarrow> bool" where
  "truthy a name =
     (if arg_boolean a name then True
      else case arg_str a name of
             None \<Rightarrow> False
           | Some v \<Rightarrow> (case arg_num a name of Some n \<Rightarrow> n \<noteq> 0 | None \<Rightarrow> v \<noteq> []))"

definition valid_port :: "args \<Rightarrow> string \<Rightarrow> bool" where
  "valid_port a name = (case arg_num a name of None \<Rightarrow> False | Some n \<Rightarrow> 0 \<le> n \<and> n \<le> kMaxPort)"

definition log_level_of :: "args \<Rightarrow> int" where
  "log_level_of a =
     (if \<not> arg_has a ''log'' then -1
      else if arg_boolean a ''log'' then 1
      else case arg_num a ''log'' of None \<Rightarrow> 1 | Some level \<Rightarrow> clamp level 0 3)"

definition common_options :: "args \<Rightarrow> options" where
  "common_options a =
     \<lparr>op_server = False, op_client = False, op_port = None, op_host = None, op_key = None, op_secure = None,
      op_udp = (if arg_has a ''udp'' then Some (truthy a ''udp'') else None), op_log_level = log_level_of a\<rparr>"

definition server_options :: "args \<Rightarrow> options" where
  "server_options a =
     (common_options a)
       \<lparr>op_server := True,
        op_port := Some (word_of_int (value_or (arg_num a ''live'') 0)),
        op_host := Some (case arg_str a ''host'' of Some h \<Rightarrow> if h \<noteq> [] then h else kDefaultHost | None \<Rightarrow> kDefaultHost),
        op_secure := Some (if arg_has a ''public'' then \<not> arg_boolean a ''public'' else True),
        op_key := arg_str a ''key''\<rparr>"

definition client_options :: "args \<Rightarrow> options" where
  "client_options a =
     (let p = (common_options a)\<lparr>op_client := True\<rparr>;
          p = (if valid_port a ''port'' then p\<lparr>op_port := Some (word_of_int (the (arg_num a ''port'')))\<rparr> else p);
          p = (case arg_str a ''host'' of Some h \<Rightarrow> if h \<noteq> [] then p\<lparr>op_host := Some h\<rparr> else p | None \<Rightarrow> p);
          p = p\<lparr>op_key := Some (value_or (arg_str a ''connect'') (if ar_rest a = [] then [] else hd (ar_rest a)))\<rparr>
      in if arg_has a ''public'' then p\<lparr>op_secure := Some (\<not> arg_boolean a ''public'')\<rparr> else p)"

section \<open>Validation\<close>

record validation =
  va_ok :: bool
  va_message :: string
  va_exit_code :: int

definition eol :: string where "eol = [CHR 0x0A]"

definition host_warning :: string where
  "host_warning = yellow ''Warning: localhost or 0.0.0.0 may not work properly within netcat with UDP.''"

text \<open>\<open>refuse\<close> is the lambda \<^verbatim>\<open>with\<close>: an error printed after a warning keeps the warning's line.\<close>

definition refuse :: "string \<Rightarrow> string \<Rightarrow> int \<Rightarrow> validation" where
  "refuse printed line code =
     \<lparr>va_ok = False, va_message = (if printed = [] then line else printed @ eol @ line), va_exit_code = code\<rparr>"

definition validate_args :: "args \<Rightarrow> validation" where
  "validate_args a =
     (if arg_boolean a ''key'' then refuse [] (red ''Error: Key can not be empty'') 0
      else
        let printed = (if truthy a ''udp''
                   then (case arg_str a ''host'' of
                           Some h \<Rightarrow> if h = ''localhost'' \<or> h = ''0.0.0.0'' then host_warning else []
                         | None \<Rightarrow> [])
                   else [])
        in if (case arg_str a ''key'' of
                 Some key \<Rightarrow> key \<noteq> [] \<and> length key < 32 \<and> \<not> truthy a ''force''
               | None \<Rightarrow> False)
           then refuse printed (red ''Error: A key should have a minimum length of 32 chars for security purposes. If you still wish to proceed use --force'') 2
           else if truthy a ''connect'' \<and> ar_rest a \<noteq> []
           then refuse printed (red ''Error: Are you trying to use two connection strings at once? Get some holesail --help'') 2
           else if truthy a ''live'' \<and> \<not> valid_port a ''live'' then refuse printed (red kBadPort) 2
           else if truthy a ''port''
           then (if \<not> valid_port a ''port'' then refuse printed (red kBadPort) 2
                 else \<lparr>va_ok = True, va_message = printed, va_exit_code = 0\<rparr>)
           else if arg_str a ''port'' = Some [] then refuse printed (red kBadPort) 2
           else \<lparr>va_ok = True, va_message = printed, va_exit_code = 0\<rparr>)"

section \<open>Help\<close>

definition indent :: string where "indent = ''  ''"

text \<open>One line of the general help: indentation, the option in yellow, and its description.\<close>

definition help_line :: "string \<Rightarrow> string \<Rightarrow> string" where
  "help_line opt descr = indent @ yellow opt @ descr @ eol"

definition help_general :: string where
  "help_general =
     eol @ eol @ bold ''Usage:'' @ eol @ help_line ''holesail [command] [options]'' [] @ eol @ indent @ eol @
     bold ''Commands:'' @ eol @
     help_line ''--help <command>|-h'' ''     Display help information.'' @
     help_line ''--version|-v'' ''            Display version information.'' @
     help_line ''--live <port>'' ''           Start a Holesail server on <port>.'' @
     help_line ''--connect <key>'' ''         Connect to a Holesail server.'' @
     help_line ''--lookup <key>'' ''          Lookup details for a Holesail connection key.'' @ eol @
     bold ''Options:'' @ eol @
     help_line ''--host <host>'' ''           Specify the host address (default: 127.0.0.1).'' @
     help_line ''--udp'' ''                   Use UDP instead of TCP.'' @
     help_line ''--public'' ''                Start in public mode for sharing.'' @
     help_line ''--port <port>'' ''           Use a custom port (default: 8989).'' @
     help_line ''--log'' ''                   Enable the debug log.'' @ eol @
     bold ''Examples:'' @ eol @
     help_line ''holesail --live 3000'' ''      Start a server on port 3000.'' @
     help_line ''holesail <key>'' ''            Connect to a server.'' @ eol @
     bold ''Notes:'' @ eol @
     ''  Treat private keys like SSH keys. Public keys are shareable, but secure sensitive data with passwords or connectors.'' @ eol"

definition help_live :: string where
  "help_live =
     eol @ indent @ cyan (eol @ ''Reverse proxy a specific port'') @ ''    '' @ eol @ indent @
     bold ''Usage:'' @ eol @ indent @
     yellow ''holesail --live <port> [options]'' @ eol @ indent @
     bold ''Options:'' @ eol @ indent @
     yellow ''--host <address>'' @ ''   Use a custom host.'' @ eol @ indent @
     yellow ''--udp'' @ ''              Use UDP protocol.'' @ eol @ indent @
     yellow ''--public'' @ ''           Uses a different key to connect than the one used to start the server.'' @ eol @ indent @
     yellow ''--key <key>'' @ ''        Set a custom key.'' @ eol @ ''    ''"

definition help_connect :: string where
  "help_connect =
     eol @ indent @ cyan (eol @ ''Connect to a Holesail server'') @ ''    '' @ eol @ indent @
     bold ''Usage:'' @ eol @ indent @
     yellow ''holesail --connect <key> [options]'' @ eol @ indent @
     yellow ''holesail <key> [options]'' @ eol @ indent @ eol @ indent @
     bold ''Options:'' @ eol @ indent @
     yellow ''--host <address>'' @ ''   Use a custom host.'' @ eol @ indent @
     yellow ''--udp'' @ ''              Use UDP protocol.'' @ eol @ indent @
     yellow ''--port <port>'' @ ''      Use a custom port.'' @ eol @ indent @
     yellow ''--public'' @ ''           Force the connection to use public mode (otherwise autodetected).'' @ eol @ ''    ''"

definition render_help :: "string \<Rightarrow> string" where
  "render_help topic =
     (let header = cyan ''Holesail CLI - Instantly share and connect to servers''
      in if topic = ''live'' then header @ help_live
         else if topic = ''connect'' then header @ help_connect
         else header @ help_general)"

section \<open>Reports\<close>

text \<open>
  The block characters, in UTF-8. \<open>qr\<close> is the vendored generator: the size of the symbol and its
  modules by column and row (it answers \<open>False\<close> outside the symbol), or nothing when the text
  is too long.
\<close>

definition utf8 :: "nat list \<Rightarrow> string" where
  "utf8 bs = map char_of bs"

definition lower_half :: string where "lower_half = utf8 [0xE2, 0x96, 0x84]"
definition upper_half :: string where "upper_half = utf8 [0xE2, 0x96, 0x80]"
definition full_block :: string where "full_block = utf8 [0xE2, 0x96, 0x88]"

type_synonym qr_code = "nat \<times> (nat \<Rightarrow> nat \<Rightarrow> bool)"

definition qr_cell :: "bool \<Rightarrow> bool \<Rightarrow> string" where
  "qr_cell up low =
     (if up then (if low then '' '' else lower_half) else (if low then upper_half else full_block))"

definition qr_row :: "qr_code \<Rightarrow> nat \<Rightarrow> string" where
  "qr_row qr y =
     full_block @ concat (map (\<lambda>x. qr_cell (snd qr x y) (snd qr x (y + 1))) [0..<fst qr]) @ full_block @ eol"

text \<open>The loop over \<open>y\<close>, by two.\<close>

function qr_rows :: "qr_code \<Rightarrow> nat \<Rightarrow> string" where
  "qr_rows qr y = (if y < fst qr then qr_row qr y @ qr_rows qr (y + 2) else [])"
  by pat_completeness auto
termination by (relation "measure (\<lambda>(qr, y). fst qr - y)") auto

declare qr_rows.simps [simp del]

definition render_qr :: "(string \<Rightarrow> qr_code option) \<Rightarrow> string \<Rightarrow> string" where
  "render_qr encode url =
     (case encode url of
        None \<Rightarrow> ''QR code unavailable: connection string is too long.'' @ eol
      | Some qr \<Rightarrow> concat (replicate (fst qr + 2) lower_half) @ eol @ qr_rows qr 0)"

definition sailboat :: string where "sailboat = utf8 [0xE2, 0x9B, 0xB5, 0xEF, 0xB8, 0x8F]"

definition render_started :: "(string \<Rightarrow> qr_code option) \<Rightarrow> info \<Rightarrow> string" where
  "render_started encode i =
     (let server = in_type i = ''server'';
          whr = in_host i @ '':'' @ to_dec (unat (in_port i));
          out = cyan (underline (bold (''Holesail '' @ upper (in_protocol i) @ '' '' @ capitalise (in_type i) @ '' Started'')));
          out = out @ '' '' @ sailboat @ eol;
          out = out @ magenta ''Connection Mode: '';
          out = out @ (if in_secure i then green ''Private Connection String'' else yellow ''Public Connection String'');
          out = out @ eol;
          out = out @ (if server then magenta (''Holesail is now listening on '' @ whr)
                       else magenta (''Access application on http://'' @ whr @ ''/''));
          out = out @ eol;
          out = out @ (if server then ''Connect with key: '' else ''Connected to key: '');
          out = out @ dim (in_url i);
          out = out @ eol;
          out = out @ (if in_secure i
            then dim ''   NOTE: TREAT PRIVATE CONNECTION STRINGS HOW YOU WOULD TREAT SSH KEY, DO NOT SHARE IT WITH ANYONE YOU DO NOT TRUST    ''
            else dim (''   NOTICE: TREAT PUBLIC STRING LIKE YOU WOULD TREAT A DOMAIN NAME ON PUBLIC SERVER, IF THERE IS ANYTHING PRIVATE ON IT, IT IS YOUR RESPONSIBILITY TO PASSWORD PROTECT IT OR USE PRIVATE MODE   '' @ eol))
      in if server then out @ eol @ render_qr encode (in_url i) else out)"

definition magnifier :: string where "magnifier = utf8 [0xF0, 0x9F, 0x94, 0x8D]"

definition render_lookup :: "lookup_result option \<Rightarrow> string" where
  "render_lookup result =
     (case result of
        None \<Rightarrow> red ''No record found for the provided key.''
      | Some r \<Rightarrow>
          cyan (underline (bold ''Holesail Lookup Result'')) @ '' '' @ magnifier @ eol @
          magenta ''Host: '' @ green (if lr_host r = [] then ''N/A'' else lr_host r) @ eol @
          magenta ''Port: '' @ green (if lr_port r = 0 then ''N/A'' else to_dec (unat (lr_port r))) @ eol @
          magenta ''Protocol: '' @ green (if lr_protocol r = [] then ''N/A'' else upper (lr_protocol r)) @ eol @
          magenta ''Private: '' @ green (if lr_secure r then ''Yes'' else ''No''))"

section \<open>Dispatch\<close>

text \<open>
  What \<^verbatim>\<open>run\<close> has printed and what it does then: return an exit code, or run an endpoint or
  a lookup. \<open>sodium_ok\<close> is whether libsodium could be initialised.
\<close>

datatype cli_action = Exit int | Endpoint options | Lookup string

definition cli_run :: "bool \<Rightarrow> string list \<Rightarrow> string list \<times> cli_action" where
  "cli_run sodium_ok toks =
     (if \<not> sodium_ok then ([red ''Error: could not initialise libsodium''], Exit 1)
      else
        let a = parse_argv toks; v = validate_args a;
            printed = (if va_message v \<noteq> [] then [va_message v] else [])
        in if \<not> va_ok v then (printed, Exit (va_exit_code v))
           else if truthy a ''help'' \<or> truthy a ''h''
           then (printed @ [render_help (value_or (arg_str a ''help'') [])], Exit 0)
           else if truthy a ''version'' then (printed @ [kVersion], Exit 0)
           else if truthy a ''live'' then (printed, Endpoint (server_options a))
           else if truthy a ''connect'' \<or> ar_rest a \<noteq> [] then (printed, Endpoint (client_options a))
           else if truthy a ''filemanager''
           then (printed @ [''Error: --filemanager is not supported by holesail-cpp''], Exit 2)
           else if truthy a ''lookup'' then (printed, Lookup (value_or (arg_str a ''lookup'') []))
           else (printed @ [render_help []], Exit 0))"

end
