(* ===== verification/Hs_Cli_Props.thy ===== *)
theory Hs_Cli_Props
  imports Hs_Cli
begin

text \<open>
  What holds of the command line: reading arguments back, what validation refuses, the options
  handed to an endpoint, and two places where an option does not do what it says.
\<close>

section \<open>Reading arguments\<close>

definition name_ok :: "string \<Rightarrow> bool" where
  "name_ok n \<longleftrightarrow> n \<noteq> [] \<and> CHR ''='' \<notin> set n"

definition value_token :: "string \<times> string \<Rightarrow> string" where
  "value_token kv = ''--'' @ fst kv @ ''='' @ snd kv"

definition flag_token :: "string \<Rightarrow> string" where
  "flag_token n = ''--'' @ n"

lemma option_name_long [simp]: "n \<noteq> [] \<Longrightarrow> option_name (CHR ''-'' # CHR ''-'' # n) = Some n"
  by (simp add: option_name_def)

lemma sv_find_append: "c \<notin> set n \<Longrightarrow> sv_find (n @ c # v) c = Some (length n)"
  by (induction n) auto

lemma sv_find_absent [simp]: "c \<notin> set n \<Longrightarrow> sv_find n c = None"
  by (simp add: sv_find_None_iff)

lemma parse_positionals:
  "list_all (\<lambda>p. option_name p = None) ps \<Longrightarrow>
     parse_tokens a (ps @ toks) = parse_tokens (a\<lparr>ar_rest := ar_rest a @ ps\<rparr>) toks"
  by (induction ps arbitrary: a) auto

lemma parse_value: "name_ok n \<Longrightarrow> parse_tokens a (value_token (n, v) # toks) = parse_tokens (set_value n v a) toks"
  by (simp add: value_token_def name_ok_def sv_find_append)

lemma parse_values:
  "list_all (\<lambda>kv. name_ok (fst kv)) kvs \<Longrightarrow>
     parse_tokens a (map value_token kvs @ toks) = parse_tokens (fold (\<lambda>kv. set_value (fst kv) (snd kv)) kvs a) toks"
  by (induction kvs arbitrary: a) (auto simp: parse_value simp del: parse_tokens.simps(2))

lemma parse_flags: "list_all name_ok fs \<Longrightarrow> parse_tokens a (map flag_token fs) = fold set_flag fs a"
proof (induction fs arbitrary: a)
  case (Cons f fs)
  then have "parse_tokens a (map flag_token (f # fs)) = parse_tokens (set_flag f a) (map flag_token fs)"
    by (cases fs) (simp_all add: flag_token_def name_ok_def)
  then show ?case using Cons by simp
qed simp

lemma fold_values:
  "ar_values (fold (\<lambda>kv. set_value (fst kv) (snd kv)) kvs a) = ar_values a ++ map_of (rev kvs)"
  "ar_rest (fold (\<lambda>kv. set_value (fst kv) (snd kv)) kvs a) = ar_rest a"
  "ar_flags a = {} \<Longrightarrow> ar_flags (fold (\<lambda>kv. set_value (fst kv) (snd kv)) kvs a) = {}"
  by (induction kvs arbitrary: a) (auto simp: set_value_def map_add_def fun_eq_iff split: option.split)

lemma fold_flags:
  "ar_values (fold set_flag fs a) = ar_values a |` (- set fs)"
  "ar_flags (fold set_flag fs a) = ar_flags a \<union> set fs" "ar_rest (fold set_flag fs a) = ar_rest a"
  by (induction fs arbitrary: a) (auto simp: set_flag_def restrict_map_def fun_eq_iff)

text \<open>
  C34: A command line is read back as it was meant. Positional arguments, then options with a
  value (written with an equals sign, the value any text), then bare flags: the reader returns
  the positionals in order, for each name the last value given, unless the name is also a bare
  flag later on, and the flags.
\<close>

theorem cli_args_roundtrip:
  assumes "list_all (\<lambda>p. option_name p = None) ps" and "list_all (\<lambda>kv. name_ok (fst kv)) kvs" and "list_all name_ok fs"
  shows "parse_argv (ps @ map value_token kvs @ map flag_token fs) =
    \<lparr>ar_values = map_of (rev kvs) |` (- set fs), ar_flags = set fs, ar_rest = ps\<rparr>"
  unfolding parse_argv_def parse_positionals [OF assms(1)] parse_values [OF assms(2)] parse_flags [OF assms(3)]
  by (rule args.equality) (simp_all add: fold_flags fold_values no_args_def)

theorem cli_args_roundtrip_witness:
  "arg_str (parse_argv [''hs://0000abc'', ''--port=-1'', ''--port=80=0'', ''--udp'']) ''port'' = Some ''80=0'' \<and>
   ar_rest (parse_argv [''hs://0000abc'', ''--port=-1'', ''--port=80=0'', ''--udp'']) = [''hs://0000abc''] \<and>
   arg_boolean (parse_argv [''hs://0000abc'', ''--port=-1'', ''--port=80=0'', ''--udp'']) ''udp''"
  using cli_args_roundtrip [of "[''hs://0000abc'']" "[(''port'', ''-1''), (''port'', ''80=0'')]" "[''udp'']"]
  by (simp add: option_name_def name_ok_def value_token_def flag_token_def arg_str_def arg_boolean_def)

text \<open>A name is never both a value and a flag.\<close>

definition args_disjoint :: "args \<Rightarrow> bool" where
  "args_disjoint a \<longleftrightarrow> (\<forall>n \<in> ar_flags a. ar_values a n = None)"

lemma parse_disjoint: "args_disjoint a \<Longrightarrow> args_disjoint (parse_tokens a toks)"
proof (induction a toks rule: parse_tokens.induct)
  case (2 a tok toks)
  have v: "args_disjoint (set_value n v a)" and f: "args_disjoint (set_flag n a)"
    and r: "args_disjoint (a\<lparr>ar_rest := ps\<rparr>)" for n v ps
    using "2.prems" by (auto simp: args_disjoint_def set_value_def set_flag_def)
  show ?case using 2 v f r by (simp split: option.split list.split)
qed simp

lemma argv_disjoint: "arg_str (parse_argv toks) n = Some v \<Longrightarrow> \<not> arg_boolean (parse_argv toks) n"
  using parse_disjoint [of no_args toks]
  by (auto simp: args_disjoint_def no_args_def parse_argv_def arg_str_def arg_boolean_def)

section \<open>Validation and dispatch\<close>

lemma arg_num_Some: "arg_num a n = Some v \<Longrightarrow> arg_str a n \<noteq> None"
  by (auto simp: arg_num_def split: option.splits)

lemma not_truthy_value: "\<not> truthy a n \<Longrightarrow> arg_str a n = Some v \<Longrightarrow> v = [] \<or> arg_num a n = Some 0"
  by (auto simp: truthy_def split: if_splits option.splits)

lemma refuse_sel [simp]: "\<not> va_ok (refuse l m c)" "va_exit_code (refuse l m c) = c" "va_message (refuse l m c) = (if l = [] then m else l @ eol @ m)"
  by (simp_all add: refuse_def)

lemma wrapped_nonempty [simp]: "red s \<noteq> []" "yellow s \<noteq> []"
  by (simp_all add: red_def yellow_def wrap_def esc_def)

lemma port_given:
  "arg_has a ''port'' \<Longrightarrow> \<not> truthy a ''port'' \<Longrightarrow> arg_str a ''port'' \<noteq> Some [] \<Longrightarrow> valid_port a ''port''"
  by (auto simp: arg_has_def truthy_def arg_boolean_def arg_str_def arg_num_def valid_port_def kMaxPort_def
      split: if_splits option.splits)

lemma truthy_has: "truthy a n \<Longrightarrow> arg_has a n"
  by (auto simp: truthy_def arg_has_def arg_boolean_def arg_str_def split: option.splits if_splits)

lemma valid_port_given: "valid_port a n \<Longrightarrow> arg_str a n \<noteq> None \<and> arg_str a n \<noteq> Some []"
  by (auto simp: valid_port_def arg_num_def split: option.splits if_splits)

text \<open>The chain of early returns, once the texts are abstracted.\<close>

lemma refusal_chain:
  assumes "r = (if \<not> k then refuse w m1 2 else if c then refuse w m2 2 else if l \<and> \<not> vl then refuse w m3 2
      else if p then (if \<not> vp then refuse w m3 2 else \<lparr>va_ok = True, va_message = w, va_exit_code = 0\<rparr>)
      else if e then refuse w m3 2 else \<lparr>va_ok = True, va_message = w, va_exit_code = 0\<rparr>)"
    and "m1 \<noteq> []" and "m2 \<noteq> []" and "m3 \<noteq> []"
  shows "va_ok r = (k \<and> \<not> c \<and> (if l then vl else True) \<and> (if p then vp else \<not> e)) \<and>
    va_exit_code r = (if va_ok r then 0 else 2) \<and> (if va_ok r then va_message r = w else va_message r \<noteq> [])"
  using assms by (cases k; cases c; cases l; cases vl; cases p; cases vp; cases e) simp_all

lemma validate_spec:
  "va_ok (validate_args a) = (\<not> arg_boolean a ''key'' \<and>
      (case arg_str a ''key'' of None \<Rightarrow> True | Some key \<Rightarrow> key = [] \<or> 32 \<le> length key \<or> truthy a ''force'') \<and>
      \<not> (truthy a ''connect'' \<and> ar_rest a \<noteq> []) \<and> (if truthy a ''live'' then valid_port a ''live'' else True) \<and>
      (if arg_has a ''port'' then valid_port a ''port'' else True)) \<and>
   va_exit_code (validate_args a) = (if va_ok (validate_args a) \<or> arg_boolean a ''key'' then 0 else 2) \<and>
   (if va_ok (validate_args a) then va_message (validate_args a) \<in> {[], host_warning} else va_message (validate_args a) \<noteq> [])"
proof -
  let ?w = "if truthy a ''udp''
      then (case arg_str a ''host'' of Some h \<Rightarrow> if h = ''localhost'' \<or> h = ''0.0.0.0'' then host_warning else [] | None \<Rightarrow> [])
      else []"
  have w: "?w \<in> {[], host_warning}" by (auto split: option.split)
  have p: "(if arg_has a ''port'' then valid_port a ''port'' else True) \<longleftrightarrow>
      (if truthy a ''port'' then valid_port a ''port'' else arg_str a ''port'' \<noteq> Some [])"
  proof (cases "truthy a ''port''")
    case True
    then show ?thesis using truthy_has [OF True] by simp
  next
    case False
    have "arg_str a ''port'' = Some [] \<Longrightarrow> arg_has a ''port''" by (simp add: arg_has_def arg_str_def)
    then show ?thesis using False port_given [OF _ False] valid_port_given [of a "''port''"] by auto
  qed
  let ?k = "case arg_str a ''key'' of None \<Rightarrow> True | Some key \<Rightarrow> key = [] \<or> 32 \<le> length key \<or> truthy a ''force''"
  have k: "(case arg_str a ''key'' of Some key \<Rightarrow> key \<noteq> [] \<and> length key < 32 \<and> \<not> truthy a ''force'' | None \<Rightarrow> False) = (\<not> ?k)"
    by (auto split: option.split)
  show ?thesis
  proof (cases "arg_boolean a ''key''")
    case True
    then show ?thesis by (simp add: validate_args_def)
  next
    case False
    define W where "W = ?w"
    have v: "validate_args a =
        (if \<not> ?k then refuse W (red ''Error: A key should have a minimum length of 32 chars for security purposes. If you still wish to proceed use --force'') 2
         else if truthy a ''connect'' \<and> ar_rest a \<noteq> []
         then refuse W (red ''Error: Are you trying to use two connection strings at once? Get some holesail --help'') 2
         else if truthy a ''live'' \<and> \<not> valid_port a ''live'' then refuse W (red kBadPort) 2
         else if truthy a ''port''
         then (if \<not> valid_port a ''port'' then refuse W (red kBadPort) 2
               else \<lparr>va_ok = True, va_message = W, va_exit_code = 0\<rparr>)
         else if arg_str a ''port'' = Some [] then refuse W (red kBadPort) 2
         else \<lparr>va_ok = True, va_message = W, va_exit_code = 0\<rparr>)"
      unfolding validate_args_def Let_def k W_def using False by simp
    have w: "W \<in> {[], host_warning}" unfolding W_def by (rule w)
    show ?thesis
      unfolding p using False w refusal_chain [OF v] by simp
  qed
qed

lemma cli_validated:
  assumes "va_ok (validate_args a)"
  shows "truthy a ''live'' \<Longrightarrow> valid_port a ''live''" and "arg_has a ''port'' \<Longrightarrow> valid_port a ''port''"
  using assms validate_spec [of a] by simp_all

text \<open>
  C36: What validation lets through: no bare \<^verbatim>\<open>--key\<close>, no key of 1 to 31 characters unless
  forced, not two connection strings, and ports that are numbers between 0 and 65535, the
  \<^verbatim>\<open>--live\<close> port if it is asked for and the \<^verbatim>\<open>--port\<close> one if it is given at all. A refusal
  prints something and has exit code 2, or 0 for the bare key; otherwise at most the UDP host
  warning is printed.
\<close>

theorem cli_validation:
  "va_ok (validate_args a) = (\<not> arg_boolean a ''key'' \<and>
      (case arg_str a ''key'' of None \<Rightarrow> True | Some key \<Rightarrow> key = [] \<or> 32 \<le> length key \<or> truthy a ''force'') \<and>
      \<not> (truthy a ''connect'' \<and> ar_rest a \<noteq> []) \<and> (if truthy a ''live'' then valid_port a ''live'' else True) \<and>
      (if arg_has a ''port'' then valid_port a ''port'' else True)) \<and>
   va_exit_code (validate_args a) = (if va_ok (validate_args a) \<or> arg_boolean a ''key'' then 0 else 2) \<and>
   (if va_ok (validate_args a) then va_message (validate_args a) \<in> {[], host_warning} else va_message (validate_args a) \<noteq> [])"
  by (rule validate_spec)

section \<open>The options of an endpoint\<close>

lemma run_Endpoint:
  assumes "cli_run b toks = (out, Endpoint opts)"
  defines "a \<equiv> parse_argv toks"
  shows "va_ok (validate_args a)"
    and "(truthy a ''live'' \<and> opts = server_options a) \<or>
      (\<not> truthy a ''live'' \<and> (truthy a ''connect'' \<or> ar_rest a \<noteq> []) \<and> opts = client_options a)"
  using assms by (auto simp: cli_run_def Let_def split: if_splits)

lemma common_sel [simp]:
  "op_server (common_options a) = False" "op_client (common_options a) = False" "op_port (common_options a) = None"
  "op_host (common_options a) = None" "op_log_level (common_options a) = log_level_of a" "op_secure (common_options a) = None"
  by (simp_all add: common_options_def)

lemma server_options_sel [simp]:
  "op_server (server_options a)" "\<not> op_client (server_options a)" "op_key (server_options a) = arg_str a ''key''"
  "op_port (server_options a) = Some (word_of_int (value_or (arg_num a ''live'') 0))"
  "op_log_level (server_options a) = log_level_of a"
  "op_secure (server_options a) = Some (if arg_has a ''public'' then \<not> arg_boolean a ''public'' else True)"
  by (simp_all add: server_options_def)

lemma client_options_sel [simp]:
  "\<not> op_server (client_options a)" "op_client (client_options a)"
  "op_key (client_options a) = Some (value_or (arg_str a ''connect'') (if ar_rest a = [] then [] else hd (ar_rest a)))"
  "op_port (client_options a) = (if valid_port a ''port'' then Some (word_of_int (the (arg_num a ''port''))) else None)"
  "op_log_level (client_options a) = log_level_of a"
  "op_secure (client_options a) = (if arg_has a ''public'' then Some (\<not> arg_boolean a ''public'') else None)"
  by (simp_all add: client_options_def Let_def split: option.split)

lemma server_host_given: "op_host (server_options a) \<noteq> None \<and> op_host (server_options a) \<noteq> Some []"
  by (simp add: server_options_def kDefaultHost_def split: option.split)

lemma log_level_range: "-1 \<le> log_level_of a \<and> log_level_of a \<le> 3"
  by (simp add: log_level_of_def clamp_def split: option.split)

lemma port_exact: "valid_port a n \<Longrightarrow> arg_num a n = Some v \<Longrightarrow> uint (word_of_int v :: u16) = v"
  by (simp add: valid_port_def kMaxPort_def unsigned_of_int take_bit_int_eq_self)

text \<open>
  C35: Ports reach the endpoint as they were typed. When the command line runs an endpoint, a
  server's port is the number after \<^verbatim>\<open>--live\<close>, between 1 and 65535, not cut to 16 bits; a
  client has the port given with \<^verbatim>\<open>--port\<close>, between 0 and 65535, and none exactly if none was
  given; and the log level is between -1 and 3.
\<close>

theorem cli_ports:
  assumes "cli_run b toks = (out, Endpoint opts)"
  shows "(if op_server opts
     then \<exists>p. op_port opts = Some p \<and> arg_num (parse_argv toks) ''live'' = Some (uint p) \<and> p \<noteq> 0
     else case op_port opts of None \<Rightarrow> \<not> arg_has (parse_argv toks) ''port''
          | Some p \<Rightarrow> arg_num (parse_argv toks) ''port'' = Some (uint p)) \<and>
    -1 \<le> op_log_level opts \<and> op_log_level opts \<le> 3"
proof -
  let ?a = "parse_argv toks"
  note r = run_Endpoint [OF assms]
  from cli_validated [OF r(1)] have live: "truthy ?a ''live'' \<Longrightarrow> valid_port ?a ''live''"
    and port: "arg_has ?a ''port'' \<Longrightarrow> valid_port ?a ''port''" by simp_all
  from r(2) consider (server) "truthy ?a ''live''" "opts = server_options ?a" | (client) "opts = client_options ?a"
    by blast
  then show ?thesis
  proof cases
    case server
    note t = server(1) and opt = server(2)
    from live [OF t] obtain n where n: "arg_num ?a ''live'' = Some n" "uint (word_of_int n :: u16) = n"
      using port_exact [OF live [OF t]] by (auto simp: valid_port_def split: option.splits)
    have "arg_str ?a ''live'' \<noteq> None" using n(1) by (rule arg_num_Some)
    then have "n \<noteq> 0" using t n(1) argv_disjoint [of toks "''live''"] by (auto simp: truthy_def split: if_splits)
    then show ?thesis using opt n log_level_range by (auto simp: value_or_def)
  next
    case opt: client
    show ?thesis
    proof (cases "valid_port ?a ''port''")
      case True
      then obtain n where n: "arg_num ?a ''port'' = Some n" by (auto simp: valid_port_def split: option.splits)
      then show ?thesis using opt True port_exact [OF True n] log_level_range by simp
    next
      case False
      then show ?thesis using opt port log_level_range by auto
    qed
  qed
qed

text \<open>
  C37: What the command line hands to an endpoint is accepted, except for an empty key: it asks
  for a server or a client and not for both, a server has a host, and the constructor throws
  only for a key given as the empty string (or no key at all after \<^verbatim>\<open>--connect\<close>).
\<close>

theorem cli_dispatch_options:
  assumes "cli_run b toks = (out, Endpoint opts)"
  shows "op_server opts = (\<not> op_client opts) \<and>
    validate_opts opts = (if op_key opts = Some [] then Inl ''Key is empty'' else Inr opts)"
proof -
  from run_Endpoint(2) [OF assms] consider "opts = server_options (parse_argv toks)" | "opts = client_options (parse_argv toks)"
    by blast
  then show ?thesis
    by cases (use server_host_given [of "parse_argv toks"] in \<open>auto simp: validate_opts_def\<close>)
qed

lemma derive_secure: "op_secure opts = Some True \<Longrightarrow> de_secure (derive cr rnd opts)"
  using parse_url_secure_never_False [of "value_or (op_key opts) []"]
  by (cases "pu_secure (parse_url (value_or (op_key opts) []))") (simp_all add: derive_def Let_def value_or_def)


text \<open>
  The help advertises \<^verbatim>\<open>-v\<close>; the program answers it with the help, not with its version.
\<close>

theorem cli_short_version: "cli_run True [''-v''] = ([render_help []], Exit 0)"
  by (simp add: cli_run_def parse_argv_def option_name_def is_digit_def chr_code_def set_flag_def no_args_def
      validate_args_def truthy_def arg_boolean_def arg_str_def Let_def)

section \<open>Witnesses\<close>

definition demo_toks :: "string list" where
  "demo_toks = [''--live'', ''8080'', ''--host'', ''localhost'']"

lemma demo_args: "parse_argv demo_toks =
    \<lparr>ar_values = [''live'' \<mapsto> ''8080'', ''host'' \<mapsto> ''localhost''], ar_flags = {}, ar_rest = []\<rparr>"
  by (simp add: demo_toks_def parse_argv_def option_name_def set_value_def no_args_def)

lemma demo_num: "arg_num (parse_argv demo_toks) ''live'' = Some 8080"
  by (simp add: demo_args arg_num_def arg_str_def from_chars_long_def dec_value_def is_digit_def digit_val_def chr_code_def)

lemma demo_run: "cli_run True demo_toks = ([], Endpoint (server_options (parse_argv demo_toks)))"
proof -
  have t: "truthy (parse_argv demo_toks) n = (n = ''live'' \<or> n = ''host'')" for n
  proof -
    have h: "arg_num (parse_argv demo_toks) ''host'' = None"
      by (simp add: demo_args arg_num_def arg_str_def from_chars_long_def is_digit_def chr_code_def)
    show ?thesis
      using demo_num h by (auto simp: truthy_def) (simp_all add: demo_args arg_boolean_def arg_str_def split: if_splits)
  qed
  have "validate_args (parse_argv demo_toks) = \<lparr>va_ok = True, va_message = [], va_exit_code = 0\<rparr>"
    using demo_num t by (simp add: validate_args_def valid_port_def kMaxPort_def) (simp add: demo_args arg_boolean_def arg_str_def)
  then show ?thesis using t by (simp add: cli_run_def)
qed

theorem cli_ports_witness: "op_port (server_options (parse_argv demo_toks)) = Some 8080"
proof -
  obtain p where p: "op_port (server_options (parse_argv demo_toks)) = Some p" "uint p = 8080"
    using cli_ports [OF demo_run] demo_num by auto
  have "p = word_of_int (uint p)" by simp
  then show ?thesis using p by simp
qed

theorem cli_dispatch_options_witness:
  "validate_opts (server_options (parse_argv demo_toks)) = Inr (server_options (parse_argv demo_toks))"
  using cli_dispatch_options [OF demo_run] by (simp add: demo_args arg_str_def)


end
