(* ===== verification/Hs_Session.thy ===== *)
theory Hs_Session
  imports Hs_Cli_Props
begin

text \<open>
  A run of the program (\<^verbatim>\<open>run_endpoint\<close> and \<^verbatim>\<open>run_lookup\<close> in \<^verbatim>\<open>src/cli.cpp\<close>): an endpoint with
  its two signal handlers, driven by the loop until it is shut down; and a lookup. Output is
  the list of texts printed. The answers of libuv and hyperdht are arguments.
\<close>

section \<open>Model\<close>

datatype sig = Sigint | Sigterm

text \<open>
  \<open>se_handles\<close> are the signal handles registered with the loop, \<open>se_closed\<close> the calls of
  \<^verbatim>\<open>uv_close\<close> on them; the other fields are those of \<^verbatim>\<open>Shutdown\<close> and the locals of
  \<^verbatim>\<open>run_endpoint\<close>.
\<close>

record session =
  se_endpoint :: endpoint
  se_installed :: bool
  se_closing :: bool
  se_status :: int
  se_handles :: "sig list"
  se_closed :: "sig list"
  se_out :: "string list"

text \<open>What the program asks of its surroundings.\<close>

record session_env =
  so_server :: server_env
  so_strerror :: "int \<Rightarrow> string"
  so_qr :: "string \<Rightarrow> qr_code option"

definition print_line :: "string \<Rightarrow> session \<Rightarrow> session" where
  "print_line l s = s\<lparr>se_out := se_out s @ [l]\<rparr>"

definition begin_shutdown :: "session_env \<Rightarrow> session \<Rightarrow> session" where
  "begin_shutdown e s =
     (if se_closing s then s
      else let s = s\<lparr>se_closing := True\<rparr>;
               s = s\<lparr>se_endpoint := endpoint_close (so_server e) (se_endpoint s)\<rparr>
           in if \<not> se_installed s then s else s\<lparr>se_closed := se_closed s @ [Sigint, Sigterm]\<rparr>)"

definition on_signal :: "session_env \<Rightarrow> session \<Rightarrow> session" where
  "on_signal e s = begin_shutdown e s"

text \<open>The two lambdas of \<^verbatim>\<open>run_endpoint\<close>.\<close>

definition session_fail :: "session_env \<Rightarrow> int \<Rightarrow> session \<Rightarrow> session" where
  "session_fail e err s =
     begin_shutdown e ((print_line (red (''Error: '' @ so_strerror e err)) s)\<lparr>se_status := 1\<rparr>)"

definition ready_cb :: "session_env \<Rightarrow> int \<Rightarrow> session \<Rightarrow> session" where
  "ready_cb e err s =
     (if err < 0 then session_fail e err s
      else let s = s\<lparr>se_endpoint := endpoint_info (se_endpoint s)\<rparr>
           in print_line (render_started (so_qr e) (ep_info (se_endpoint s))) s)"

text \<open>
  The callback is called from inside the server or the client, as the last thing they do there;
  \<open>reports\<close> reads off what they have recorded of these calls.
\<close>

definition reports :: "endpoint \<Rightarrow> int list" where
  "reports x =
     (case ep_server x of
        Some s \<Rightarrow> concat (map (\<lambda>a. case a of DListening rc \<Rightarrow> [rc] | _ \<Rightarrow> []) (sv_acts s))
      | None \<Rightarrow>
          (case ep_client x of
             Some c \<Rightarrow> concat (map (\<lambda>a. case a of KListening rc \<Rightarrow> [rc] | _ \<Rightarrow> []) (k_acts (ux_side c)))
           | None \<Rightarrow> []))"

definition report_new :: "session_env \<Rightarrow> int list \<Rightarrow> session \<Rightarrow> session" where
  "report_new e old s = fold (ready_cb e) (drop (length old) (reports (se_endpoint s))) s"

text \<open>
  What comes of starting: an early return with what was printed and the exit code, an exception
  that nothing catches, or a session in the hands of the loop. \<open>rc1\<close> and \<open>rc2\<close> are the
  results of initialising the signal handles; the second is not tried if the first fails.
\<close>

datatype started = Ended "string list" int | Uncaught string | Running session

definition new_session :: "int \<Rightarrow> int \<Rightarrow> endpoint \<Rightarrow> session" where
  "new_session rc1 rc2 x =
     \<lparr>se_endpoint = x, se_installed = (rc1 = 0 \<and> rc2 = 0), se_closing = False, se_status = 0,
      se_handles = (if rc1 \<noteq> 0 then [] else if rc2 \<noteq> 0 then [Sigint] else [Sigint, Sigterm]),
      se_closed = [], se_out = []\<rparr>"

definition run_endpoint ::
  "hs_crypto \<Rightarrow> byte list \<Rightarrow> byte list \<Rightarrow> bool \<Rightarrow> int \<Rightarrow> int \<Rightarrow> bool \<Rightarrow> client_env \<Rightarrow> session_env \<Rightarrow> options \<Rightarrow> started" where
  "run_endpoint cr rnd rnd' loop_ok rc1 rc2 created ce e opts =
     (if \<not> loop_ok then Ended [red ''Error: could not create an event loop''] 1
      else (case endpoint_new cr rnd opts of
              Inl msg \<Rightarrow> Ended [red (''Error: '' @ msg)] 1
            | Inr x \<Rightarrow>
                (let s = new_session rc1 rc2 x;
                     s = (if se_installed s then s
                          else print_line (red ''Warning: could not install the signal handlers'') s)
                 in case endpoint_ready cr rnd' created (so_server e) ce True (se_endpoint s) of
                      (y, Inl msg) \<Rightarrow> Uncaught msg
                    | (y, Inr started) \<Rightarrow>
                        (let s = report_new e [] (s\<lparr>se_endpoint := y\<rparr>)
                         in Running (if started < 0 then session_fail e started s else s)))))"

text \<open>The loop: callbacks of the endpoint's server or client, and signals.\<close>

datatype session_event =
    SnServer "server_env \<times> server_event"
  | SnClient "client_env \<times> client_event"
  | SnSignal sig

definition endpoint_event_of :: "session_event \<Rightarrow> endpoint_event option" where
  "endpoint_event_of ev =
     (case ev of SnServer v \<Rightarrow> Some (EpServer v) | SnClient v \<Rightarrow> Some (EpClient v) | SnSignal _ \<Rightarrow> None)"

definition session_step :: "(u32 \<Rightarrow> string) \<Rightarrow> session \<Rightarrow> session_env \<times> session_event \<Rightarrow> session" where
  "session_step nm s ev =
     (case endpoint_event_of (snd ev) of
        None \<Rightarrow> on_signal (fst ev) s
      | Some v \<Rightarrow> report_new (fst ev) (reports (se_endpoint s))
                    (s\<lparr>se_endpoint := endpoint_step nm (se_endpoint s) v\<rparr>))"

definition session_enabled :: "session \<Rightarrow> session_env \<times> session_event \<Rightarrow> bool" where
  "session_enabled s ev =
     (case snd ev of
        SnServer v \<Rightarrow> endpoint_enabled (se_endpoint s) (EpServer v) \<and> snd v \<noteq> SvDestroy \<and> (\<forall>b. snd v \<noteq> SvStart b)
      | SnClient v \<Rightarrow> endpoint_enabled (se_endpoint s) (EpClient v) \<and> snd v \<noteq> CeDestroy \<and> (\<forall>b. snd v \<noteq> CeConnect b)
      | SnSignal sg \<Rightarrow> se_installed s \<and> sg \<in> set (se_handles s))"

text \<open>
  When the loop has run dry: \<^verbatim>\<open>close\<close> once more, and again from the destructor; the walk over
  the loop closes what is still open; the exit code is returned.
\<close>

definition drain_and_close :: "session \<Rightarrow> session" where
  "drain_and_close s = s\<lparr>se_closed := se_closed s @ filter (\<lambda>h. h \<notin> set (se_closed s)) (se_handles s)\<rparr>"

definition session_end :: "session_env \<Rightarrow> session \<Rightarrow> session" where
  "session_end e s =
     drain_and_close (s\<lparr>se_endpoint := endpoint_close (so_server e) (endpoint_close (so_server e) (se_endpoint s))\<rparr>)"

text \<open>
  \<^verbatim>\<open>run_lookup\<close>: what goes to standard output and to standard error; the exit code is always 0.
  \<open>es\<close> are the callbacks the loop delivered before it ran dry.
\<close>

definition lookup_cb :: "(int \<Rightarrow> string) \<Rightarrow> int \<times> lookup_result option \<Rightarrow> string list \<times> string list" where
  "lookup_cb strerror answer =
     (case answer of (err, result) \<Rightarrow>
        if err < 0 then ([], [red ''Error during lookup:'' @ '' '' @ strerror err @ eol])
        else ([render_lookup result], []))"

definition run_lookup ::
  "hs_crypto \<Rightarrow> bool \<Rightarrow> bool \<Rightarrow> int \<Rightarrow> int \<Rightarrow> (int \<Rightarrow> string) \<Rightarrow> lookup_event list \<Rightarrow> string \<Rightarrow>
     string list \<times> string list \<times> int" where
  "run_lookup cr loop_ok created rc1 rc2 strerror es key =
     (if \<not> loop_ok then ([], [red ''Error during lookup:'' @ '' could not create an event loop'' @ eol], 0)
      else (case lookup_start cr created rc1 rc2 key True of
              (started, r) \<Rightarrow>
                if started < 0
                then ([], [red ''Error during lookup:'' @ '' '' @
                       (if started = UV_EINVAL then ''Invalid key format: '' @ key else strerror started) @ eol], 0)
                else (case r of
                        None \<Rightarrow> ([], [], 0)
                      | Some x \<Rightarrow>
                          (let calls = map (lookup_cb strerror) (lk_calls (foldl lookup_step x es))
                           in (concat (map fst calls), concat (map snd calls), 0)))))"

section \<open>The session's invariant\<close>

lemma endpoint_reachable_step:
  "endpoint_reachable nm x \<Longrightarrow> endpoint_enabled x v \<Longrightarrow> endpoint_reachable nm (endpoint_step nm x v)"
  unfolding endpoint_reachable_def by (rule endpoint_machine.reach_step)

lemma endpoint_reachable_ops [simp]:
  assumes "endpoint_reachable nm x"
  shows "endpoint_reachable nm (endpoint_close e x)" "endpoint_reachable nm (endpoint_info x)"
    "endpoint_reachable nm (fst (endpoint_ready cr rnd created se ce cb x))"
  using endpoint_reachable_step [OF assms, of "EpClose e"] endpoint_reachable_step [OF assms, of EpInfo]
    endpoint_reachable_step [OF assms, of "EpReady cr rnd created se ce cb"]
  by (simp_all add: endpoint_step_def endpoint_enabled_def)

definition endpoint_shut :: "endpoint \<Rightarrow> bool" where
  "endpoint_shut x \<longleftrightarrow> ep_server x = None \<and> ep_client x = None \<and> \<not> ep_dht x"

lemma endpoint_close_shut [simp]: "endpoint_shut (endpoint_close e x)"
  by (simp add: endpoint_shut_def endpoint_close_def Let_def split: option.split)

lemma endpoint_info_shut [simp]: "endpoint_shut (endpoint_info x) = endpoint_shut x"
  by (simp add: endpoint_shut_def)

lemma reports_shut [simp]: "endpoint_shut x \<Longrightarrow> reports x = []"
  by (simp add: reports_def endpoint_shut_def)

text \<open>All but the status, which \<^verbatim>\<open>fail\<close> sets before it shuts down.\<close>

definition session_ok :: "(u32 \<Rightarrow> string) \<Rightarrow> session \<Rightarrow> bool" where
  "session_ok nm s \<longleftrightarrow> endpoint_reachable nm (se_endpoint s) \<and>
     (se_closing s \<longrightarrow> endpoint_shut (se_endpoint s)) \<and>
     se_handles s \<in> {[], [Sigint], [Sigint, Sigterm]} \<and> se_installed s = (se_handles s = [Sigint, Sigterm]) \<and>
     se_closed s = (if se_closing s \<and> se_installed s then [Sigint, Sigterm] else [])"

definition session_inv :: "(u32 \<Rightarrow> string) \<Rightarrow> session \<Rightarrow> bool" where
  "session_inv nm s \<longleftrightarrow> session_ok nm s \<and> (se_status s = 0 \<or> se_status s = 1 \<and> se_closing s)"

lemma session_ok_small [simp]:
  "session_ok nm (print_line l s) = session_ok nm s" "session_ok nm (s\<lparr>se_status := n\<rparr>) = session_ok nm s"
  by (simp_all add: session_ok_def print_line_def)

lemma session_ok_shutdown: "session_ok nm s \<Longrightarrow> session_ok nm (begin_shutdown e s)"
  by (auto simp: session_ok_def begin_shutdown_def)

lemma begin_shutdown_frame [simp]:
  "se_closing (begin_shutdown e s)" "se_status (begin_shutdown e s) = se_status s" "se_out (begin_shutdown e s) = se_out s"
  by (simp_all add: begin_shutdown_def Let_def)

lemma session_inv_fail:
  assumes "session_ok nm s"
  shows "session_inv nm (session_fail e err s)"
proof -
  have "session_ok nm ((print_line (red (''Error: '' @ so_strerror e err)) s)\<lparr>se_status := 1\<rparr>)" using assms by simp
  from session_ok_shutdown [OF this] show ?thesis by (simp add: session_inv_def session_fail_def)
qed

lemma session_inv_ready_cb:
  assumes "session_inv nm s"
  shows "session_inv nm (ready_cb e err s)"
proof (cases "err < 0")
  case True
  have "session_ok nm s" using assms by (simp add: session_inv_def)
  from session_inv_fail [OF this] show ?thesis using True by (simp add: ready_cb_def)
next
  case False
  then show ?thesis using assms by (auto simp: ready_cb_def session_inv_def session_ok_def print_line_def)
qed

lemma session_inv_fold: "session_inv nm s \<Longrightarrow> session_inv nm (fold (ready_cb e) rcs s)"
  by (induction rcs arbitrary: s) (simp_all add: session_inv_ready_cb)

lemma session_inv_new:
  assumes "endpoint_reachable nm x"
  shows "session_inv nm (new_session rc1 rc2 x)"
  using assms by (simp add: new_session_def session_inv_def session_ok_def)

lemma session_inv_print [simp]: "session_inv nm (print_line l s) = session_inv nm s"
  by (simp add: session_inv_def) (simp add: print_line_def)

definition session_begin :: "session \<Rightarrow> bool" where
  "session_begin s \<longleftrightarrow>
     (\<exists>cr rnd rnd' loop_ok rc1 rc2 created ce e opts.
        run_endpoint cr rnd rnd' loop_ok rc1 rc2 created ce e opts = Running s)"

text \<open>What a run that gets as far as the loop has done.\<close>

lemma run_endpoint_Running:
  assumes "run_endpoint cr rnd rnd' loop_ok rc1 rc2 created ce e opts = Running s"
  obtains x y started where "endpoint_new cr rnd opts = Inr x"
    "endpoint_ready cr rnd' created (so_server e) ce True x = (y, Inr started)"
    "s = (let t = report_new e [] ((if se_installed (new_session rc1 rc2 x) then new_session rc1 rc2 x
            else print_line (red ''Warning: could not install the signal handlers'') (new_session rc1 rc2 x))\<lparr>se_endpoint := y\<rparr>)
          in if started < 0 then session_fail e started t else t)"
proof -
  obtain x where x: "endpoint_new cr rnd opts = Inr x"
    using assms by (cases "endpoint_new cr rnd opts") (simp_all add: run_endpoint_def split: if_splits)
  have n: "se_endpoint (if se_installed (new_session rc1 rc2 x) then new_session rc1 rc2 x
      else print_line l (new_session rc1 rc2 x)) = x" for l
    by (simp add: new_session_def print_line_def)
  obtain y r where y: "endpoint_ready cr rnd' created (so_server e) ce True x = (y, r)" by fastforce
  show thesis
  proof (cases r)
    case (Inl msg)
    then show thesis using assms x y n by (simp add: run_endpoint_def Let_def split: if_splits)
  next
    case (Inr started)
    show thesis
      by (rule that [OF x]) (use assms x y n Inr in \<open>auto simp: run_endpoint_def Let_def split: if_splits\<close>)
  qed
qed

lemma session_inv_begin: "session_begin s \<Longrightarrow> session_inv nm s"
proof -
  assume "session_begin s"
  then obtain cr rnd rnd' loop_ok rc1 rc2 created ce e opts
    where "run_endpoint cr rnd rnd' loop_ok rc1 rc2 created ce e opts = Running s" by (auto simp: session_begin_def)
  then obtain x y started where x: "endpoint_new cr rnd opts = Inr x"
    and y: "endpoint_ready cr rnd' created (so_server e) ce True x = (y, Inr started)"
    and s: "s = (let t = report_new e [] ((if se_installed (new_session rc1 rc2 x) then new_session rc1 rc2 x
            else print_line (red ''Warning: could not install the signal handlers'') (new_session rc1 rc2 x))\<lparr>se_endpoint := y\<rparr>)
          in if started < 0 then session_fail e started t else t)"
    by (rule run_endpoint_Running)
  have "endpoint_reachable nm x"
    unfolding endpoint_reachable_def by (rule endpoint_machine.reach_start) (use x in \<open>auto simp: endpoint_begin_def\<close>)
  then have "endpoint_reachable nm y" using y endpoint_reachable_ops(3) by (metis fst_conv)
  then have i: "session_inv nm (new_session rc1 rc2 y)" by (rule session_inv_new)
  let ?s0 = "(if se_installed (new_session rc1 rc2 x) then new_session rc1 rc2 x
      else print_line (red ''Warning: could not install the signal handlers'') (new_session rc1 rc2 x))\<lparr>se_endpoint := y\<rparr>"
  have "?s0 = (if se_installed (new_session rc1 rc2 y) then new_session rc1 rc2 y
      else print_line (red ''Warning: could not install the signal handlers'') (new_session rc1 rc2 y))"
    by (simp add: new_session_def print_line_def)
  then have "session_inv nm ?s0" using i by simp
  then have r: "session_inv nm (report_new e [] ?s0)" unfolding report_new_def by (rule session_inv_fold)
  then have "session_ok nm (report_new e [] ?s0)" by (simp add: session_inv_def)
  from session_inv_fail [OF this] r show ?thesis unfolding s Let_def by simp
qed

lemma session_inv_step:
  assumes inv: "session_inv nm s" and en: "session_enabled s ev"
  shows "session_inv nm (session_step nm s ev)"
proof (cases "endpoint_event_of (snd ev)")
  case None
  have ok: "session_ok nm (begin_shutdown (fst ev) s)" using inv session_ok_shutdown by (simp add: session_inv_def)
  then show ?thesis using inv None by (simp add: session_step_def on_signal_def session_inv_def) blast
next
  case (Some v)
  then have e: "endpoint_enabled (se_endpoint s) v" and c: "\<not> endpoint_shut (se_endpoint s)"
    using en by (auto simp: endpoint_event_of_def session_enabled_def endpoint_enabled_def endpoint_shut_def
        split: session_event.splits option.splits)
  then have "session_inv nm (s\<lparr>se_endpoint := endpoint_step nm (se_endpoint s) v\<rparr>)"
    using inv endpoint_reachable_step [OF _ e] by (auto simp: session_inv_def session_ok_def)
  then show ?thesis using Some by (simp add: session_step_def report_new_def session_inv_fold)
qed

interpretation session_machine: machine "session_step nm" session_enabled session_begin "session_inv nm"
  by unfold_locales (rule session_inv_begin, assumption, rule session_inv_step)

definition session_reachable :: "(u32 \<Rightarrow> string) \<Rightarrow> session \<Rightarrow> bool" where
  "session_reachable nm = machine.reach (session_step nm) session_enabled session_begin"

lemma session_reachable_inv: "session_reachable nm s \<Longrightarrow> session_inv nm s"
  unfolding session_reachable_def by (rule session_machine.reach_inv)

section \<open>Properties\<close>


lemma fail_reported [simp]:
  "se_out (session_fail e err s) = se_out s @ [red (''Error: '' @ so_strerror e err)]"
  "se_status (session_fail e err s) = 1" "se_closing (session_fail e err s)"
  by (simp_all add: session_fail_def print_line_def)

text \<open>
  C28: Starting the program never ends in an uncaught exception. It leaves with exit code 1
  exactly if there is no loop or the options are refused, with the reason printed; otherwise
  there is a session, and if no DHT could be created that session has printed the reason, is
  shut down and will exit with 1.
\<close>

theorem run_endpoint_total:
  assumes "crypto_law cr" and "length rnd = 32" and "length rnd' = 32"
  shows "case run_endpoint cr rnd rnd' loop_ok rc1 rc2 created ce e opts of
      Ended out code \<Rightarrow> code = 1 \<and> out = [red (if loop_ok then ''Error: '' @ projl (endpoint_new cr rnd opts)
          else ''Error: could not create an event loop'')] \<and> (\<not> loop_ok \<or> isl (endpoint_new cr rnd opts))
    | Uncaught msg \<Rightarrow> False
    | Running s \<Rightarrow> loop_ok \<and> \<not> isl (endpoint_new cr rnd opts) \<and>
        (if created then True else se_status s = 1 \<and> se_closing s \<and> last (se_out s) = red (''Error: '' @ so_strerror e UV_ENOMEM))"
proof (cases "\<not> loop_ok \<or> isl (endpoint_new cr rnd opts)")
  case True
  then show ?thesis by (cases "endpoint_new cr rnd opts") (auto simp: run_endpoint_def)
next
  case False
  then obtain x where x: "endpoint_new cr rnd opts = Inr x" by (cases "endpoint_new cr rnd opts") auto
  let ?s = "if se_installed (new_session rc1 rc2 x) then new_session rc1 rc2 x
    else print_line (red ''Warning: could not install the signal handlers'') (new_session rc1 rc2 x)"
  have n: "se_endpoint ?s = x" by (simp add: new_session_def print_line_def)
  from endpoint_ready_total [OF assms x, of created "so_server e" ce True]
  obtain y rc where y: "endpoint_ready cr rnd' created (so_server e) ce True x = (y, Inr rc)"
    and u: "\<not> created \<Longrightarrow> rc = UV_ENOMEM" by (auto split: if_splits)
  have "run_endpoint cr rnd rnd' loop_ok rc1 rc2 created ce e opts =
      Running (if rc < 0 then session_fail e rc (report_new e [] (?s\<lparr>se_endpoint := y\<rparr>)) else report_new e [] (?s\<lparr>se_endpoint := y\<rparr>))"
    using False x y n by (simp add: run_endpoint_def Let_def)
  moreover have "UV_ENOMEM < 0" by (simp add: UV_ENOMEM_def)
  ultimately show ?thesis using False u by simp
qed

lemma connect_failure:
  assumes "\<not> ke_query ce" and "client_connect True (client_new cr ce True cfg) = (c, rc)" and "rc < 0"
    and "k_init_error (ux_side (client_new cr ce True cfg)) = 0"
  shows "concat (map (\<lambda>a. case a of KListening rc \<Rightarrow> [rc] | _ \<Rightarrow> []) (k_acts (ux_side c))) = [rc]"
proof -
  let ?x = "client_new cr ce True cfg"
  have f: "k_env (ux_side ?x) = ce" "\<not> k_destroyed (ux_side ?x)" "k_dht (ux_side ?x)" "k_acts (ux_side ?x) = []"
    using assms(4) by (simp_all add: client_new_def new_udp_proxy_def kact_def Let_def UV_EINVAL_def split: option.splits if_splits)
  obtain z where z: "start_proxy z = (c, rc)" "k_on_listening (ux_side z)"
    "concat (map (\<lambda>a. case a of KListening rc \<Rightarrow> [rc] | _ \<Rightarrow> []) (k_acts (ux_side z))) = []"
    using assms(1,2,4) f by (auto simp: client_connect_def kact_def Let_def)
  obtain y rc' where y: "start_proxy z = (announce y rc', rc')"
    "ux_side y = (ux_side z)\<lparr>k_resolved := client_resolve (k_config (ux_side z)) (k_record (ux_side z)),
       k_tcp_proxy := k_tcp_proxy (ux_side y)\<rparr>" by (rule start_proxy_halves)
  have a: "k_acts (ux_side y) = k_acts (ux_side z)" "k_on_listening (ux_side y) = k_on_listening (ux_side z)"
    by (subst y(2), simp)+
  obtain lv m where "k_acts (ux_side (announce y rc')) =
      k_acts (ux_side y) @ KLog lv m # (if k_on_listening (ux_side y) then [KListening rc'] else [])"
    using announce_sel(5) by blast
  moreover have "c = announce y rc'" "rc' = rc" using z(1) y(1) by auto
  ultimately show ?thesis using z a by simp
qed

text \<open>
  One failure is reported twice. When the query of a client cannot be started, connecting
  listens at once; if the port is taken, the client calls its callback with the error, which
  prints it and shuts the session down, and then returns the same error, which is printed
  again. The interface says the callback comes later, with the result of the listen.
\<close>

lemma session_double_report:
  assumes "run_endpoint cr rnd rnd' loop_ok 0 0 True ce e opts = Running s"
    and "endpoint_new cr rnd opts = Inr x" and "\<not> op_server opts" and "\<not> ke_query ce"
    and "k_init_error (ux_side (client_new cr ce True (client_config_of x))) = 0"
    and "snd (client_connect True (client_new cr ce True (client_config_of x))) = rc" and "rc < 0"
  shows "se_out s = [red (''Error: '' @ so_strerror e rc), red (''Error: '' @ so_strerror e rc)]"
proof -
  obtain x' y started where "endpoint_new cr rnd opts = Inr x'"
    and y0: "endpoint_ready cr rnd' True (so_server e) ce True x' = (y, Inr started)"
    and s0: "s = (let t = report_new e [] ((if se_installed (new_session 0 0 x') then new_session 0 0 x'
            else print_line (red ''Warning: could not install the signal handlers'') (new_session 0 0 x'))\<lparr>se_endpoint := y\<rparr>)
          in if started < 0 then session_fail e started t else t)"
    by (rule run_endpoint_Running [OF assms(1)])
  then have x': "x' = x" using assms(2) by simp
  note n = endpoint_new_Inr [OF assms(2)]
  let ?x = "x\<lparr>ep_dht := True, ep_created := Suc (ep_created x), ep_opened := True\<rparr>"
  obtain c where c: "client_connect True (client_new cr ce True (client_config_of x)) = (c, rc)"
    using assms(6) by (metis prod.collapse)
  have cfg: "client_config_of ?x = client_config_of x" by (simp add: client_config_of_def)
  have y: "y = ?x\<lparr>ep_client := Some c\<rparr>" "started = rc"
    using y0 assms(3) n c cfg by (auto simp: x' endpoint_ready_def Let_def)
  have "reports y = [rc]"
    unfolding y(1) using connect_failure [OF assms(4) c assms(7,5)] n by (simp add: reports_def)
  then show ?thesis
    using s0 y(2) assms(7) by (simp add: x' report_new_def ready_cb_def new_session_def)
qed

section \<open>Witnesses\<close>

definition demo_session_env :: session_env where
  "demo_session_env = \<lparr>so_server = demo_server_env, so_strerror = (\<lambda>_. ''error''), so_qr = (\<lambda>_. None)\<rparr>"

lemma demo_running: "\<exists>s. run_endpoint demo_crypto (replicate 32 7) (replicate 32 9) True 0 0 True demo_client_env demo_session_env
    (demo_options True True) = Running s"
proof -
  obtain y rc where "endpoint_ready demo_crypto (replicate 32 9) True (so_server demo_session_env) demo_client_env True
      (demo_endpoint True True) = (y, Inr rc)"
    using endpoint_ready_total [OF demo_crypto_law _ _ demo_endpoint [of True True], of "replicate 32 9" True
        "so_server demo_session_env" demo_client_env True] by auto
  then show ?thesis by (simp add: run_endpoint_def demo_endpoint new_session_def Let_def)
qed

lemma demo_session_reachable:
  assumes "run_endpoint demo_crypto (replicate 32 7) (replicate 32 9) True 0 0 True demo_client_env demo_session_env
    (demo_options True True) = Running s"
  shows "session_reachable nm s"
  unfolding session_reachable_def by (rule session_machine.reach_start) (use assms in \<open>unfold session_begin_def, blast\<close>)


theorem run_endpoint_total_witness:
  "\<exists>s. run_endpoint demo_crypto (replicate 32 7) (replicate 32 9) True 0 0 False demo_client_env demo_session_env
     (demo_options True True) = Running s \<and> se_status s = 1 \<and> last (se_out s) = red ''Error: error''"
proof -
  have "\<not> isl (endpoint_new demo_crypto (replicate 32 7) (demo_options True True))" by (simp add: demo_endpoint)
  then show ?thesis
    using run_endpoint_total [OF demo_crypto_law, where rnd = "replicate 32 7" and rnd' = "replicate 32 9"
        and loop_ok = True and ?rc1.0 = 0 and ?rc2.0 = 0 and created = False and ce = demo_client_env
        and e = demo_session_env and opts = "demo_options True True"]
    by (auto simp: demo_session_env_def split: started.splits)
qed

definition demo_dialler :: options where
  "demo_dialler = (demo_options False True)\<lparr>op_client := True, op_key := Some ''secret''\<rparr>"

definition demo_failing_env :: client_env where
  "demo_failing_env = demo_client_env\<lparr>ke_query := False, ke_proxy := (ke_proxy demo_client_env)\<lparr>pe_init := -12\<rparr>\<rparr>"

lemma session_double_report_witness:
  "\<exists>s. run_endpoint demo_crypto [] [] True 0 0 True demo_failing_env demo_session_env demo_dialler = Running s \<and>
     se_out s = [red ''Error: error'', red ''Error: error'']"
proof -
  obtain x where x: "endpoint_new demo_crypto [] demo_dialler = Inr x"
    by (simp add: endpoint_new_def validate_opts_def demo_dialler_def demo_options_def)
  note n = endpoint_new_Inr [OF x]
  let ?cfg = "client_config_of x"
  have cfg: "?cfg = \<lparr>ck_key = ''secret'', ck_secure = True, ck_port = Some 22, ck_host = Some ''127.0.0.1'', ck_udp = None\<rparr>"
    by (simp_all add: client_config_of_def Let_def n derive_def demo_dialler_def demo_options_def value_or_def
        parse_url_def kProtocol_def)
  let ?c = "client_new demo_crypto demo_failing_env True ?cfg"
  have init: "k_init_error (ux_side ?c) = 0" unfolding cfg by (simp add: client_new_def new_udp_proxy_def Let_def)
  have rc: "snd (client_connect True ?c) = -12"
    unfolding cfg by (simp add: client_new_def new_udp_proxy_def client_connect_def start_proxy_def client_resolve_def
        default_resolved_def demo_failing_env_def proxy_listen_def proxy_close_def new_proxy_def kact_def Let_def)
  have "\<not> op_server demo_dialler" by (simp add: demo_dialler_def demo_options_def)
  moreover have q: "\<not> ke_query demo_failing_env" by (simp add: demo_failing_env_def)
  moreover have "\<exists>s. run_endpoint demo_crypto [] [] True 0 0 True demo_failing_env demo_session_env demo_dialler = Running s"
    using calculation n(4)
    by (cases "client_connect True (client_new demo_crypto demo_failing_env True (client_config_of
          (x\<lparr>ep_dht := True, ep_created := Suc (ep_created x), ep_opened := True\<rparr>)))")
      (simp add: run_endpoint_def x new_session_def endpoint_ready_def n(2) Let_def)
  ultimately show ?thesis
    using session_double_report [OF _ x _ q init rc] by (auto simp: demo_session_env_def)
qed

end
