(* ===== verification/Hs_Flow.thy ===== *)
theory Hs_Flow
  imports Hs_Pipe "HOL-Library.Sublist"
begin

text \<open>
  The bytes a TCP pipe carries. What the pipe reads from its socket goes to its stream side
  once, whole and in order, and what the stream brings is handed to the socket the same way,
  whatever the order of the callbacks. The stream side is the interface \<open>pipe_carrier\<close>; the
  connections of the server and of the client interpret it.
\<close>

section \<open>What goes in and what comes out\<close>

definition read_of :: "tcp_event \<Rightarrow> byte list" where
  "read_of v = (case v of EvRead n buf \<Rightarrow> take (nat n) buf | _ \<Rightarrow> [])"

definition data_of :: "tcp_event \<Rightarrow> byte list" where
  "data_of v = (case v of EvData data \<Rightarrow> data | _ \<Rightarrow> [])"

text \<open>The bytes handed to \<^verbatim>\<open>uv_write\<close>.\<close>

definition written :: "'s tcp_pipe \<Rightarrow> byte list" where
  "written p = concat (map (\<lambda>a. case a of AWrite bs \<Rightarrow> bs | _ \<Rightarrow> []) (acts p))"

text \<open>The pipe has a socket that it writes to.\<close>

definition pipe_writes :: "'s tcp_pipe \<Rightarrow> bool" where
  "pipe_writes p \<longleftrightarrow> \<not> destroyed p \<and> tcp p \<noteq> None \<and> \<not> closing p"

text \<open>The events that make the socket, and those that carry nothing either way.\<close>

definition sets_up :: "tcp_event \<Rightarrow> bool" where
  "sets_up v = (case v of EvConnect _ _ _ \<Rightarrow> True | EvAdopt \<Rightarrow> True | _ \<Rightarrow> False)"

definition plain :: "tcp_event \<Rightarrow> bool" where
  "plain v = (case v of EvRead _ _ \<Rightarrow> False | EvData _ \<Rightarrow> False | _ \<Rightarrow> \<not> sets_up v)"

lemma plain_moves_nothing [simp]: "plain v \<Longrightarrow> read_of v = []" "plain v \<Longrightarrow> data_of v = []" "plain v \<Longrightarrow> \<not> sets_up v"
  by (simp_all add: plain_def read_of_def data_of_def split: tcp_event.splits)

lemma plain_simps [simp]: "plain (EvConnected st)" "plain (EvWritten st)" "plain (EvDrained n)"
  "plain EvStreamClose" "plain EvDestroy" "plain EvClosed" "\<not> sets_up (EvRead n' buf)" "\<not> sets_up (EvData bs)"
  by (simp_all add: plain_def sets_up_def)

lemma read_of_simps [simp]: "read_of (EvRead n buf) = take (nat n) buf" "read_of (EvData bs) = []"
  by (simp_all add: read_of_def)

lemma data_of_simps [simp]: "data_of (EvData bs) = bs" "data_of (EvRead n buf) = []"
  by (simp_all add: data_of_def)

lemma written_frame [simp]:
  "written (emit (AWrite bs) p) = written p @ bs" "(\<And>bs. a \<noteq> AWrite bs) \<Longrightarrow> written (emit a p) = written p"
  "written (on_side f p) = written p" "written (start_reading e p) = written p"
  "written (stop_reading p) = written p" "written (resume_reading e p) = written p"
  "written (call_on_ready rc p) = written p" "written (fire_on_destroy sd p) = written p"
  "written (tcp_destroy sd p) = written p" "written (new_pipe b st) = []"
  by (auto simp: written_def pipe_defs new_pipe_def split: act.split)

lemma written_fields [simp]:
  "written (p\<lparr>pending_bytes := n\<rparr>) = written p" "written (p\<lparr>stream_pending_bytes := n\<rparr>) = written p"
  "written (p\<lparr>inflight_writes := i\<rparr>) = written p" "written (p\<lparr>stream_paused := b\<rparr>) = written p"
  "written (p\<lparr>stream_closed := b\<rparr>) = written p" "written (p\<lparr>closing := b\<rparr>) = written p"
  "written (p\<lparr>destroyed := b\<rparr>) = written p" "written (p\<lparr>tcp := h\<rparr>) = written p"
  "written (p\<lparr>has_on_ready := b\<rparr>) = written p" "written (p\<lparr>side_st := st\<rparr>) = written p"
  by (simp_all add: written_def)

section \<open>The interface\<close>

text \<open>
  \<open>sent\<close> is what a stream side has taken from its pipe so far, and \<open>room\<close> the states in which
  it loses nothing of a write it accepts.
\<close>

locale pipe_carrier =
  fixes sd :: "'s pipe_side" and sent :: "'s \<Rightarrow> byte list" and room :: "'s \<Rightarrow> byte list \<Rightarrow> bool"
  assumes sent_pause: "sent (call (ss_pause sd) st) = sent st"
    and sent_resume: "sent (call (ss_resume sd) st) = sent st"
    and sent_close: "sent (call (ss_close sd) st) = sent st"
    and sent_gone: "sent (on_destroy_cb sd st) = sent st"
    and sent_accepted: "ss_write sd = Some w \<Longrightarrow> room st bs \<Longrightarrow> 0 \<le> snd (w st bs n) \<Longrightarrow>
      sent (fst (w st bs n)) = sent st @ bs"
    and sent_refused: "ss_write sd = Some w \<Longrightarrow> snd (w st bs n) < 0 \<Longrightarrow> sent (fst (w st bs n)) = sent st"
begin

text \<open>An operation that carries nothing.\<close>

definition kept :: "'s tcp_pipe \<Rightarrow> 's tcp_pipe \<Rightarrow> bool" where
  "kept p p' \<longleftrightarrow> sent (side_st p') = sent (side_st p) \<and> written p' = written p \<and>
     (destroyed p \<longrightarrow> destroyed p') \<and> (pipe_writes p' \<longrightarrow> pipe_writes p)"

lemma kept_refl [simp, intro]: "kept p p"
  by (simp add: kept_def)

lemma kept_trans [trans]: "kept p q \<Longrightarrow> kept q r \<Longrightarrow> kept p r"
  by (simp add: kept_def)

lemma kept_same: "side_st q = side_st p \<Longrightarrow> written q = written p \<Longrightarrow> destroyed q = destroyed p \<Longrightarrow>
    tcp q = tcp p \<Longrightarrow> closing q = closing p \<Longrightarrow> kept p q"
  by (simp add: kept_def pipe_writes_def)

lemma kept_rules:
  "kept p q \<Longrightarrow> (\<And>bs. a \<noteq> AWrite bs) \<Longrightarrow> kept p (emit a q)" "kept p q \<Longrightarrow> kept p (start_reading e q)"
  "kept p q \<Longrightarrow> kept p (stop_reading q)" "kept p q \<Longrightarrow> kept p (resume_reading e q)"
  "kept p q \<Longrightarrow> kept p (call_on_ready rc q)" "kept p q \<Longrightarrow> kept p (q\<lparr>pending_bytes := n\<rparr>)"
  "kept p q \<Longrightarrow> kept p (q\<lparr>stream_pending_bytes := n\<rparr>)" "kept p q \<Longrightarrow> kept p (q\<lparr>inflight_writes := i\<rparr>)"
  "kept p q \<Longrightarrow> kept p (q\<lparr>stream_paused := b\<rparr>)" "kept p q \<Longrightarrow> kept p (q\<lparr>stream_closed := b\<rparr>)"
  by (erule kept_trans, rule kept_same, simp_all; simp add: pipe_defs)+

lemma kept_side: "kept p q \<Longrightarrow> kept p (on_side (ss_pause sd) q)" "kept p q \<Longrightarrow> kept p (on_side (ss_resume sd) q)"
  "kept p q \<Longrightarrow> kept p (on_side (ss_close sd) q)" "kept p q \<Longrightarrow> kept p (fire_on_destroy sd q)"
  by (simp_all add: kept_def pipe_writes_def fire_on_destroy_def on_side_def emit_def written_def
      sent_pause sent_resume sent_close) (auto simp: call_def sent_gone)

lemma sent_destroy: "sent (side_st (tcp_destroy sd p)) = sent (side_st p)"
  by (auto simp: tcp_destroy_def fire_on_destroy_def stop_reading_def emit_def on_side_def Let_def
      sent_close) (simp_all add: call_def sent_gone sent_close [unfolded call_def])

lemma kept_destroy: "kept p q \<Longrightarrow> kept p (tcp_destroy sd q)"
  by (simp add: kept_def sent_destroy pipe_writes_def)

lemma kept_flush: "kept p q \<Longrightarrow> kept p (flush_finished sd q)"
  by (simp add: flush_finished_def kept_destroy)

lemma kept_closed: "kept p (closed_cb sd p)"
proof -
  have "kept p (p\<lparr>tcp := None\<rparr>)" by (simp add: kept_def pipe_writes_def)
  then show ?thesis unfolding closed_cb_def by (rule kept_side)
qed

text \<open>Every event but a read, data from the stream, and the making of the socket.\<close>

lemma kept_step: "plain v \<Longrightarrow> kept (sys_pipe s) (sys_pipe (tcp_step sd s (e, v)))"
  by (cases v) (simp_all add: tcp_step_def tcp_connect_cb_def write_cb_def drained_def tcp_on_stream_close_def
      Let_def kept_rules kept_side kept_destroy kept_flush kept_closed plain_def sets_up_def)

section \<open>Carrying\<close>

text \<open>
  \<open>R\<close> is what has been read from the socket, \<open>D\<close> what the stream has brought. A live pipe has
  passed on all of the one, a pipe that still writes all of the other; a pipe that is over,
  the beginning.
\<close>

definition carries :: "byte list \<Rightarrow> byte list \<Rightarrow> 's tcp_pipe \<Rightarrow> bool" where
  "carries R D p \<longleftrightarrow> prefix (sent (side_st p)) R \<and> (\<not> destroyed p \<longrightarrow> sent (side_st p) = R) \<and>
     prefix (written p) D \<and> (pipe_writes p \<longrightarrow> written p = D)"

lemma carries_kept: "carries R D p \<Longrightarrow> kept p q \<Longrightarrow> carries R D q"
  by (auto simp: carries_def kept_def)

lemma carries_read:
  assumes "carries R D p" and "\<not> destroyed p \<Longrightarrow> room (side_st p) (take (nat n) buf)"
    and "ss_write sd = Some w"
  shows "carries (R @ take (nat n) buf) D (read_cb e sd n buf p)"
proof -
  consider "destroyed p" | "\<not> destroyed p" "n \<le> 0" | "\<not> destroyed p" "0 < n" by linarith
  then show ?thesis
  proof cases
    case 1
    then show ?thesis using assms(1) by (auto simp: carries_def read_cb_def)
  next
    case 2
    have "kept p (read_cb e sd n buf p)"
      using 2 by (simp add: read_cb_def kept_rules kept_side kept_destroy)
    then show ?thesis using carries_kept [OF assms(1)] 2 by simp
  next
    case 3
    obtain st rc where r: "w (side_st p) (take (nat n) buf) (Some (nat n)) = (st, rc)"
      by (cases "w (side_st p) (take (nat n) buf) (Some (nat n))")
    let ?q = "p\<lparr>stream_pending_bytes := stream_pending_bytes p + nat n, side_st := st\<rparr>"
    show ?thesis
    proof (cases "rc < 0")
      case True
      have "sent st = sent (side_st p)" using sent_refused [OF assms(3)] r True by (metis fst_conv snd_conv)
      then have k: "kept p (tcp_destroy sd (p\<lparr>side_st := st\<rparr>))"
        by (intro kept_destroy) (simp add: kept_def pipe_writes_def)
      have "prefix (sent (side_st p)) (R @ take (nat n) buf)" using assms(1) by (simp add: carries_def)
      then have "carries (R @ take (nat n) buf) D (tcp_destroy sd (p\<lparr>side_st := st\<rparr>))"
        using assms(1) k by (auto simp: carries_def kept_def)
      then show ?thesis using 3 True assms(3) r by (simp add: read_cb_def)
    next
      case False
      then have "sent st = sent (side_st p) @ take (nat n) buf"
        using sent_accepted [OF assms(3) assms(2)] 3 r by (metis fst_conv not_less snd_conv)
      then have "carries (R @ take (nat n) buf) D ?q"
        using assms(1) 3 by (simp add: carries_def pipe_writes_def)
      note c = this
      have "carries (R @ take (nat n) buf) D (stop_reading ?q)"
        by (rule carries_kept [OF c]) (simp add: kept_rules)
      then show ?thesis using c 3 False assms(3) r by (simp add: read_cb_def Let_def)
    qed
  qed
qed

lemma carries_data:
  assumes "carries R D p"
  shows "carries R (D @ bs) (tcp_on_stream_data e sd bs p)"
proof (cases "pipe_writes p \<and> bs \<noteq> []")
  case False
  then have "tcp_on_stream_data e sd bs p = p" by (auto simp: tcp_on_stream_data_def pipe_writes_def)
  then show ?thesis using assms False by (auto simp: carries_def)
next
  case True
  then have c: "carries R (D @ bs) (emit (AWrite bs) p)"
    using assms by (simp add: carries_def) (simp add: emit_def)
  have "kept (emit (AWrite bs) p) (tcp_on_stream_data e sd bs p)"
    using True unfolding tcp_on_stream_data_def by (auto simp: pipe_writes_def Let_def kept_rules kept_side kept_destroy)
  then show ?thesis by (rule carries_kept [OF c])
qed

lemma carries_step:
  assumes "carries R D (sys_pipe s)" and "ss_write sd = Some w"
    and "\<not> sets_up v" and "\<not> destroyed (sys_pipe s) \<Longrightarrow> room (side_st (sys_pipe s)) (read_of v)"
  shows "carries (R @ read_of v) (D @ data_of v) (sys_pipe (tcp_step sd s (e, v)))"
proof (cases v)
  case (EvRead n buf)
  then show ?thesis using carries_read [OF assms(1) _ assms(2)] assms(4) by (simp add: tcp_step_def Let_def)
next
  case (EvData bs)
  then show ?thesis using carries_data [OF assms(1)] by (simp add: tcp_step_def Let_def)
qed (use assms carries_kept [OF assms(1) kept_step] in \<open>simp_all add: sets_up_def\<close>)

text \<open>A pipe whose socket is just being made.\<close>

lemma carries_setup:
  assumes "sent (side_st (sys_pipe s)) = []" and "written (sys_pipe s) = []"
    and "sets_up v"
  shows "carries [] [] (sys_pipe (tcp_step sd s (e, v)))"
proof -
  have "sent (side_st (fst (adopt e' True p))) = sent (side_st p)" "written (fst (adopt e' True p)) = written p" for e' p
    by (simp_all add: adopt_def pipe_defs) (simp_all add: written_def)
  moreover have "sent (side_st (fst (tcp_connect e' sd h pt b p))) = sent (side_st p)"
    "written (fst (tcp_connect e' sd h pt b p)) = written p" for e' h pt b p
    by (simp_all add: tcp_connect_def Let_def sent_destroy split: prod.split) (simp_all add: emit_def)
  ultimately show ?thesis
    using assms by (cases v) (auto simp: sets_up_def carries_def tcp_step_def Let_def split: prod.split, (metis fst_conv)+)
qed

end

end
