(* ===== verification/Hs_Server_Flow.thy ===== *)
theory Hs_Server_Flow
  imports Hs_Flow Hs_Pipe_Owner Hs_Server_Conn
begin

text \<open>
  What a TCP connection of the server carries: the bytes its pipe reads from the local service
  are those it has written to the stream and those it buffers, and the bytes the stream has
  brought are those it has handed to the local socket, along any trace of its callbacks.
\<close>

section \<open>The stream side\<close>

text \<open>What a connection has taken from its pipe: what it has written, then what it buffers.\<close>

definition taken :: "srv_conn \<Rightarrow> byte list" where
  "taken c = wire c @ co_pending c"

definition srv_room :: "srv_conn \<Rightarrow> byte list \<Rightarrow> bool" where
  "srv_room c bs \<longleftrightarrow>
     (if co_open c then co_pending c = [] else length (co_pending c) + length bs \<le> kMaxPendingBytes)"

lemma wire_upd [simp]: "wire (scalled (SWrite bs rc) c) = wire c @ (if rc < 0 then [] else bs)"
  "(\<And>bs rc. a \<noteq> SWrite bs rc) \<Longrightarrow> wire (scalled a c) = wire c"
  "wire (c\<lparr>co_pending := bs\<rparr>) = wire c" "wire (c\<lparr>co_drains := ns\<rparr>) = wire c"
  "wire (c\<lparr>co_pending_drains := ns\<rparr>) = wire c" "wire (c\<lparr>co_open := b\<rparr>) = wire c"
  "wire (c\<lparr>co_stream := b\<rparr>) = wire c" "wire (c\<lparr>co_ref_a := b\<rparr>) = wire c" "wire (c\<lparr>co_ref_b := b\<rparr>) = wire c"
  by (auto simp: wire_def scalled_def split: scall.split)

lemma scalled_sel [simp]: "co_pending (scalled a c) = co_pending c" "co_open (scalled a c) = co_open c"
  "co_ref_b (scalled a c) = co_ref_b c"
  by (simp_all add: scalled_def)

interpretation srv_flow: pipe_carrier "make_side rc" taken srv_room
proof
  fix w :: "srv_conn \<Rightarrow> byte list \<Rightarrow> nat option \<Rightarrow> srv_conn \<times> int" and c bs n
  assume w: "ss_write (make_side rc) = Some w"
  show "srv_room c bs \<Longrightarrow> 0 \<le> snd (w c bs n) \<Longrightarrow> taken (fst (w c bs n)) = taken c @ bs"
    using w by (auto simp: taken_def srv_room_def side_write_def Let_def split: option.split if_splits)
  show "snd (w c bs n) < 0 \<Longrightarrow> taken (fst (w c bs n)) = taken c"
    using w by (auto simp: taken_def side_write_def Let_def split: option.split if_splits)
qed (simp_all add: taken_def call_def)

text \<open>A pipe neither opens the stream nor writes to it before it is open.\<close>

definition srv_moves :: "srv_conn \<Rightarrow> srv_conn \<Rightarrow> bool" where
  "srv_moves c c' \<longleftrightarrow> co_open c' = co_open c \<and> (\<not> co_open c \<longrightarrow> wire c' = wire c)"

interpretation srv_pipe: pipe_owner "make_side rc" srv_moves "\<lambda>c. \<not> co_ref_b c"
  by unfold_locales (auto simp: srv_moves_def call_def side_write_def Let_def split: option.splits if_splits)

section \<open>A run of the server's connection\<close>

definition conn_read_of :: "conn_env \<times> conn_event \<Rightarrow> byte list" where
  "conn_read_of ev = (case snd ev of ConnTcp v \<Rightarrow> read_of v | _ \<Rightarrow> [])"

definition conn_data_of :: "conn_env \<times> conn_event \<Rightarrow> byte list" where
  "conn_data_of ev = (case snd ev of ConnData bs \<Rightarrow> bs | _ \<Rightarrow> [])"

text \<open>What the local service has written, and what the stream has brought.\<close>

definition conn_reads :: "(conn_env \<times> conn_event) list \<Rightarrow> byte list" where
  "conn_reads evs = concat (map conn_read_of evs)"

definition conn_brought :: "(conn_env \<times> conn_event) list \<Rightarrow> byte list" where
  "conn_brought evs = concat (map conn_data_of evs)"

text \<open>
  What the local service writes before the stream opens fits the greeting buffer, and the
  stream takes it when it opens.
\<close>

definition greets :: "(conn_env \<times> conn_event) list \<Rightarrow> bool" where
  "greets evs \<longleftrightarrow>
     length (conn_reads (takeWhile (\<lambda>ev. snd ev \<noteq> ConnOpen) evs)) \<le> kMaxPendingBytes \<and>
     list_all (\<lambda>ev. snd ev = ConnOpen \<longrightarrow> 0 \<le> ce_write (fst ev)) evs"

definition conn_trace :: "(conn_env \<times> conn_event) list \<Rightarrow> bridge \<Rightarrow> bool" where
  "conn_trace = machine.trace conn_step conn_enabled conn_begin"

lemma conn_trace_snoc:
  "conn_trace evs b \<Longrightarrow> conn_enabled b ev \<Longrightarrow> conn_trace (evs @ [ev]) (conn_step b ev)"
  unfolding conn_trace_def by (rule conn_machine.trace_snoc)

text \<open>The state between two events.\<close>

definition srv_carries :: "(conn_env \<times> conn_event) list \<Rightarrow> srv_conn tcp_sys \<Rightarrow> bool" where
  "srv_carries evs s \<longleftrightarrow>
     srv_flow.carries (conn_reads evs) (conn_brought evs) (sys_pipe s) \<and>
     (\<not> co_open (side_st (sys_pipe s)) \<longrightarrow>
        wire (side_st (sys_pipe s)) = [] \<and> (\<forall>ev \<in> set evs. snd ev \<noteq> ConnOpen))"

lemma conn_run_simps [simp]: "conn_reads (evs @ fs) = conn_reads evs @ conn_reads fs"
  "conn_reads [ev] = conn_read_of ev" "conn_brought (evs @ fs) = conn_brought evs @ conn_brought fs"
  "conn_brought [ev] = conn_data_of ev" "conn_reads [] = []" "conn_brought [] = []"
  by (simp_all add: conn_reads_def conn_brought_def)

lemma greets_snoc:
  assumes "greets (evs @ [ev])"
  shows "greets evs"
proof -
  have "\<exists>fs. takeWhile P (evs @ [ev]) = takeWhile P evs @ fs" for P :: "conn_env \<times> conn_event \<Rightarrow> bool"
    by (induction evs) auto
  then obtain fs where "takeWhile (\<lambda>ev. snd ev \<noteq> ConnOpen) (evs @ [ev]) = takeWhile (\<lambda>ev. snd ev \<noteq> ConnOpen) evs @ fs"
    by blast
  then show ?thesis using assms by (simp add: greets_def)
qed

lemma conn_brought_open: "greets (evs @ [ev]) \<Longrightarrow> \<forall>ev \<in> set evs. snd ev \<noteq> ConnOpen \<Longrightarrow> snd ev \<noteq> ConnOpen \<Longrightarrow>
    length (conn_reads evs) + length (conn_read_of ev) \<le> kMaxPendingBytes"
  by (simp add: greets_def takeWhile_eq_all_conv [THEN iffD2])

text \<open>An event of the pipe.\<close>

lemma srv_carries_pipe:
  assumes c: "srv_carries evs s" and inv: "tcp_bridge_inv s" and v: "\<not> sets_up v"
    and g: "greets (evs @ [ev])" and ev: "snd ev \<noteq> ConnOpen" "conn_read_of ev = read_of v" "conn_data_of ev = data_of v"
  shows "srv_carries (evs @ [ev]) (tcp_step (make_side rc) s (e, v))"
proof -
  let ?c = "side_st (sys_pipe s)"
  have m: "srv_moves ?c (side_st (sys_pipe (tcp_step (make_side rc) s (e, v))))" by (rule srv_pipe.rel_step)
  have ok: "conn_ok ?c" using inv by (simp add: tcp_bridge_inv_def Let_def)
  have "srv_room ?c (read_of v)" if "\<not> destroyed (sys_pipe s)"
  proof (cases "co_open ?c")
    case True
    then show ?thesis using ok by (simp add: srv_room_def conn_ok_def)
  next
    case False
    then have "co_pending ?c = conn_reads evs" "\<forall>ev \<in> set evs. snd ev \<noteq> ConnOpen"
      using c that by (auto simp: srv_carries_def srv_flow.carries_def taken_def)
    then show ?thesis using conn_brought_open [OF g] ev False by (simp add: srv_room_def)
  qed
  note srv_flow.carries_step [OF _ _ v this, where rc = rc and e = e]
  then show ?thesis using c m ev by (simp add: srv_carries_def srv_moves_def)
qed

text \<open>What the stream callbacks do around it: flags, the flush, the drains.\<close>

lemma srv_carries_plain:
  assumes "srv_carries evs s" and "plain v"
  shows "srv_carries evs (tcp_step (make_side rc) s (e, v))"
  using assms srv_flow.carries_kept [OF _ srv_flow.kept_step [OF assms(2)]] srv_pipe.rel_step [of s rc "(e, v)"]
  by (auto simp: srv_carries_def srv_moves_def)

lemma srv_carries_side:
  assumes "srv_carries evs s" and "taken st = taken (side_st (sys_pipe s))"
    and "\<not> co_open st \<Longrightarrow> \<not> co_open (side_st (sys_pipe s)) \<and> wire st = wire (side_st (sys_pipe s))"
  shows "srv_carries evs (s\<lparr>sys_pipe := (sys_pipe s)\<lparr>side_st := st\<rparr>\<rparr>)"
  using assms by (auto simp: srv_carries_def srv_flow.carries_def pipe_writes_def)

lemma srv_carries_drains:
  "srv_carries evs s \<Longrightarrow> \<exists>s'. fold (fire_drain e) ns (TcpBridge s) = TcpBridge s' \<and> srv_carries evs s'"
proof (induction ns arbitrary: s)
  case (Cons n ns)
  show ?case
    using Cons.IH [OF srv_carries_plain [OF Cons.prems, of "EvDrained n" "ce_write e" "ce_uv e"]]
    by (simp add: fire_drain_Tcp)
qed simp

lemma srv_carries_silent:
  "srv_carries evs s \<Longrightarrow> snd ev \<noteq> ConnOpen \<Longrightarrow> conn_read_of ev = [] \<Longrightarrow> conn_data_of ev = [] \<Longrightarrow> srv_carries (evs @ [ev]) s"
  by (simp add: srv_carries_def)

lemma srv_carries_open:
  assumes c: "srv_carries evs s" and rc: "0 \<le> ce_write e"
  shows "\<exists>s'. stream_open_cb e (TcpBridge s) = TcpBridge s' \<and> srv_carries (evs @ [(e, ConnOpen)]) s'"
proof -
  let ?c = "side_st (sys_pipe s)"
  let ?o = "?c\<lparr>co_open := True\<rparr>"
  define st where "st = (if co_pending ?c = [] then ?o
    else scalled (SWrite (co_pending ?c) (ce_write e)) (?o\<lparr>co_pending := []\<rparr>))"
  let ?s = "s\<lparr>sys_pipe := (sys_pipe s)\<lparr>side_st := st\<lparr>co_pending_drains := []\<rparr>\<rparr>\<rparr>"
  have st: "taken st = taken ?c" "co_open st" "co_pending_drains st = co_pending_drains ?c"
    using rc by (auto simp: st_def taken_def scalled_def wire_def)
  have "srv_carries evs ?s" by (rule srv_carries_side [OF c]) (use st in \<open>simp_all add: taken_def\<close>)
  then have "srv_carries (evs @ [(e, ConnOpen)]) ?s"
    using st(2) by (simp add: srv_carries_def conn_read_of_def conn_data_of_def)
  moreover have "stream_open_cb e (TcpBridge s) = fold (fire_drain e) (co_pending_drains ?c) (TcpBridge ?s)"
    using rc by (auto simp: stream_open_cb_def map_conn_def conn_of_def st_def scalled_def Let_def)
  ultimately show ?thesis using srv_carries_drains by metis
qed

lemma srv_carries_step:
  assumes c: "srv_carries evs s" and inv: "tcp_bridge_inv s" and en: "conn_enabled (TcpBridge s) ev"
    and g: "greets (evs @ [ev])"
  shows "\<exists>s'. conn_step (TcpBridge s) ev = TcpBridge s' \<and> srv_carries (evs @ [ev]) s'"
proof -
  obtain e v where ev: "ev = (e, v)" by (cases ev)
  let ?sd = "make_side (ce_write e)" and ?c = "side_st (sys_pipe s)"
  note d = conn_step_def conn_read_of_def conn_data_of_def
  note silent = srv_carries_silent [of evs _ ev]
  show ?thesis
  proof (cases v)
    case (ConnTcp w)
    have w: "\<not> sets_up w" "data_of w = []"
      using en ev ConnTcp by (auto simp: conn_enabled_def loop_tcp_def sets_up_def data_of_def split: tcp_event.splits)
    show ?thesis
      using srv_carries_pipe [OF c inv w(1) g, of "ce_write e" "ce_uv e"] ev ConnTcp w by (simp add: d)
  next
    case (ConnUdp w)
    then show ?thesis using en ev by (simp add: conn_enabled_def)
  next
    case ConnOpen
    then show ?thesis using srv_carries_open [OF c, of e] g ev by (simp add: greets_def conn_step_def)
  next
    case (ConnData bs)
    show ?thesis
      using srv_carries_pipe [OF c inv _ g, of "EvData bs" "ce_write e" "ce_uv e"] ev ConnData
      by (simp add: d stream_data_cb_def)
  next
    case ConnClose
    let ?s = "s\<lparr>sys_pipe := (sys_pipe s)\<lparr>side_st := ?c\<lparr>co_stream := False\<rparr>\<rparr>\<rparr>"
    let ?t = "tcp_step ?sd ?s (ce_uv e, EvStreamClose)"
    have "srv_carries evs ?s" by (rule srv_carries_side [OF c]) (simp_all add: taken_def)
    then have "srv_carries evs ?t" by (rule srv_carries_plain) simp
    then have "srv_carries evs (?t\<lparr>sys_pipe := (sys_pipe ?t)\<lparr>side_st := (side_st (sys_pipe ?t))\<lparr>co_ref_a := False\<rparr>\<rparr>\<rparr>)"
      by (rule srv_carries_side) (simp_all add: taken_def)
    then show ?thesis using silent ev ConnClose by (simp add: d stream_close_cb_def map_conn_def Let_def)
  next
    case (ConnDrain n)
    let ?s = "s\<lparr>sys_pipe := (sys_pipe s)\<lparr>side_st := ?c\<lparr>co_drains := remove1 n (co_drains ?c)\<rparr>\<rparr>\<rparr>"
    have "srv_carries evs ?s" by (rule srv_carries_side [OF c]) (simp_all add: taken_def)
    then have "srv_carries evs (tcp_step ?sd ?s (ce_uv e, EvDrained n))" by (rule srv_carries_plain) simp
    then show ?thesis using silent ev ConnDrain by (simp add: d drain_cb_def map_conn_def fire_drain_Tcp)
  next
    case ConnDestroy
    have "srv_carries evs (tcp_step ?sd s (ce_uv e, EvDestroy))" by (rule srv_carries_plain [OF c]) simp
    then show ?thesis using silent ev ConnDestroy by (simp add: d bridge_destroy_def)
  qed
qed

lemma srv_carries_begin:
  assumes "conn_begin (TcpBridge s)"
  shows "srv_carries [] s"
proof -
  obtain e udp h pt where "TcpBridge s = accept_bridge e udp h pt" using assms by (auto simp: conn_begin_def)
  then have s: "s = tcp_step (make_side (ce_write e)) \<lparr>sys_pipe = new_pipe True new_srv_conn, wq = [], dq = [], conn_req = False\<rparr>
      (ce_uv e, EvConnect h pt False)"
    by (simp add: accept_bridge_def split: if_splits)
  have n: "taken new_srv_conn = []" "wire new_srv_conn = []" "\<not> co_open new_srv_conn"
    by (simp_all add: taken_def wire_def new_srv_conn_def)
  let ?n = "\<lparr>sys_pipe = new_pipe True new_srv_conn, wq = [], dq = [], conn_req = False\<rparr>"
  have "srv_flow.carries [] [] (sys_pipe s)"
    unfolding s by (rule srv_flow.carries_setup) (simp_all add: n new_pipe_def sets_up_def, simp add: written_def)
  moreover have "srv_moves new_srv_conn (side_st (sys_pipe s))"
    using srv_pipe.rel_step [of ?n "ce_write e" "(ce_uv e, EvConnect h pt False)"] s by (simp add: new_pipe_def)
  ultimately show ?thesis using n by (simp add: srv_carries_def srv_moves_def)
qed

text \<open>A connection keeps its kind of pipe.\<close>

lemma fold_drains_tcp: "\<exists>s'. fold (fire_drain e) ns (TcpBridge s) = TcpBridge s'"
  by (induction ns arbitrary: s) (simp_all add: fire_drain_Tcp)

lemma conn_step_tcp: "\<exists>s'. conn_step (TcpBridge s) ev = TcpBridge s'"
  using fold_drains_tcp
  by (cases "snd ev") (simp_all add: conn_step_def stream_open_cb_def map_conn_def stream_data_cb_def
      stream_close_cb_def drain_cb_def fire_drain_Tcp bridge_destroy_def Let_def)

lemma conn_step_udp: "\<exists>p'. conn_step (UdpBridge p) ev = UdpBridge p'"
  by (cases "snd ev") (simp_all add: conn_step_def stream_open_cb_def map_conn_def fold_drains_udp stream_data_cb_def
      stream_close_cb_def drain_cb_def fire_drain_def bridge_destroy_def Let_def)

lemma conn_trace_inv: "conn_trace evs b \<Longrightarrow> conn_inv b"
  unfolding conn_trace_def by (rule conn_machine.trace_inv)

lemma srv_carries_trace:
  assumes "conn_trace evs (TcpBridge s)" and "greets evs"
  shows "srv_carries evs s"
proof -
  have "conn_machine.trace evs b \<Longrightarrow> greets evs \<longrightarrow> (\<forall>s. b = TcpBridge s \<longrightarrow> srv_carries evs s)" for b
  proof (induction rule: conn_machine.trace.induct)
    case (trace_nil b)
    then show ?case using srv_carries_begin by blast
  next
    case (trace_snoc evs b ev)
    show ?case
    proof (intro impI allI)
      fix s' assume g: "greets (evs @ [ev])" and s': "conn_step b ev = TcpBridge s'"
      then obtain s where b: "b = TcpBridge s" using conn_step_udp [of _ ev] by (cases b) (auto, metis bridge.distinct(1))
      have "srv_carries evs s" using trace_snoc b greets_snoc [OF g] by blast
      moreover have "tcp_bridge_inv s" using conn_machine.trace_inv [OF trace_snoc(1)] b by (simp add: conn_inv_def)
      ultimately show "srv_carries (evs @ [ev]) s'"
        using srv_carries_step [OF _ _ _ g] trace_snoc(2) s' b by fastforce
    qed
  qed
  then show ?thesis using assms unfolding conn_trace_def by blast
qed

end
