(* ===== verification/Hs_Client_Flow.thy ===== *)
theory Hs_Client_Flow
  imports Hs_Flow Hs_Client_Props
begin

text \<open>
  What a TCP connection of the client carries. The client keeps many connections, and a
  callback of one of them may touch others' slots in its map; what each step does to one slot
  is the relation \<open>flow_at\<close>, and the events that carry bytes for it are those that name it.
\<close>

section \<open>The stream side\<close>

text \<open>The bytes that went to the encrypted stream.\<close>

definition cwire :: "client_conn \<Rightarrow> byte list" where
  "cwire c = concat (map (\<lambda>a. case a of CWrite d rc \<Rightarrow> if rc < 0 then [] else d | _ \<Rightarrow> []) (cn_calls c))"

definition client_room :: "client_conn \<Rightarrow> byte list \<Rightarrow> bool" where
  "client_room c bs \<longleftrightarrow> cn_open c \<and> conn_armed c"

lemma cwire_upd [simp]: "cwire (ccalled (CWrite bs rc) c) = cwire c @ (if rc < 0 then [] else bs)"
  "(\<And>bs rc. a \<noteq> CWrite bs rc) \<Longrightarrow> cwire (ccalled a c) = cwire c"
  "cwire (c\<lparr>cn_pending := bs\<rparr>) = cwire c" "cwire (c\<lparr>cn_open := b\<rparr>) = cwire c"
  "cwire (c\<lparr>cn_stream := b\<rparr>) = cwire c" "cwire (c\<lparr>cn_closed := b\<rparr>) = cwire c" "cwire (c\<lparr>cn_tcp := b\<rparr>) = cwire c"
  "cwire (c\<lparr>cn_connect_pending := b\<rparr>) = cwire c" "cwire (c\<lparr>cn_pipe_done := b\<rparr>) = cwire c"
  "cwire (conn_pause c) = cwire c" "cwire (conn_resume c) = cwire c" "cwire (conn_close c) = cwire c"
  "cwire (new_client_conn i u cid) = []"
  by (auto simp: cwire_def ccalled_def conn_pause_def conn_resume_def conn_close_def new_client_conn_def
      split: ccall.split)

interpretation client_flow: pipe_carrier "conn_side rc" cwire client_room
proof
  fix w :: "client_conn \<Rightarrow> byte list \<Rightarrow> nat option \<Rightarrow> client_conn \<times> int" and c bs n
  assume w: "ss_write (conn_side rc) = Some w"
  show "client_room c bs \<Longrightarrow> 0 \<le> snd (w c bs n) \<Longrightarrow> cwire (fst (w c bs n)) = cwire c @ bs"
    using w by (auto simp: client_room_def conn_write_def conn_armed_def split: if_splits)
  show "snd (w c bs n) < 0 \<Longrightarrow> cwire (fst (w c bs n)) = cwire c"
    using w by (auto simp: conn_write_def split: if_splits)
qed (simp_all add: call_def)

section \<open>One slot, one step\<close>

text \<open>A slot after a step that carries nothing for it, if it is a TCP connection's.\<close>

definition flow_kept :: "slot \<Rightarrow> slot \<Rightarrow> bool" where
  "flow_kept sl sl' \<longleftrightarrow>
     (case sl of
        Bare c \<Rightarrow>
          (case sl' of
             Bare c' \<Rightarrow> cn_udp c' = cn_udp c \<and> cn_client_id c' = cn_client_id c \<and>
               (cn_udp c \<or> cwire c' = cwire c \<and> cn_pending c' = cn_pending c \<and> (cn_tcp c' \<longrightarrow> cn_tcp c))
           | Piped s' \<Rightarrow> False)
      | Piped s \<Rightarrow>
          (case sl' of Bare c' \<Rightarrow> False | Piped s' \<Rightarrow> client_flow.kept (sys_pipe s) (sys_pipe s')))"

definition fresh_slot :: "slot \<Rightarrow> bool" where
  "fresh_slot sl \<longleftrightarrow>
     (case sl of Bare c \<Rightarrow> cn_udp c \<or> cwire c = [] \<and> cn_pending c = [] | Piped s \<Rightarrow> False)"

definition flow_at :: "u64 \<Rightarrow> client_core \<Rightarrow> client_core \<Rightarrow> bool" where
  "flow_at i k k' \<longleftrightarrow> k_next k \<le> k_next k' \<and>
     (\<forall>sl'. kget k' i = Some sl' \<longrightarrow>
        (\<exists>sl. kget k i = Some sl \<and> flow_kept sl sl') \<or> fresh_slot sl' \<and> k_next k \<le> i)"

lemma flow_kept_refl [simp]: "flow_kept sl sl"
  by (simp add: flow_kept_def split: slot.split)

lemma flow_kept_trans: "flow_kept a b \<Longrightarrow> flow_kept b c \<Longrightarrow> flow_kept a c"
  by (cases a; cases b; cases c) (auto simp: flow_kept_def intro: client_flow.kept_trans)

lemma fresh_kept: "fresh_slot a \<Longrightarrow> flow_kept a b \<Longrightarrow> fresh_slot b"
  by (cases a; cases b) (auto simp: flow_kept_def fresh_slot_def)

lemma flow_at_refl [simp]: "flow_at i k k"
  by (simp add: flow_at_def)

lemma flow_at_trans: "flow_at i a b \<Longrightarrow> flow_at i b c \<Longrightarrow> flow_at i a c"
  unfolding flow_at_def by (meson fresh_kept flow_kept_trans order.trans)

lemma flow_at_same: "k_conns k' = k_conns k \<Longrightarrow> k_next k' = k_next k \<Longrightarrow> flow_at i k k'"
  by (auto simp: flow_at_def kget_def)

lemma flow_at_other: "kget k' i = kget k i \<Longrightarrow> k_next k' = k_next k \<Longrightarrow> flow_at i k k'"
  by (auto simp: flow_at_def)

text \<open>An update of a connection that leaves its bytes alone.\<close>

definition still :: "(client_conn \<Rightarrow> client_conn) \<Rightarrow> bool" where
  "still f \<longleftrightarrow> (\<forall>c. cn_udp (f c) = cn_udp c \<and> cn_client_id (f c) = cn_client_id c \<and> cwire (f c) = cwire c \<and> cn_pending (f c) = cn_pending c \<and>
     (cn_tcp (f c) \<longrightarrow> cn_tcp c))"

lemma still_ops [simp]: "still conn_pause" "still conn_resume" "still conn_close" "still (ccalled CClose)"
  "still (\<lambda>c. c\<lparr>cn_tcp := False\<rparr>)" "still (\<lambda>c. c\<lparr>cn_connect_pending := b\<rparr>)" "still (\<lambda>c. c\<lparr>cn_stream := b\<rparr>)"
  "still (\<lambda>c. c\<lparr>cn_closed := b, cn_stream := b'\<rparr>)"
  by (auto simp: still_def conn_pause_def conn_resume_def conn_close_def ccalled_sel cwire_def)

lemma flow_kept_still: "still f \<Longrightarrow> flow_kept sl (on_slot f sl)"
  by (cases sl) (auto simp: still_def flow_kept_def client_flow.kept_def pipe_writes_def)

lemma flow_on_conn: "still f \<Longrightarrow> flow_at i k (on_conn j f k)"
  by (auto simp: flow_at_def kget_on_conn flow_kept_still)

lemma flow_on_udp: "\<exists>c. kget k j = Some (Bare c) \<and> cn_udp c \<Longrightarrow> (\<And>c. cn_udp (f c) = cn_udp c \<and> cn_client_id (f c) = cn_client_id c) \<Longrightarrow>
    flow_at i k (on_conn j f k)"
  by (cases "i = j") (auto simp: flow_at_other kget_on_conn, auto simp: flow_at_def kget_on_conn flow_kept_def)

lemma flow_reap: "flow_at i k (reap j k)"
  by (auto simp: flow_at_def kget_reap split: if_splits)

lemma flow_kact: "flow_at i k (kact a k)"
  by (rule flow_at_same) simp_all

lemma flow_pipe_other: "j \<noteq> i \<Longrightarrow> flow_at i k (pipe_event v j k)"
  by (rule flow_at_other) (simp_all add: kget_pipe_other)

lemma flow_pipe_plain: "plain v \<Longrightarrow> flow_at i k (pipe_event v j k)"
proof (cases "kget k j")
  case (Some sl)
  assume v: "plain v"
  show ?thesis
  proof (cases sl)
    case (Piped s)
    have "flow_kept (Piped s) (Piped (pipe_after v k s))"
      using client_flow.kept_step [OF v] by (simp add: flow_kept_def pipe_after_def)
    then have "flow_at i k (kput j (Piped (pipe_after v k s)) k)" for i
      using Some Piped by (auto simp: flow_at_def kget_kput)
    then show ?thesis
      using Some Piped flow_at_trans [OF _ flow_reap] by (simp add: pipe_event_piped)
  qed (use Some in \<open>simp add: pipe_event_bare\<close>)
qed (simp add: pipe_event_bare)

lemmas flow_ops = flow_on_conn flow_reap flow_kact flow_pipe_plain

text \<open>A later operation after an earlier one.\<close>

lemma flow_then:
  "flow_at i k q \<Longrightarrow> still f \<Longrightarrow> flow_at i k (on_conn j f q)" "flow_at i k q \<Longrightarrow> flow_at i k (reap j q)"
  "flow_at i k q \<Longrightarrow> flow_at i k (kact a q)" "flow_at i k q \<Longrightarrow> plain v \<Longrightarrow> flow_at i k (pipe_event v j q)"
  "flow_at i k q \<Longrightarrow> flow_at i k (q\<lparr>k_dials := ds\<rparr>)" "flow_at i k q \<Longrightarrow> flow_at i k (q\<lparr>k_state := st\<rparr>)" "flow_at i k q \<Longrightarrow> flow_at i k (q\<lparr>k_streams := ds\<rparr>)"
  by (erule flow_at_trans, (rule flow_ops | rule flow_at_same); simp)+

lemma flow_shutdown: "flow_at i k (shutdown_core j k)"
  by (simp add: shutdown_core_def Let_def flow_then split: option.split)

lemma flow_then_shutdown: "flow_at i k q \<Longrightarrow> flow_at i k (shutdown_core j q)"
  by (erule flow_at_trans) (rule flow_shutdown)

lemmas flow_rules = flow_then flow_then_shutdown

section \<open>The callbacks\<close>

text \<open>At the level of the whole client; the proxy's own fields carry nothing for a TCP slot.\<close>

abbreviation client_flow_at :: "u64 \<Rightarrow> client \<Rightarrow> client \<Rightarrow> bool" where
  "client_flow_at i x y \<equiv> flow_at i (ux_side x) (ux_side y)"

lemma flow_connect_cb: "client_flow_at i x (client_connect_cb j err conn op x)"
  by (simp add: client_connect_cb_def Let_def flow_rules split: option.split)

lemma flow_stream_close: "client_flow_at i x (client_stream_close_cb j x)"
  by (simp add: client_stream_close_cb_def Let_def flow_rules split: option.split slot.split)

lemma flow_drain_cb: "client_flow_at i x (client_drain_cb j n x)"
  by (simp add: client_drain_cb_def flow_rules split: option.split)

lemma next_stream_open [simp]: "k_next (ux_side (on_stream_open j x)) = k_next (ux_side x)"
  unfolding on_stream_open_def Let_def by (simp del: in_core_comp split: option.split)

lemma flow_stream_open_other: "j \<noteq> i \<Longrightarrow> client_flow_at i x (client_stream_open_cb j x)"
proof -
  assume ji: "j \<noteq> i"
  have "kget (ux_side (on_stream_open j x)) i = kget (ux_side x) i"
    using ji unfolding on_stream_open_def Let_def
    by (simp add: kget_on_conn kget_pipe_other kget_kput kget_shutdown_other del: in_core_comp split: option.split)
  then have "client_flow_at i x (on_stream_open j x)" by (simp add: flow_at_other)
  then show ?thesis by (simp add: client_stream_open_cb_def split: option.split)
qed

text \<open>Dialing, from the listener or for a new UDP client.\<close>

lemma shutdown_undialed:
  assumes "kget k i = Some (Bare c)" and "\<not> cn_connect_pending c" and "\<not> cn_stream c"
  shows "kget (shutdown_core i k) i = None"
  using assms by (auto simp: shutdown_core_def Let_def kget_reap kget_on_conn reapable_iff)

lemma dial_slot:
  assumes "core_but {} k" and "k_next k \<noteq> -1" and g: "kget (fst (dial u a k)) (k_next k) = Some sl"
  shows "sl = Bare (new_client_conn (k_next k) u a)"
proof -
  let ?n = "k_next k"
  have f: "kget (k\<lparr>k_next := ?n + 1\<rparr>) ?n = None" using next_fresh(1) [OF assms(1,2)] by (simp add: kget_def)
  show ?thesis
  proof (cases "ke_connect (k_env k) < 0")
    case True
    have "kget (shutdown_core ?n (kact a1 (on_conn ?n (\<lambda>c. c\<lparr>cn_connect_pending := False\<rparr>)
        (kact a2 (kput ?n (Bare (new_client_conn ?n u a)) q))))) ?n = None" for a1 a2 q
      by (rule shutdown_undialed) (simp_all add: kget_on_conn kget_kput, simp_all add: new_client_conn_def)
    with True f have "kget (fst (dial u a k)) ?n = None"
      by (simp add: dial_def begin_dht_connect_def kemplace_def Let_def)
    then show ?thesis using g by simp
  next
    case False
    then have "snd (dial u a k)" by (simp add: dial_def begin_dht_connect_def Let_def kemplace_def)
    then show ?thesis using g by (cases rule: dial_cases [OF assms(1,2), of u a]) simp_all
  qed
qed

lemma dial_others:
  assumes "core_but {} k" and "k_next k \<noteq> -1" and "i \<noteq> k_next k"
  shows "kget (fst (dial u a k)) i = kget k i"
  using assms(3) by (cases rule: dial_cases [OF assms(1,2), of u a]) simp_all

lemma flow_dial:
  assumes "core_but {} k" and "k_next k \<noteq> -1"
  shows "flow_at i k (fst (dial u a k))"
proof -
  have "k_next (fst (dial u a k)) = k_next k + 1"
    by (simp add: dial_def begin_dht_connect_def kemplace_def Let_def)
  then show ?thesis
    using next_fresh(2) [OF assms] dial_slot [OF assms, of u a] dial_others [OF assms, of i u a]
    by (cases "i = k_next k") (auto simp: flow_at_def fresh_slot_def, simp add: new_client_conn_def)
qed

lemma flow_accept: "sound x \<Longrightarrow> k_next (ux_side x) \<noteq> -1 \<Longrightarrow> flow_at i (ux_side x) (on_local_connection b (ux_side x))"
  using flow_dial [of "ux_side x" i False "[]"] flow_kact [of i "ux_side x"]
  by (simp add: sound_def on_local_connection_dial)

lemma flow_uproxy_write:
  assumes "filed x" and "ux_clients x a = Some c"
  shows "client_flow_at i x (uproxy_write a c data x)"
proof -
  obtain j where j: "uc_stream c = udp_side j" "udp_live (ux_side x) j a" using filed_get [OF assms] by auto
  let ?k = "ux_side x"
  let ?f = "\<lambda>c. fst (conn_write (ke_write (k_env ?k)) c (frame data) None)"
  obtain st rc where r: "client_side_write j ?k (frame data) None = (st, rc)"
    by (cases "client_side_write j ?k (frame data) None")
  have "cn_udp (?f c) = cn_udp c \<and> cn_client_id (?f c) = cn_client_id c" for c by (simp add: conn_write_def)
  then have "flow_at i ?k (on_conn j ?f ?k)"
    using j(2) by (intro flow_on_udp) (auto simp: udp_live_def split: slot.splits)
  then have "flow_at i ?k st" using side_write_conn [of j ?k "frame data" None] r by simp
  then show ?thesis using j(1) r
    by (simp add: uproxy_write_def uproxy_drop_def uxemit_def call_def Let_def flow_rules)
qed

lemma flow_uproxy_client:
  assumes "sound x" and "k_next (ux_side x) \<noteq> -1"
  shows "client_flow_at i x (fst (uproxy_client nm addr x))"
    and "snd (uproxy_client nm addr x) = Some c \<Longrightarrow>
      ux_clients (fst (uproxy_client nm addr x)) (client_key nm addr) = Some c"
proof -
  have o: "ux_open x = None \<or> ux_open x = Some open_udp_stream" using assms(1) by (simp add: sound_def filed_def)
  have "flow_at i (ux_side x) (fst (open_udp_stream (ux_side x) a))" for a
    using flow_dial [of "ux_side x" i True a] assms
    by (simp add: open_udp_stream_dial sound_def split: prod.split) (metis fst_conv)
  then show "client_flow_at i x (fst (uproxy_client nm addr x))"
    using o by (auto simp: uproxy_client_def uxemit_def Let_def split: option.split prod.split) (metis fst_conv)+
  show "snd (uproxy_client nm addr x) = Some c \<Longrightarrow>
      ux_clients (fst (uproxy_client nm addr x)) (client_key nm addr) = Some c"
    by (auto simp: uproxy_client_def uxemit_def Let_def split: option.splits prod.splits if_splits)
qed

lemma flow_recv:
  assumes "sound x" and "k_next (ux_side x) \<noteq> -1"
  shows "client_flow_at i x (uproxy_recv_cb e nm nread buf addr partial x)"
proof (cases "ux_sock x")
  case True
  have "client_flow_at i x (case uproxy_client nm a x of (x, None) \<Rightarrow> x | (x, Some c) \<Rightarrow> uproxy_write (client_key nm a) c bs x)"
    for a bs
  proof (cases "uproxy_client nm a x")
    case (Pair y oc)
    have f: "client_flow_at i x y" "\<And>c. oc = Some c \<Longrightarrow> ux_clients y (client_key nm a) = Some c"
      using flow_uproxy_client(1) [OF assms, where nm = nm and addr = a]
        flow_uproxy_client(2) [OF assms, where nm = nm and addr = a] Pair by simp_all
    have "filed y" using sound_uproxy_client(1) [OF assms True, of nm a] Pair by (simp add: sound_def)
    then have "oc = Some c \<Longrightarrow> client_flow_at i y (uproxy_write (client_key nm a) c bs y)" for c
      using f(2) by (intro flow_uproxy_write) simp_all
    then show ?thesis using f(1) Pair by (auto intro: flow_at_trans split: option.split)
  qed
  then show ?thesis by (simp add: uproxy_recv_cb_def uxemit_def split: option.split)
qed (simp add: uproxy_recv_cb_def)

lemma flow_udp_data:
  assumes "filed x"
  shows "client_flow_at i x (uproxy_on_stream_data e a data x)"
proof (cases "ux_clients x a")
  case (Some c)
  obtain ok buf ds where r: "decoder_push (uc_buf c) data = (ok, buf, ds)"
    by (cases "decoder_push (uc_buf c) data")
  obtain j where "uc_stream c = udp_side j" using filed_get [OF assms Some] by auto
  then show ?thesis using Some r
    by (simp add: uproxy_on_stream_data_def Let_def uproxy_drop_def call_def uxemit_def flow_rules)
qed (simp add: uproxy_on_stream_data_def)

text \<open>The owner's calls.\<close>

lemma start_proxy_conns [simp]: "k_conns (ux_side (fst (start_proxy x))) = k_conns (ux_side x)"
  "k_next (ux_side (fst (start_proxy x))) = k_next (ux_side x)"
proof -
  have u: "ux_side (fst (uproxy_listen e h p (Some open_udp_stream) y)) = ux_side y" for e h p y
    by (cases rule: uproxy_listen_cases [of e h p y]) auto
  show "k_conns (ux_side (fst (start_proxy x))) = k_conns (ux_side x)"
    "k_next (ux_side (fst (start_proxy x))) = k_next (ux_side x)"
    by (simp_all add: start_proxy_def Let_def case_prod_unfold u)
qed

lemma flow_owner: "client_flow_at i x (fst (client_connect b x))" "client_flow_at i x (mutable_done_cb x)"
  "flow_at i k (mutable_cb k r)" "flow_at i k (client_pause k)" "flow_at i k (client_resume k)"
  by (rule flow_at_same; simp add: client_connect_def mutable_done_cb_def client_pause_def client_resume_def Let_def)+

lemma flow_fold_shutdown: "client_flow_at i x (fold shutdown_conn is x)"
  by (induction "is" rule: rev_induct) (simp_all add: flow_rules)

lemma flow_destroy: "client_flow_at i x (client_destroy x)"
proof (cases "k_destroyed (ux_side x)")
  case False
  let ?x1 = "in_core (\<lambda>k. k\<lparr>k_destroyed := True\<rparr>) x"
  obtain f where f: "cancel_query ?x1 = in_core f ?x1"
    "\<And>k. k_conns (f k) = k_conns k \<and> k_next (f k) = k_next k"
    using cancel_query_destroyed [of ?x1] by auto
  let ?x2 = "uproxy_close (in_core (\<lambda>k. k\<lparr>k_tcp_proxy := proxy_close (k_tcp_proxy k)\<rparr>) (in_core f ?x1))"
  have "client_flow_at i x ?x2" using f(2) by (intro flow_at_same) simp_all
  then have "client_flow_at i x (fold shutdown_conn js ?x2)" for js by (blast intro: flow_at_trans flow_fold_shutdown)
  then have "client_flow_at i x (in_core (\<lambda>k. kact a (k\<lparr>k_state := st\<rparr>)) (fold shutdown_conn js ?x2))" for js a st
    by (simp add: flow_rules del: in_core_comp)
  then show ?thesis using False by (simp only: client_destroy_def Let_def f(1) if_False)
qed (simp add: client_destroy_def)

section \<open>A run of the client\<close>

text \<open>
  What the local application of connection \<open>i\<close> has written, and what its stream has brought
  since it opened.
\<close>

definition client_read_of :: "u64 \<Rightarrow> client_env \<times> client_event \<Rightarrow> byte list" where
  "client_read_of i ev = (case snd ev of CePipe j v \<Rightarrow> if j = i then read_of v else [] | _ \<Rightarrow> [])"

definition client_data_of :: "u64 \<Rightarrow> client_env \<times> client_event \<Rightarrow> byte list" where
  "client_data_of i ev = (case snd ev of CeData j bs \<Rightarrow> if j = i then bs else [] | _ \<Rightarrow> [])"

definition client_reads :: "u64 \<Rightarrow> (client_env \<times> client_event) list \<Rightarrow> byte list" where
  "client_reads i evs = concat (map (client_read_of i) evs)"

definition client_brought :: "u64 \<Rightarrow> (client_env \<times> client_event) list \<Rightarrow> byte list" where
  "client_brought i evs = concat (map (client_data_of i) (dropWhile (\<lambda>ev. snd ev \<noteq> CeOpen i) evs))"

definition client_trace :: "(u32 \<Rightarrow> string) \<Rightarrow> (client_env \<times> client_event) list \<Rightarrow> client \<Rightarrow> bool" where
  "client_trace nm = machine.trace (client_step nm) client_enabled client_begin"

definition opened_in :: "u64 \<Rightarrow> (client_env \<times> client_event) list \<Rightarrow> bool" where
  "opened_in i evs \<longleftrightarrow> (\<exists>ev \<in> set evs. snd ev = CeOpen i)"

text \<open>The events that can only happen to a connection there has been.\<close>

definition names :: "u64 \<Rightarrow> client_env \<times> client_event \<Rightarrow> bool" where
  "names i ev = (case snd ev of CeOpen j \<Rightarrow> j = i | CePipe j v \<Rightarrow> j = i | _ \<Rightarrow> False)"

lemma client_run_snoc [simp]: "client_reads i (evs @ [ev]) = client_reads i evs @ client_read_of i ev"
  "opened_in i (evs @ [ev]) \<longleftrightarrow> opened_in i evs \<or> snd ev = CeOpen i"
  by (auto simp: client_reads_def opened_in_def)

lemma client_brought_snoc:
  "client_brought i (evs @ [ev]) = client_brought i evs @ (if opened_in i evs then client_data_of i ev else [])"
proof (cases "opened_in i evs")
  case True
  then obtain e where "e \<in> set evs" "snd e = CeOpen i" by (auto simp: opened_in_def)
  then show ?thesis using True by (simp add: client_brought_def dropWhile_append1)
next
  case False
  then have "dropWhile (\<lambda>ev. snd ev \<noteq> CeOpen i) (evs @ [ev]) = dropWhile (\<lambda>ev. snd ev \<noteq> CeOpen i) [ev]"
    "dropWhile (\<lambda>ev. snd ev \<noteq> CeOpen i) evs = []"
    by (simp_all add: opened_in_def dropWhile_append2 dropWhile_eq_Nil_conv)
  then show ?thesis using False by (simp only: client_brought_def) (simp add: client_data_of_def)
qed

lemma client_nothing: "\<forall>ev \<in> set evs. \<not> names i ev \<Longrightarrow> client_reads i evs = [] \<and> \<not> opened_in i evs"
  by (auto simp: client_reads_def client_read_of_def names_def opened_in_def split: client_event.splits)

lemma client_brought_none:
  assumes "\<not> opened_in i evs"
  shows "client_brought i evs = []"
proof -
  have "dropWhile (\<lambda>ev. snd ev \<noteq> CeOpen i) evs = []"
    using assms by (simp add: opened_in_def dropWhile_eq_Nil_conv)
  then show ?thesis by (simp only: client_brought_def) simp
qed

text \<open>The state of connection \<open>i\<close> between two events.\<close>

definition slot_carries :: "u64 \<Rightarrow> (client_env \<times> client_event) list \<Rightarrow> slot \<Rightarrow> bool" where
  "slot_carries i evs sl \<longleftrightarrow>
     (case sl of
        Bare c \<Rightarrow> cn_udp c \<or> cwire c = [] \<and> cn_pending c = [] \<and> client_reads i evs = [] \<and>
          (cn_tcp c \<longrightarrow> \<not> opened_in i evs)
      | Piped s \<Rightarrow> opened_in i evs \<and> client_flow.carries (client_reads i evs) (client_brought i evs) (sys_pipe s))"

definition client_carries :: "u64 \<Rightarrow> (client_env \<times> client_event) list \<Rightarrow> client_core \<Rightarrow> bool" where
  "client_carries i evs k \<longleftrightarrow>
     (\<forall>ev \<in> set evs. names i ev \<longrightarrow> i < k_next k) \<and> (\<forall>sl. kget k i = Some sl \<longrightarrow> slot_carries i evs sl)"

lemma slot_carries_kept:
  assumes "slot_carries i evs sl" and "flow_kept sl sl'" and "snd ev \<noteq> CeOpen i" and "client_read_of i ev = []"
    and "client_data_of i ev = [] \<or> (\<exists>c. sl = Bare c)"
  shows "slot_carries i (evs @ [ev]) sl'"
  using assms client_flow.carries_kept
  by (cases sl; cases sl') (auto simp: slot_carries_def flow_kept_def client_brought_snoc)

lemma slot_carries_fresh:
  "\<forall>ev \<in> set evs. \<not> names i ev \<Longrightarrow> fresh_slot sl \<Longrightarrow> slot_carries i evs sl"
  using client_nothing [of evs i] by (auto simp: slot_carries_def fresh_slot_def split: slot.splits)

lemma client_carries_flow:
  assumes c: "client_carries i evs k" and f: "flow_at i k k'" and ev: "snd ev \<noteq> CeOpen i" "client_read_of i ev = []"
    and d: "client_data_of i ev = [] \<or> (\<forall>s. kget k i \<noteq> Some (Piped s))" and n: "names i ev \<Longrightarrow> i < k_next k"
  shows "client_carries i (evs @ [ev]) k'"
proof -
  have nx: "k_next k \<le> k_next k'" using f by (simp add: flow_at_def)
  have "slot_carries i (evs @ [ev]) sl'" if g: "kget k' i = Some sl'" for sl'
  proof -
    consider (kept) sl where "kget k i = Some sl" "flow_kept sl sl'" | (fresh) "fresh_slot sl'" "k_next k \<le> i"
      using f g by (auto simp: flow_at_def)
    then show ?thesis
    proof cases
      case kept
      then show ?thesis
        using c ev d by (intro slot_carries_kept [OF _ kept(2)]) (cases sl; auto simp: client_carries_def)+
    next
      case fresh
      then show ?thesis using c n by (intro slot_carries_fresh) (auto simp: client_carries_def not_less)
    qed
  qed
  then show ?thesis using c n nx by (auto simp: client_carries_def)
qed

lemma client_carries_pipe:
  assumes c: "client_carries i evs k" and wf: "core_but {} k" and g: "kget k i = Some (Piped s)"
    and v: "\<not> sets_up v" and ev: "snd ev \<noteq> CeOpen i" "client_read_of i ev = read_of v" "client_data_of i ev = data_of v"
  shows "client_carries i (evs @ [ev]) (pipe_event v i k)"
proof -
  have si: "slot_in k i (Piped s)" by (rule core_but_get [OF wf g])
  then have r: "client_room (side_st (sys_pipe s)) (read_of v)"
    by (simp add: slot_in_def slot_wf_def conn_wf_def client_room_def)
  have sc: "opened_in i evs" "client_flow.carries (client_reads i evs) (client_brought i evs) (sys_pipe s)"
    using c g by (simp_all add: client_carries_def slot_carries_def)
  have "slot_carries i (evs @ [ev]) (Piped (pipe_after v k s))"
    using client_flow.carries_step [OF sc(2) _ v r, of "ke_write (k_env k)" "conn_write (ke_write (k_env k))" "ke_uv (k_env k)"]
      sc(1) ev
    by (simp add: slot_carries_def client_brought_snoc pipe_after_def)
  moreover have "i < k_next k" using si by (simp add: slot_in_def)
  ultimately show ?thesis
    using c by (auto simp: client_carries_def pipe_event_piped [OF g] kget_reap kget_kput split: if_splits)
qed

text \<open>The stream opens: a TCP connection gets its pipe, which adopts the socket.\<close>

lemma open_bare_tcp:
  assumes g: "kget (ux_side x) i = Some (Bare c)" and c: "\<not> cn_udp c" "cn_pending c = []"
    and sl: "kget (ux_side (on_stream_open i x)) i = Some sl"
  shows "if cn_tcp c
    then \<exists>e. sl = Piped (tcp_step (conn_side (ke_write (k_env (ux_side x))))
       \<lparr>sys_pipe = new_pipe True (c\<lparr>cn_open := True, cn_tcp := False\<rparr>), wq = [], tcp_sys.dq = [], conn_req = False\<rparr> (e, EvAdopt))
    else sl = Bare (c\<lparr>cn_open := True\<rparr>)"
proof (cases "cn_tcp c")
  case False
  then show ?thesis using g c sl by (simp add: on_stream_open_def kget_on_conn)
next
  case True
  let ?s = "\<lparr>sys_pipe = new_pipe True (c\<lparr>cn_open := True, cn_tcp := False\<rparr>), wq = [], tcp_sys.dq = [], conn_req = False\<rparr>"
  let ?k = "on_conn i (\<lambda>c. c\<lparr>cn_open := True\<rparr>) (ux_side x)"
  have "snd (adopt e True (new_pipe True c')) = 0" for e and c' :: client_conn by (simp add: adopt_def new_pipe_def)
  then have "ux_side (on_stream_open i x) = pipe_event EvAdopt i (kput i (Piped ?s) ?k)"
    using g c True by (simp add: on_stream_open_def kget_on_conn)
  then show ?thesis
    using sl True by (auto simp: pipe_event_piped kget_kput kget_reap pipe_after_def split: if_splits)
qed

lemma flow_open_udp:
  assumes g: "kget (ux_side x) i = Some (Bare c)" and c: "cn_udp c"
  shows "client_flow_at i x (on_stream_open i x)"
proof -
  let ?k = "ux_side x" and ?f = "\<lambda>c. c\<lparr>cn_open := True\<rparr>"
  have f: "flow_at i ?k (on_conn i g ?k)" if "\<And>c. cn_udp (g c) = cn_udp c \<and> cn_client_id (g c) = cn_client_id c" for g
    by (rule flow_on_udp) (use g c that in auto)
  have f2: "flow_at i ?k (on_conn i g (on_conn i ?f ?k))" if "\<And>c. cn_udp (g c) = cn_udp c \<and> cn_client_id (g c) = cn_client_id c" for g
    by (simp add: on_conn_comp f that)
  have "flow_at i ?k (on_conn i ?f ?k)"
    "flow_at i ?k (on_conn i (\<lambda>c. ccalled (CWrite bs rc) (c\<lparr>cn_pending := []\<rparr>)) (on_conn i ?f ?k))" for bs rc
    by (rule f, simp, rule f2, simp)
  note flow_then_shutdown [OF this(1)] flow_then_shutdown [OF this(2)] this
  then show ?thesis using g c by (simp add: on_stream_open_def Let_def del: on_conn_comp)
qed

lemma client_carries_open:
  assumes c: "client_carries i evs (ux_side x)" and s: "sound x" and i: "i \<in> set (k_streams (ux_side x))"
    and ev: "snd ev = CeOpen i"
  shows "client_carries i (evs @ [ev]) (ux_side (client_stream_open_cb i x))"
proof -
  let ?k = "ux_side x" and ?y = "on_stream_open i x"
  have wf: "core_but {} ?k" using s by (simp add: sound_def)
  obtain sl where g: "kget ?k i = Some sl" using core_but_owed [OF wf, of i] i by blast
  have si: "slot_in ?k i sl" by (rule core_but_get [OF wf g])
  then have cb: "client_stream_open_cb i x = ?y"
    using i g by (simp add: client_stream_open_cb_def slot_in_def slot_wf_def conn_wf_def)
  have sc: "slot_carries i evs sl" using c g by (simp add: client_carries_def)
  have r: "client_read_of i ev = []" "client_data_of i ev = []" using ev by (simp_all add: client_read_of_def client_data_of_def)
  have "slot_carries i (evs @ [ev]) sl'" if g': "kget (ux_side ?y) i = Some sl'" for sl'
  proof (cases sl)
    case (Piped t)
    have "cn_open (side_st (sys_pipe t))" "cn_pending (side_st (sys_pipe t)) = []" "\<not> cn_tcp (side_st (sys_pipe t))"
      "\<not> cn_udp (side_st (sys_pipe t))"
      using si Piped by (auto simp: slot_in_def slot_wf_def conn_wf_def)
    then have "sl' = on_slot (\<lambda>c. c\<lparr>cn_open := True\<rparr>) sl"
      using g g' Piped by (simp add: on_stream_open_def kget_on_conn)
    then show ?thesis
      using sc Piped r by (simp add: slot_carries_def client_brought_snoc client_flow.carries_def pipe_writes_def)
  next
    case (Bare b)
    show ?thesis
    proof (cases "cn_udp b")
      case True
      have "i < k_next ?k" using si by (simp add: slot_in_def)
      then have "flow_kept sl sl'" using flow_open_udp [of x i b] True g g' Bare by (auto simp: flow_at_def)
      then show ?thesis using True Bare by (cases sl') (auto simp: flow_kept_def slot_carries_def)
    next
      case False
      have b: "cwire b = []" "cn_pending b = []" "client_reads i evs = []" "cn_tcp b \<Longrightarrow> \<not> opened_in i evs"
        using sc False Bare by (simp_all add: slot_carries_def)
      note o = open_bare_tcp [of x i b, OF g [unfolded Bare] False b(2) g']
      show ?thesis
      proof (cases "cn_tcp b")
        case False
        then show ?thesis using o b r by (simp add: slot_carries_def)
      next
        case True
        let ?s = "\<lparr>sys_pipe = new_pipe True (b\<lparr>cn_open := True, cn_tcp := False\<rparr>), wq = [], tcp_sys.dq = [], conn_req = False\<rparr>"
        have "client_flow.carries [] [] (sys_pipe (tcp_step (conn_side rc) ?s (e, EvAdopt)))" for rc e
          by (rule client_flow.carries_setup) (simp_all add: new_pipe_def b(1) sets_up_def, simp add: written_def)
        then show ?thesis
          using o True b r ev client_brought_none [of i evs]
          by (auto simp: slot_carries_def client_brought_snoc)
      qed
    qed
  qed
  moreover have "k_next (ux_side ?y) = k_next ?k" by simp
  moreover have "i < k_next ?k" using si by (simp add: slot_in_def)
  ultimately show ?thesis using c cb by (auto simp: client_carries_def)
qed

section \<open>Every step\<close>

lemma client_carries_step:
  assumes c: "client_carries i evs (ux_side x)" and inv: "client_inv x" and en: "client_enabled x ev"
  shows "client_carries i (evs @ [ev]) (ux_side (client_step nm x ev))"
proof -
  obtain e v where ev: "ev = (e, v)" by (cases ev)
  define y where "y = in_core (\<lambda>k. k\<lparr>k_env := e\<rparr>) x"
  have y: "client_step nm x ev = client_do nm v y" by (simp add: client_step_def y_def ev)
  have cy: "client_carries i evs (ux_side y)" using c by (simp add: y_def client_carries_def kget_def)
  have s: "sound y" using client_inv_env [OF inv] by (simp add: y_def client_inv_def)
  then have wf: "core_but {} (ux_side y)" and f: "filed y" by (simp_all add: sound_def)
  have en: "client_enabled y (e, v)"
    using en ev by (cases v) (simp_all add: client_enabled_def Let_def kget_def y_def)
  have lt: "kget (ux_side y) j = Some sl \<Longrightarrow> j < k_next (ux_side y)" for j sl
    using core_but_get [OF wf] by (simp add: slot_in_def)
  note flow = client_carries_flow [OF cy, of _ ev]
  note d = client_do_def client_read_of_def client_data_of_def names_def ev
  show ?thesis
    unfolding y
  proof (cases v)
    case (CeOpen j)
    then show "client_carries i (evs @ [ev]) (ux_side (client_do nm v y))"
      using client_carries_open [OF cy s] en flow_stream_open_other [of j i y] flow
      by (cases "j = i") (simp_all add: d client_enabled_def)
  next
    case (CeData j bs)
    show "client_carries i (evs @ [ev]) (ux_side (client_do nm v y))"
    proof (cases "\<exists>s. j = i \<and> bs \<noteq> [] \<and> kget (ux_side y) i = Some (Piped s)")
      case True
      then obtain t where t: "j = i" "bs \<noteq> []" "kget (ux_side y) i = Some (Piped t)" by blast
      have "\<not> cn_udp (side_st (sys_pipe t))" using slot_piped [OF core_but_get [OF wf t(3)]] by simp
      then show ?thesis
        using client_carries_pipe [OF cy wf t(3), of "EvData bs" ev] CeData t
        by (simp add: d client_stream_data_cb_def)
    next
      case False
      have "flow_at i (ux_side y) (ux_side (client_stream_data_cb j bs y))"
      proof (cases "kget (ux_side y) j")
        case (Some sl)
        then show ?thesis using False flow_udp_data [OF f] flow_pipe_other [of j i]
          by (cases sl; cases "j = i") (auto simp: client_stream_data_cb_def pipe_event_bare)
      qed (simp add: client_stream_data_cb_def)
      then show ?thesis using flow CeData False by (auto simp: d)
    qed
  next
    case (CePipe j w)
    obtain t where t: "kget (ux_side y) j = Some (Piped t)" and w: "loop_tcp w"
      using en CePipe by (auto simp: client_enabled_def Let_def split: option.splits slot.splits)
    show "client_carries i (evs @ [ev]) (ux_side (client_do nm v y))"
    proof (cases "j = i")
      case True
      have "\<not> sets_up w" "data_of w = []"
        using w by (auto simp: loop_tcp_def sets_up_def data_of_def split: tcp_event.splits)
      then show ?thesis using client_carries_pipe [OF cy wf, of t w ev] t True CePipe by (simp add: d)
    next
      case False
      then show ?thesis using flow flow_pipe_other [of j i] CePipe by (simp add: d)
    qed
  qed (use en flow s in \<open>simp_all add: d client_enabled_def flow_owner flow_accept flow_recv flow_connect_cb
      flow_stream_close flow_drain_cb flow_destroy\<close>)
qed

lemma client_carries_trace:
  assumes "client_trace nm evs x"
  shows "client_carries i evs (ux_side x)"
proof -
  have "client_machine.trace nm evs x \<Longrightarrow> client_carries i evs (ux_side x)"
  proof (induction rule: client_machine.trace.induct)
    case (trace_nil x)
    then have "kget (ux_side x) i = None" by (auto simp: client_begin_def kget_def client_new_def new_udp_proxy_def kact_def Let_def split: option.split)
    then show ?case by (simp add: client_carries_def)
  next
    case (trace_snoc evs x ev)
    then show ?case using client_carries_step [OF _ client_machine.trace_inv] by blast
  qed
  then show ?thesis using assms unfolding client_trace_def by blast
qed

end
