(* ===== verification/Hs_Udp_Flow.thy ===== *)
theory Hs_Udp_Flow
  imports Hs_Client_Flow Hs_Server_Flow
begin

text \<open>
  What a UDP connection carries from an application of the client to the service of the
  server. The client may drop whole datagrams, before the stream is open or when its dial
  fails; what is on the stream is always a sequence of whole frames of datagrams the
  application sent, in their order. The server's pipe sends the datagrams of the frames.
\<close>

section \<open>The client's end\<close>

text \<open>The datagrams that have arrived from the address printed as \<open>a\<close>.\<close>

definition datagram_of :: "(u32 \<Rightarrow> string) \<Rightarrow> string \<Rightarrow> client_env \<times> client_event \<Rightarrow> byte list list" where
  "datagram_of nm a ev =
     (case snd ev of
        CeRecv nread buf (Some addr) partial \<Rightarrow>
          if client_key nm addr = a \<and> 0 \<le> nread \<and> \<not> partial then [take (nat nread) buf] else []
      | _ \<Rightarrow> [])"

definition datagrams :: "(u32 \<Rightarrow> string) \<Rightarrow> string \<Rightarrow> (client_env \<times> client_event) list \<Rightarrow> byte list list" where
  "datagrams nm a evs = concat (map (datagram_of nm a) evs)"

lemma datagrams_snoc [simp]: "datagrams nm a (evs @ [ev]) = datagrams nm a evs @ datagram_of nm a ev"
  by (simp add: datagrams_def)

text \<open>
  Whole frames on the stream, whole frames in the buffer, of some of the datagrams \<open>rs\<close>: what
  either end keeps of a UDP connection.
\<close>

definition frames_in :: "byte list list \<Rightarrow> byte list \<Rightarrow> byte list \<Rightarrow> bool" where
  "frames_in rs out kept \<longleftrightarrow>
     (\<exists>ds ps. out = concat (map frame ds) \<and> kept = concat (map frame ps) \<and> subseq (ds @ ps) rs)"

lemma frames_in_more: "frames_in rs out kept \<Longrightarrow> frames_in (rs @ qs) out kept"
  unfolding frames_in_def by (metis list_emb_prefix)

lemma frames_in_none [simp]: "frames_in rs [] []"
  unfolding frames_in_def by (intro exI [of _ "[]"]) simp

text \<open>The buffer is flushed, or thrown away.\<close>

lemma frames_in_flush:
  assumes "frames_in rs out kept"
  shows "frames_in rs (out @ kept) []" and "frames_in rs out []"
proof -
  obtain ds ps where d: "out = concat (map frame ds)" "kept = concat (map frame ps)" "subseq (ds @ ps) rs"
    using assms by (auto simp: frames_in_def)
  then show "frames_in rs (out @ kept) []"
    unfolding frames_in_def by (intro exI [of _ "ds @ ps"] exI [of _ "[]"]) simp
  have "subseq ds rs" using d(3) by (rule subseq_order.trans [rotated]) auto
  then show "frames_in rs out []" using d unfolding frames_in_def by (intro exI [of _ ds] exI [of _ "[]"]) simp
qed

text \<open>One more datagram is kept, or sent when nothing is kept.\<close>

lemma frames_in_add:
  assumes "frames_in rs out kept"
  shows "frames_in (rs @ [d]) out (kept @ frame d)"
    and "kept = [] \<Longrightarrow> frames_in (rs @ [d]) (out @ frame d) []"
proof -
  obtain ds ps where d: "out = concat (map frame ds)" "kept = concat (map frame ps)" "subseq (ds @ ps) rs"
    using assms by (auto simp: frames_in_def)
  have e: "subseq (ds @ ps @ [d]) (rs @ [d])" using list_emb_append_mono [OF d(3), of "[d]" "[d]"] by simp
  then show "frames_in (rs @ [d]) out (kept @ frame d)"
    using d unfolding frames_in_def by (intro exI [of _ ds] exI [of _ "ps @ [d]"]) simp
  show "frames_in (rs @ [d]) (out @ frame d) []" if "kept = []"
  proof -
    have "ps = []" using d(2) that by (cases ps) (auto simp: frame_def frame_header_def)
    then show ?thesis using d e unfolding frames_in_def by (intro exI [of _ "ds @ [d]"] exI [of _ "[]"]) simp
  qed
qed

definition framed :: "byte list list \<Rightarrow> client_conn \<Rightarrow> bool" where
  "framed rs c \<longleftrightarrow> frames_in rs (cwire c) (cn_pending c)"

definition udp_framed :: "(string \<Rightarrow> byte list list) \<Rightarrow> client_core \<Rightarrow> bool" where
  "udp_framed R k \<longleftrightarrow> (\<forall>i c. kget k i = Some (Bare c) \<and> cn_udp c \<longrightarrow> framed (R (cn_client_id c)) c)"

lemma framed_more: "framed rs c \<Longrightarrow> framed (rs @ qs) c"
  unfolding framed_def by (rule frames_in_more)

lemma framed_fresh: "cwire c = [] \<Longrightarrow> cn_pending c = [] \<Longrightarrow> framed rs c"
  by (simp add: framed_def)

lemma framed_flushed:
  "framed rs c \<Longrightarrow> cwire c' = cwire c @ (if rc < (0 :: int) then [] else cn_pending c) \<Longrightarrow> cn_pending c' = [] \<Longrightarrow>
    framed rs c'"
  by (simp add: framed_def frames_in_flush)

lemma framed_write:
  assumes "framed rs c" and "cn_open c \<Longrightarrow> cn_pending c = []"
  shows "framed (rs @ [d]) (fst (conn_write rc c (frame d) n))"
proof -
  have i: "frames_in rs (cwire c) (cn_pending c)" using assms(1) by (simp add: framed_def)
  have "framed (rs @ [d]) (ccalled (CWrite (frame d) rc) c)" if "cn_pending c = []"
    using frames_in_add(2) [OF i that] frames_in_more [OF i] that by (simp add: framed_def)
  moreover have "cwire (c\<lparr>cn_pending := bs\<rparr>) = cwire c" for bs by (simp add: cwire_def)
  ultimately show ?thesis
    using assms(2) framed_more [OF assms(1)] frames_in_add(1) [OF i] by (auto simp: conn_write_def framed_def)
qed

text \<open>The operations.\<close>

lemma udp_framed_same: "k_conns k' = k_conns k \<Longrightarrow> udp_framed R k \<Longrightarrow> udp_framed R k'"
  by (simp add: udp_framed_def kget_def)

definition quiet_op :: "(client_conn \<Rightarrow> client_conn) \<Rightarrow> bool" where
  "quiet_op f \<longleftrightarrow> (\<forall>c. cn_udp (f c) = cn_udp c \<and> cn_client_id (f c) = cn_client_id c \<and> cwire (f c) = cwire c \<and>
     cn_pending (f c) = cn_pending c)"

lemma quiet_ops [simp]: "quiet_op conn_pause" "quiet_op conn_resume" "quiet_op conn_close" "quiet_op (ccalled CClose)"
  "quiet_op (\<lambda>c. c\<lparr>cn_tcp := b\<rparr>)" "quiet_op (\<lambda>c. c\<lparr>cn_connect_pending := b\<rparr>)" "quiet_op (\<lambda>c. c\<lparr>cn_stream := b\<rparr>)"
  "quiet_op (\<lambda>c. c\<lparr>cn_closed := b, cn_stream := b'\<rparr>)" "quiet_op (\<lambda>c. c\<lparr>cn_open := b\<rparr>)"
  by (auto simp: quiet_op_def conn_pause_def conn_resume_def conn_close_def cwire_def ccalled_sel)

lemma udp_framed_on:
  assumes "udp_framed R k"
    and "\<And>c. kget k j = Some (Bare c) \<Longrightarrow> cn_udp (f c) \<Longrightarrow> cn_udp c \<Longrightarrow> framed (R (cn_client_id c)) c \<Longrightarrow>
      framed (R (cn_client_id (f c))) (f c)"
    and "\<And>c. cn_udp (f c) = cn_udp c"
  shows "udp_framed R (on_conn j f k)"
  unfolding udp_framed_def
proof (intro allI impI, elim conjE)
  fix i c' assume g: "kget (on_conn j f k) i = Some (Bare c')" "cn_udp c'"
  show "framed (R (cn_client_id c')) c'"
  proof (cases "i = j")
    case True
    then obtain sl where sl: "kget k j = Some sl" "on_slot f sl = Bare c'" using g by (auto simp: kget_on_conn)
    then obtain c where c: "kget k j = Some (Bare c)" "c' = f c" by (cases sl) auto
    then have "framed (R (cn_client_id c)) c" using assms(1,3) g by (simp add: udp_framed_def)
    then show ?thesis using assms(2) [OF c(1)] assms(3) c g by simp
  next
    case False
    then show ?thesis using assms(1) g by (simp add: udp_framed_def kget_on_conn)
  qed
qed

lemma udp_framed_ops:
  "udp_framed R k \<Longrightarrow> quiet_op f \<Longrightarrow> udp_framed R (on_conn j f k)" "udp_framed R k \<Longrightarrow> udp_framed R (reap j k)"
  "udp_framed R k \<Longrightarrow> udp_framed R (kact a k)" "udp_framed R k \<Longrightarrow> udp_framed R (pipe_event v j k)"
  "udp_framed R k \<Longrightarrow> udp_framed R (k\<lparr>k_dials := ds\<rparr>)" "udp_framed R k \<Longrightarrow> udp_framed R (k\<lparr>k_streams := ds\<rparr>)"
  "udp_framed R k \<Longrightarrow> udp_framed R (k\<lparr>k_state := st\<rparr>)" "udp_framed R k \<Longrightarrow> udp_framed R (kput j (Piped s) k)"
proof -
  assume k: "udp_framed R k"
  show "quiet_op f \<Longrightarrow> udp_framed R (on_conn j f k)"
    by (rule udp_framed_on [OF k]) (auto simp: quiet_op_def framed_def)
  show r: "udp_framed R (reap j k)" using k by (auto simp: udp_framed_def kget_reap)
  have p: "udp_framed R (kput j (Piped s) k)" for s using k by (auto simp: udp_framed_def kget_kput)
  then show "udp_framed R (kput j (Piped s) k)" .
  have rp: "udp_framed R (reap j (kput j (Piped s) k))" for s
    using p [of s] by (auto simp: udp_framed_def kget_reap)
  show "udp_framed R (pipe_event v j k)"
    using k p rp by (simp add: pipe_event_def Let_def split: option.split slot.split)
qed (simp_all add: udp_framed_def kget_def)

lemma udp_framed_shutdown: "udp_framed R k \<Longrightarrow> udp_framed R (shutdown_core j k)"
  by (simp add: shutdown_core_def Let_def udp_framed_ops split: option.split)

lemmas udp_framed_rules = udp_framed_ops udp_framed_shutdown

lemma udp_framed_mono: "udp_framed R k \<Longrightarrow> (\<And>a. \<exists>qs. R' a = R a @ qs) \<Longrightarrow> udp_framed R' k"
  unfolding udp_framed_def by (metis framed_more)

section \<open>The client's callbacks\<close>

lemma udp_framed_stream_open:
  assumes u: "udp_framed R (ux_side x)" and i: "kget (ux_side x) i = Some sl"
  shows "udp_framed R (ux_side (on_stream_open i x))"
proof -
  let ?b = "cn_pending (slot_conn sl)" and ?rc = "ke_write (k_env (ux_side x))" and ?k = "ux_side x"
  have o: "udp_framed R (on_conn i (opened ?b ?rc) ?k)"
  proof (rule udp_framed_on [OF u])
    fix c assume c: "kget ?k i = Some (Bare c)" "framed (R (cn_client_id c)) c"
    then have sl: "slot_conn sl = c" using i by simp
    have "cwire (opened (cn_pending c) ?rc c) = cwire c @ (if ?rc < 0 then [] else cn_pending c)"
      by (simp add: opened_def)
    from framed_flushed [OF c(2) this opened_pending]
    have "framed (R (cn_client_id c)) (opened ?b ?rc c)" by (simp add: sl)
    then show "framed (R (cn_client_id (opened ?b ?rc c))) (opened ?b ?rc c)" by simp
  qed simp
  define z where "z = in_core (on_conn i (opened ?b ?rc)) x"
  have two: "(if ?b = [] then in_core (on_conn i (\<lambda>c. c\<lparr>cn_open := True\<rparr>)) x
      else in_core (on_conn i (\<lambda>c. ccalled (CWrite ?b ?rc) (c\<lparr>cn_pending := []\<rparr>)))
        (in_core (on_conn i (\<lambda>c. c\<lparr>cn_open := True\<rparr>)) x)) = z"
    unfolding z_def by (simp add: in_core_def on_conn_comp opened_def [abs_def])
  have z: "udp_framed R (ux_side z)" "kget (ux_side z) i = Some (on_slot (opened ?b ?rc) sl)"
    using o i by (simp_all add: z_def kget_on_conn)
  then have p: "udp_framed R (pipe_event EvAdopt i (kput i (Piped s) (ux_side z)))"
    "udp_framed R (shutdown_core i (pipe_event EvAdopt i (kput i (Piped s) (ux_side z))))"
    "udp_framed R (shutdown_core i (ux_side z))" for s
    by (simp_all only: udp_framed_rules)
  show ?thesis
    unfolding on_stream_open_def i option.case Let_def two z(2) using z(1) p by simp
qed

lemma udp_framed_connect_cb:
  "udp_framed R (ux_side x) \<Longrightarrow> udp_framed R (ux_side (client_connect_cb j err conn op x))"
  by (simp add: client_connect_cb_def Let_def udp_framed_rules split: option.split)

lemma udp_framed_stream_close:
  "udp_framed R (ux_side x) \<Longrightarrow> udp_framed R (ux_side (client_stream_close_cb j x))"
  by (simp add: client_stream_close_cb_def Let_def udp_framed_rules split: option.split slot.split)

lemma udp_framed_udp_data:
  assumes "filed x" and "udp_framed R (ux_side x)"
  shows "udp_framed R (ux_side (uproxy_on_stream_data e a data x))"
proof (cases "ux_clients x a")
  case (Some c)
  obtain ok buf ds where r: "decoder_push (uc_buf c) data = (ok, buf, ds)"
    by (cases "decoder_push (uc_buf c) data")
  obtain j where "uc_stream c = udp_side j" using filed_get [OF assms(1) Some] by auto
  then show ?thesis using Some r assms(2)
    by (simp add: uproxy_on_stream_data_def Let_def uproxy_drop_def call_def uxemit_def udp_framed_rules)
qed (use assms(2) in \<open>simp add: uproxy_on_stream_data_def\<close>)

lemma udp_framed_stream_data:
  "filed x \<Longrightarrow> udp_framed R (ux_side x) \<Longrightarrow> udp_framed R (ux_side (client_stream_data_cb j data x))"
  by (simp add: client_stream_data_cb_def udp_framed_udp_data udp_framed_rules split: option.split)

lemma udp_framed_dial:
  assumes "core_but {} k" and "k_next k \<noteq> -1" and "udp_framed R k"
  shows "udp_framed R (fst (dial u a k))"
  unfolding udp_framed_def
proof (intro allI impI, elim conjE)
  fix i c assume g: "kget (fst (dial u a k)) i = Some (Bare c)" "cn_udp c"
  then show "framed (R (cn_client_id c)) c"
    using assms(3) dial_slot [OF assms(1,2), of u a] dial_others [OF assms(1,2), of i u a]
    by (cases "i = k_next k") (auto simp: udp_framed_def intro!: framed_fresh, simp add: new_client_conn_def)
qed

text \<open>A datagram arrives: the one place where the datagrams grow.\<close>

lemma udp_framed_write:
  assumes "sound x" and c: "ux_clients x a = Some c" and u: "udp_framed R (ux_side x)"
    and R': "R' a = R a @ [d]" "\<And>b. \<exists>qs. R' b = R b @ qs"
  shows "udp_framed R' (ux_side (uproxy_write a c d x))"
proof -
  let ?k = "ux_side x"
  have f: "filed x" and wf: "core_but {} ?k" using assms(1) by (simp_all add: sound_def)
  obtain j where j: "uc_stream c = udp_side j" "udp_live ?k j a" using filed_get [OF f c] by auto
  let ?f = "\<lambda>c. fst (conn_write (ke_write (k_env ?k)) c (frame d) None)"
  obtain st rc where r: "client_side_write j ?k (frame d) None = (st, rc)"
    by (cases "client_side_write j ?k (frame d) None")
  have "udp_framed R' (on_conn j ?f ?k)"
  proof (rule udp_framed_on [OF udp_framed_mono [OF u R'(2)]])
    fix b assume b: "kget ?k j = Some (Bare b)" "cn_udp b"
    have "cn_open b \<Longrightarrow> cn_pending b = []"
      using core_but_get [OF wf b(1)] by (simp add: slot_in_def slot_wf_def conn_wf_def)
    moreover have "framed (R (cn_client_id b)) b" using u b by (simp add: udp_framed_def)
    moreover have "cn_client_id b = a" using j(2) b by (simp add: udp_live_def)
    ultimately have "framed (R' (cn_client_id b)) (?f b)" using framed_write R'(1) by simp
    moreover have "cn_client_id (?f b) = cn_client_id b" by (simp add: conn_write_def)
    ultimately show "framed (R' (cn_client_id (?f b))) (?f b)" by (simp only:)
  qed (simp add: conn_write_def)
  then have "udp_framed R' st" using side_write_conn [of j ?k "frame d" None] r by simp
  then show ?thesis using j(1) r
    by (simp add: uproxy_write_def uproxy_drop_def uxemit_def call_def Let_def udp_framed_rules)
qed

lemma udp_framed_client:
  assumes "sound x" and "k_next (ux_side x) \<noteq> -1" and "udp_framed R (ux_side x)"
  shows "udp_framed R (ux_side (fst (uproxy_client nm addr x)))"
proof -
  have o: "ux_open x = None \<or> ux_open x = Some open_udp_stream" using assms(1) by (simp add: sound_def filed_def)
  have "udp_framed R (fst (open_udp_stream (ux_side x) a))" for a
    using udp_framed_dial [of "ux_side x" R True a] assms
    by (simp add: open_udp_stream_dial sound_def split: prod.split) (metis fst_conv)
  then show ?thesis
    using o assms(3) by (auto simp: uproxy_client_def uxemit_def Let_def split: option.split prod.split) (metis fst_conv)+
qed

lemma udp_framed_recv:
  assumes s: "sound x" and nx: "k_next (ux_side x) \<noteq> -1" and u: "udp_framed R (ux_side x)"
    and R': "\<And>a. R' a = R a @ datagram_of nm a (ke, CeRecv nread buf addr partial)"
  shows "udp_framed R' (ux_side (uproxy_recv_cb e nm nread buf addr partial x))"
proof -
  have u': "udp_framed R' (ux_side x)" by (rule udp_framed_mono [OF u]) (use R' in auto)
  show ?thesis
  proof (cases "\<exists>a. ux_sock x \<and> \<not> is_end_of_pass nread addr \<and> 0 \<le> nread \<and> addr = Some a \<and> \<not> partial")
    case False
    then have "ux_side (uproxy_recv_cb e nm nread buf addr partial x) = ux_side x"
      by (auto simp: uproxy_recv_cb_def uxemit_def split: option.split)
    then show ?thesis using u' by simp
  next
    case True
    then obtain a where a: "ux_sock x" "\<not> is_end_of_pass nread addr" "0 \<le> nread" "addr = Some a" "\<not> partial" by blast
    obtain y oc where y: "uproxy_client nm a x = (y, oc)" by (cases "uproxy_client nm a x")
    have sy: "sound y" using sound_uproxy_client(1) [OF s nx a(1), of nm a] y by simp
    have uy: "udp_framed R (ux_side y)" using udp_framed_client [OF s nx u, of nm a] y by simp
    have c: "oc = Some c \<Longrightarrow> ux_clients y (client_key nm a) = Some c" for c
      using flow_uproxy_client(2) [OF s nx, of nm a] y by simp
    have "udp_framed R' (ux_side y)" by (rule udp_framed_mono [OF uy]) (use R' in auto)
    moreover have "udp_framed R' (ux_side (uproxy_write (client_key nm a) b (take (nat nread) buf) y))" if "oc = Some b" for b
      by (rule udp_framed_write [OF sy c [OF that] uy]) (use R' a in \<open>auto simp: datagram_of_def\<close>)
    ultimately show ?thesis
      using a y by (auto simp: uproxy_recv_cb_def split: option.split)
  qed
qed

section \<open>Every step of the client\<close>

lemma udp_framed_fold: "udp_framed R (ux_side x) \<Longrightarrow> udp_framed R (ux_side (fold shutdown_conn is x))"
  by (induction "is" rule: rev_induct) (simp_all add: udp_framed_rules)

lemma udp_framed_destroy:
  assumes "udp_framed R (ux_side x)"
  shows "udp_framed R (ux_side (client_destroy x))"
proof (cases "k_destroyed (ux_side x)")
  case False
  let ?x1 = "in_core (\<lambda>k. k\<lparr>k_destroyed := True\<rparr>) x"
  obtain f where f: "cancel_query ?x1 = in_core f ?x1"
    "\<And>k. k_conns (f k) = k_conns k \<and> k_next (f k) = k_next k"
    using cancel_query_destroyed [of ?x1] by auto
  let ?x2 = "uproxy_close (in_core (\<lambda>k. k\<lparr>k_tcp_proxy := proxy_close (k_tcp_proxy k)\<rparr>) (in_core f ?x1))"
  have "k_conns (ux_side ?x2) = k_conns (ux_side x)" using f(2) by simp
  then have "udp_framed R (ux_side ?x2)" using assms by (rule udp_framed_same)
  then have "udp_framed R (ux_side (fold shutdown_conn js ?x2))" for js by (rule udp_framed_fold)
  then have "udp_framed R (ux_side (in_core (\<lambda>k. kact a (k\<lparr>k_state := st\<rparr>)) (fold shutdown_conn js ?x2)))" for js a st
    by (simp add: udp_framed_rules del: in_core_comp)
  then show ?thesis using False by (simp only: client_destroy_def Let_def f(1) if_False)
qed (use assms in \<open>simp add: client_destroy_def\<close>)

lemma udp_framed_step:
  assumes u: "udp_framed (\<lambda>a. datagrams nm a evs) (ux_side x)" and inv: "client_inv x" and en: "client_enabled x ev"
  shows "udp_framed (\<lambda>a. datagrams nm a (evs @ [ev])) (ux_side (client_step nm x ev))"
proof -
  obtain e v where ev: "ev = (e, v)" by (cases ev)
  define y where "y = in_core (\<lambda>k. k\<lparr>k_env := e\<rparr>) x"
  let ?R = "\<lambda>a. datagrams nm a (evs @ [ev])"
  have y: "client_step nm x ev = client_do nm v y" by (simp add: client_step_def y_def ev)
  have uy: "udp_framed (\<lambda>a. datagrams nm a evs) (ux_side y)" using u by (simp add: y_def udp_framed_def kget_def)
  then have u': "udp_framed ?R (ux_side y)" by (rule udp_framed_mono) simp
  have s: "sound y" using client_inv_env [OF inv] by (simp add: y_def client_inv_def)
  then have wf: "core_but {} (ux_side y)" and f: "filed y" by (simp_all add: sound_def)
  have nx: "k_next (ux_side y) = k_next (ux_side x)" by (simp add: y_def)
  have same: "udp_framed ?R k" if "k_conns k = k_conns (ux_side y)" for k
    using u' that by (simp only: udp_framed_same)
  show ?thesis
    unfolding y
  proof (cases v)
    case (CeRecv n buf a p)
    then show "udp_framed ?R (ux_side (client_do nm v y))"
      using udp_framed_recv [OF s _ uy, of ?R nm e n buf a p "ke_udp (k_env (ux_side y))"] en ev nx
      by (simp add: client_do_def client_enabled_def)
  next
    case (CeAccept a b c)
    then have "udp_framed ?R (fst (dial False [] (ux_side y)))"
      using en ev nx by (intro udp_framed_dial [OF wf _ u']) (simp add: client_enabled_def)
    then show "udp_framed ?R (ux_side (client_do nm v y))"
      using CeAccept u' by (simp add: client_do_def on_local_connection_dial udp_framed_rules)
  next
    case (CeOpen i)
    then show "udp_framed ?R (ux_side (client_do nm v y))"
      using u' udp_framed_stream_open [OF u', of i]
      by (auto simp: client_do_def client_stream_open_cb_def split: option.split)
  next
    case (CeConnect b)
    have "k_conns (ux_side (fst (client_connect b y))) = k_conns (ux_side y)" by (simp add: client_connect_def Let_def)
    then show "udp_framed ?R (ux_side (client_do nm v y))" using CeConnect same by (simp add: client_do_def)
  next
    case CeDone
    have "k_conns (ux_side (mutable_done_cb y)) = k_conns (ux_side y)" by (simp add: mutable_done_cb_def Let_def)
    then show "udp_framed ?R (ux_side (client_do nm v y))" using CeDone same by (simp add: client_do_def)
  qed (use u' f same in \<open>simp_all add: client_do_def udp_framed_connect_cb udp_framed_stream_close udp_framed_stream_data
      udp_framed_destroy udp_framed_rules client_drain_cb_def client_pause_def client_resume_def split: option.split\<close>)
qed

lemma udp_framed_trace:
  assumes "client_trace nm evs x"
  shows "udp_framed (\<lambda>a. datagrams nm a evs) (ux_side x)"
proof -
  have "client_machine.trace nm evs x \<Longrightarrow> udp_framed (\<lambda>a. datagrams nm a evs) (ux_side x)"
  proof (induction rule: client_machine.trace.induct)
    case (trace_nil x)
    then have "kget (ux_side x) i = None" for i
      by (auto simp: client_begin_def kget_def client_new_def new_udp_proxy_def kact_def Let_def split: option.split)
    then show ?case by (simp add: udp_framed_def)
  next
    case (trace_snoc evs x ev)
    then show ?case using udp_framed_step [OF _ client_machine.trace_inv] by blast
  qed
  then show ?thesis using assms unfolding client_trace_def by blast
qed

section \<open>The server's end\<close>

definition udp_up :: "'s udp_pipe \<Rightarrow> bool" where
  "udp_up p \<longleftrightarrow> \<not> u_destroyed p \<and> u_sock p \<noteq> None"

text \<open>
  The pipe has sent, to its one destination, the payloads of the frames in what the stream has
  brought; a pipe that is over, of a beginning of it.
\<close>

definition udp_carries :: "byte list \<Rightarrow> 's udp_pipe \<Rightarrow> bool" where
  "udp_carries B p \<longleftrightarrow>
     (\<exists>B1 ok r ds. prefix B1 B \<and> deframe B1 = (ok, r, ds) \<and> sends_of (u_acts p) = map (Pair (u_local p)) ds \<and>
        (udp_up p \<longrightarrow> B1 = B \<and> ok \<and> r = u_buf p))"

definition udp_same :: "'s udp_pipe \<Rightarrow> 's udp_pipe \<Rightarrow> bool" where
  "udp_same p q \<longleftrightarrow> sends_of (u_acts q) = sends_of (u_acts p) \<and> u_local q = u_local p \<and> u_buf q = u_buf p \<and>
     (udp_up q \<longrightarrow> udp_up p)"

lemma udp_carries_same: "udp_carries B p \<Longrightarrow> udp_same p q \<Longrightarrow> udp_carries B q"
  unfolding udp_carries_def udp_same_def by metis

lemma udp_same_rules: "udp_same p p" "udp_same p q \<Longrightarrow> udp_same p (q\<lparr>u_side := st\<rparr>)"
  "udp_same p q \<Longrightarrow> udp_same p (uemit (ULog lv m) q)" "udp_same p q \<Longrightarrow> udp_same p (udp_destroy sd q)"
  "udp_same p q \<Longrightarrow> udp_same p (udp_closed_cb sd q)"
  by (simp_all add: udp_same_def udp_up_def uemit_def)
    (simp_all add: udp_closed_cb_def udp_fire_def uemit_def Let_def)

lemma udp_carries_none: "\<not> udp_up p \<Longrightarrow> udp_carries B p \<Longrightarrow> udp_carries (B @ C) p"
  unfolding udp_carries_def by (metis prefix_append)

lemma udp_carries_data:
  assumes "udp_carries B p"
  shows "udp_carries (B @ data) (udp_on_stream_data e sd data p)"
proof (cases "udp_up p \<and> data \<noteq> []")
  case False
  then have "udp_on_stream_data e sd data p = p" by (auto simp: udp_on_stream_data_def udp_up_def)
  then show ?thesis using assms False udp_carries_none [OF _ assms] by auto
next
  case True
  obtain ds where d: "deframe B = (True, u_buf p, ds)" "sends_of (u_acts p) = map (Pair (u_local p)) ds"
    using assms True by (auto simp: udp_carries_def)
  obtain ok r gs where g: "decoder_push (u_buf p) data = (ok, r, gs)" by (cases "decoder_push (u_buf p) data")
  have B: "deframe (B @ data) = (ok, r, ds @ gs)"
    using deframe_append [OF d(1), of data] g by (simp add: decoder_push_deframe)
  let ?q = "p\<lparr>u_buf := r, u_acts := send_all e (u_local p) gs (u_acts p)\<rparr>"
  have q: "udp_on_stream_data e sd data p =
      (if ok then ?q else udp_destroy sd (uemit (ULog Error ''Oversized UDP frame from peer, destroying stream'') ?q))"
    using True g by (auto simp: udp_on_stream_data_def udp_up_def Let_def)
  have s: "sends_of (u_acts ?q) = map (Pair (u_local p)) (ds @ gs)" using d(2) by (simp add: send_all_trace)
  show ?thesis
  proof (cases ok)
    case ok: True
    then show ?thesis using B s q unfolding udp_carries_def by (intro exI [of _ "B @ data"] exI [of _ True] exI [of _ r] exI [of _ "ds @ gs"]) simp
  next
    case False
    have "\<not> udp_up (udp_destroy sd (uemit (ULog lv m) ?q))" for lv m by (simp add: udp_up_def)
    moreover have "sends_of (u_acts (udp_destroy sd (uemit (ULog lv m) ?q))) = map (Pair (u_local p)) (ds @ gs)" for lv m
      using s by (simp add: uemit_def)
    ultimately show ?thesis using B q False unfolding udp_carries_def
      by (intro exI [of _ "B @ data"] exI [of _ ok] exI [of _ r] exI [of _ "ds @ gs"]) (simp add: uemit_def)
  qed
qed

lemma udp_carries_conn:
  assumes c: "udp_carries (conn_brought evs) p" and en: "conn_enabled (UdpBridge p) ev"
  shows "\<exists>q. conn_step (UdpBridge p) ev = UdpBridge q \<and> udp_carries (conn_brought (evs @ [ev])) q"
proof -
  obtain e v where ev: "ev = (e, v)" by (cases ev)
  note d = conn_step_def conn_data_of_def ev
  note same = udp_carries_same [OF c]
  show ?thesis
  proof (cases v)
    case (ConnUdp w)
    have "udp_same p (udp_step (make_side (ce_write e)) p (ce_udp e, w))"
      using en ev ConnUdp
      by (cases w) (simp_all add: conn_enabled_def loop_udp_def udp_step_def udp_recv_cb_def Let_def udp_same_rules
          split: option.split prod.split)
    then show ?thesis using ConnUdp same by (simp add: d)
  next
    case (ConnTcp w)
    then show ?thesis using en ev by (simp add: conn_enabled_def)
  next
    case ConnOpen
    have "\<exists>st. stream_open_cb e (UdpBridge p) = UdpBridge (p\<lparr>u_side := st\<rparr>)"
      by (simp add: stream_open_cb_def map_conn_def conn_of_def fold_drains_udp Let_def) blast
    then obtain st where "stream_open_cb e (UdpBridge p) = UdpBridge (p\<lparr>u_side := st\<rparr>)" by blast
    then show ?thesis using ConnOpen same by (simp add: d udp_same_rules)
  next
    case (ConnData bs)
    then show ?thesis using udp_carries_data [OF c] by (simp add: d stream_data_cb_def udp_step_def)
  next
    case ConnClose
    then show ?thesis
      using same by (simp add: d stream_close_cb_def map_conn_def udp_step_def udp_on_stream_close_def udp_same_rules Let_def)
  next
    case (ConnDrain n)
    then show ?thesis using same by (simp add: d drain_cb_def map_conn_def fire_drain_def udp_same_rules)
  next
    case ConnDestroy
    then show ?thesis using same by (simp add: d bridge_destroy_def udp_step_def udp_same_rules)
  qed
qed

lemma udp_carries_begin:
  assumes "conn_begin (UdpBridge p)"
  shows "udp_carries [] p"
proof -
  obtain e udp h pt where "UdpBridge p = accept_bridge e udp h pt" using assms by (auto simp: conn_begin_def)
  then have p: "p = fst (udp_start (ce_udp e) (make_side (ce_write e)) h pt (new_udp_pipe True new_srv_conn))"
    by (simp add: accept_bridge_def udp_step_def split: if_splits)
  have "sends_of (u_acts p) = []" "u_buf p = []"
    unfolding p by (simp_all add: udp_start_def new_udp_pipe_def uemit_def Let_def split: prod.split)
  then show ?thesis unfolding udp_carries_def by (intro exI [of _ "[]"] exI [of _ True]) (simp add: deframe_short)
qed

lemma udp_carries_trace:
  assumes "conn_trace fs (UdpBridge p)"
  shows "udp_carries (conn_brought fs) p"
proof -
  have "conn_machine.trace fs b \<Longrightarrow> \<forall>p. b = UdpBridge p \<longrightarrow> udp_carries (conn_brought fs) p" for b
  proof (induction rule: conn_machine.trace.induct)
    case (trace_nil b)
    then show ?case using udp_carries_begin by (auto simp: conn_run_simps)
  next
    case (trace_snoc evs b ev)
    show ?case
    proof (intro impI allI)
      fix q assume q: "conn_step b ev = UdpBridge q"
      then obtain p where b: "b = UdpBridge p" using conn_step_tcp [of _ ev] by (cases b) (auto, metis bridge.distinct(1))
      then show "udp_carries (conn_brought (evs @ [ev])) q"
        using udp_carries_conn [of evs p ev] trace_snoc q by auto
    qed
  qed
  then show ?thesis using assms unfolding conn_trace_def by blast
qed

text \<open>A beginning of a sequence of frames holds a beginning of their payloads.\<close>

lemma deframe_prefix:
  assumes "prefix B (concat (map frame ds))" and "list_all (\<lambda>d. length d \<le> kMaxDatagram) ds"
    and "deframe B = (ok, r, gs)"
  shows "prefix gs ds" and "B = concat (map frame ds) \<Longrightarrow> gs = ds"
proof -
  obtain C where C: "concat (map frame ds) = B @ C" using assms(1) by (auto simp: prefix_def)
  have all: "deframe (B @ C) = (True, [], ds)"
    using framing.push_encs [OF assms(2)] by (simp add: decoder_push_deframe C)
  then show "prefix gs ds"
    using deframe_append [OF assms(3), of C] by (auto split: if_splits prod.splits)
  show "B = concat (map frame ds) \<Longrightarrow> gs = ds" using all assms(3) C by simp
qed

end
