(* ===== verification/Hs_Udp_Reply.thy ===== *)
theory Hs_Udp_Reply
  imports Hs_Udp_Flow
begin

text \<open>
  The way back of a UDP connection, from the service of the server to an application of the
  client. The server's pipe frames the datagrams the service sends; the client's proxy decodes
  the streams of all its applications, each into its own buffer, and sends what it decodes to
  the application whose stream it is.
\<close>

section \<open>The server's end\<close>

text \<open>The datagrams that have arrived from the service.\<close>

definition reply_of :: "conn_env \<times> conn_event \<Rightarrow> byte list list" where
  "reply_of ev =
     (case snd ev of
        ConnUdp v \<Rightarrow>
          (case v of
             UEvRecv nread buf addr partial \<Rightarrow>
               if addr \<noteq> None \<and> 0 \<le> nread \<and> \<not> partial then [take (nat nread) buf] else []
           | _ \<Rightarrow> [])
      | _ \<Rightarrow> [])"

definition replies :: "(conn_env \<times> conn_event) list \<Rightarrow> byte list list" where
  "replies fs = concat (map reply_of fs)"

lemma replies_snoc [simp]: "replies (fs @ [ev]) = replies fs @ reply_of ev"
  by (simp add: replies_def)

definition reply_framed :: "byte list list \<Rightarrow> srv_conn \<Rightarrow> bool" where
  "reply_framed rs c \<longleftrightarrow> frames_in rs (wire c) (co_pending c)"

lemma reply_framed_more: "reply_framed rs c \<Longrightarrow> reply_framed (rs @ qs) c"
  unfolding reply_framed_def by (rule frames_in_more)

definition hushed :: "srv_conn \<Rightarrow> srv_conn \<Rightarrow> bool" where
  "hushed c d \<longleftrightarrow> wire d = wire c \<and> co_pending d = co_pending c"

lemma reply_framed_hushed: "hushed c d \<Longrightarrow> reply_framed rs c \<Longrightarrow> reply_framed rs d"
  by (simp add: hushed_def reply_framed_def)

lemma hushed_rules: "hushed c c" "hushed c d \<Longrightarrow> hushed c (d\<lparr>co_ref_b := b\<rparr>)" "hushed c d \<Longrightarrow> hushed c (d\<lparr>co_ref_a := b\<rparr>)"
  "hushed c d \<Longrightarrow> hushed c (d\<lparr>co_stream := b\<rparr>)" "hushed c d \<Longrightarrow> hushed c (d\<lparr>co_drains := ns\<rparr>)"
  "hushed c d \<Longrightarrow> hushed c (scalled SClose d)"
  by (simp_all add: hushed_def)

lemma hushed_destroy: "hushed c (u_side p) \<Longrightarrow> hushed c (u_side (udp_destroy (make_side rc) p))"
  by (simp add: udp_destroy_def udp_fire_def uemit_def call_def Let_def hushed_rules)

lemma hushed_closed: "hushed c (u_side p) \<Longrightarrow> hushed c (u_side (udp_closed_cb (make_side rc) p))"
  by (simp add: udp_closed_cb_def udp_fire_def uemit_def Let_def hushed_rules)

lemma hushed_data: "hushed (u_side p) (u_side (udp_on_stream_data e (make_side rc) data p))"
  by (simp add: udp_on_stream_data_def uemit_def Let_def hushed_destroy hushed_rules split: prod.split)

lemma hushed_start: "hushed (u_side p) (u_side (fst (udp_start e (make_side rc) h pt p)))"
  by (simp add: udp_start_def uemit_def Let_def hushed_destroy hushed_rules split: prod.split)

lemma reply_framed_write:
  assumes "reply_framed rs c" and "co_open c \<Longrightarrow> co_pending c = []"
  shows "reply_framed (rs @ [d]) (fst (side_write rc c (frame d) None))"
proof -
  have i: "frames_in rs (wire c) (co_pending c)" using assms(1) by (simp add: reply_framed_def)
  have "reply_framed (rs @ [d]) (scalled (SWrite (frame d) rc) c)" if "co_pending c = []"
    using frames_in_add(2) [OF i that] frames_in_more [OF i] that by (simp add: reply_framed_def)
  then show ?thesis
    using assms(2) reply_framed_more [OF assms(1)] frames_in_add(1) [OF i]
    by (auto simp: side_write_def reply_framed_def)
qed

lemma reply_framed_recv:
  assumes f: "reply_framed rs (u_side p)" and "co_open (u_side p) \<Longrightarrow> co_pending (u_side p) = []"
  shows "reply_framed (rs @ reply_of (ke, ConnUdp (UEvRecv nread buf addr partial)))
    (u_side (udp_recv_cb e (make_side rc) nread buf addr partial p))"
proof (cases "\<not> u_destroyed p \<and> addr \<noteq> None \<and> 0 \<le> nread \<and> \<not> partial")
  case False
  then have "hushed (u_side p) (u_side (udp_recv_cb e (make_side rc) nread buf addr partial p))"
    by (auto simp: udp_recv_cb_def uemit_def hushed_destroy hushed_rules)
  then show ?thesis using f by (intro reply_framed_more) (rule reply_framed_hushed)
next
  case True
  obtain st r where w: "side_write rc (u_side p) (frame (take (nat nread) buf)) None = (st, r)"
    by (cases "side_write rc (u_side p) (frame (take (nat nread) buf)) None")
  then have "reply_framed (rs @ [take (nat nread) buf]) st"
    using reply_framed_write [OF assms, of "take (nat nread) buf" rc] by simp
  moreover have "hushed st (u_side (udp_destroy (make_side rc) (p\<lparr>u_side := st\<rparr>)))" by (rule hushed_destroy) (simp add: hushed_rules)
  ultimately show ?thesis
    using True w reply_framed_hushed by (auto simp: udp_recv_cb_def reply_of_def is_end_of_pass_def Let_def)
qed

lemma reply_framed_open:
  assumes "reply_framed rs (u_side p)"
  shows "reply_framed rs (conn_of (stream_open_cb e (UdpBridge p)))"
  using assms frames_in_flush [of rs "wire (u_side p)" "co_pending (u_side p)"]
  by (auto simp: stream_open_cb_def map_conn_def conn_of_def fold_drains_udp reply_framed_def Let_def)

lemma reply_framed_step:
  assumes f: "reply_framed (replies fs) (u_side p)" and inv: "conn_inv (UdpBridge p)"
    and en: "conn_enabled (UdpBridge p) ev" and q: "conn_step (UdpBridge p) ev = UdpBridge q"
  shows "reply_framed (replies (fs @ [ev])) (u_side q)"
proof -
  obtain e v where ev: "ev = (e, v)" by (cases ev)
  have ok: "co_open (u_side p) \<Longrightarrow> co_pending (u_side p) = []" using inv by (simp add: conn_inv_def conn_ok_def)
  note d = conn_step_def ev
  have quiet: "reply_framed (replies (fs @ [ev])) (u_side q)" if "hushed (u_side p) (u_side q)"
    unfolding replies_snoc using that f by (intro reply_framed_more) (rule reply_framed_hushed)
  show ?thesis
  proof (cases v)
    case (ConnUdp w)
    then have w: "q = udp_step (make_side (ce_write e)) p (ce_udp e, w)" "loop_udp w"
      using q en by (auto simp: d conn_enabled_def)
    show ?thesis
    proof (cases w)
      case (UEvRecv n b a pt)
      then show ?thesis using reply_framed_recv [OF f ok] w ConnUdp by (simp add: udp_step_def ev)
    next
      case UEvClosed
      then show ?thesis using w hushed_closed [OF hushed_rules(1)] by (intro quiet) (simp add: udp_step_def)
    qed (use w in \<open>simp_all add: loop_udp_def\<close>)
  next
    case ConnOpen
    then have "conn_of (stream_open_cb e (UdpBridge p)) = u_side q" using q by (simp add: d conn_of_def)
    then show ?thesis using reply_framed_open [OF f, of e] by (auto intro: reply_framed_more)
  next
    case (ConnData bs)
    then have "q = udp_on_stream_data (ce_udp e) (make_side (ce_write e)) bs p"
      using q by (simp add: d stream_data_cb_def udp_step_def)
    then show ?thesis using quiet hushed_data by simp
  next
    case ConnClose
    then show ?thesis using q
      by (intro quiet)
        (auto simp: d stream_close_cb_def map_conn_def udp_step_def udp_on_stream_close_def uemit_def Let_def
          intro!: hushed_destroy hushed_rules)
  next
    case (ConnDrain n)
    then show ?thesis using q
      by (intro quiet) (auto simp: d drain_cb_def map_conn_def fire_drain_def hushed_rules)
  next
    case ConnDestroy
    then show ?thesis using q by (intro quiet) (auto simp: d bridge_destroy_def udp_step_def hushed_destroy hushed_rules)
  qed (use en in \<open>simp add: conn_enabled_def ev\<close>)
qed

lemma reply_framed_trace:
  assumes "conn_trace fs (UdpBridge p)"
  shows "reply_framed (replies fs) (u_side p)"
proof -
  have "conn_machine.trace fs b \<Longrightarrow> \<forall>p. b = UdpBridge p \<longrightarrow> reply_framed (replies fs) (u_side p)" for b
  proof (induction rule: conn_machine.trace.induct)
    case (trace_nil b)
    have "wire new_srv_conn = []" "co_pending new_srv_conn = []" by (simp_all add: wire_def new_srv_conn_def)
    then have n: "reply_framed (replies []) new_srv_conn" by (simp add: reply_framed_def replies_def)
    show ?case
    proof (intro allI impI)
      fix p assume "b = UdpBridge p"
      then obtain e udp h pt where "UdpBridge p = accept_bridge e udp h pt"
        using trace_nil by (auto simp: conn_begin_def)
      then have "p = fst (udp_start (ce_udp e) (make_side (ce_write e)) h pt (new_udp_pipe True new_srv_conn))"
        by (simp add: accept_bridge_def udp_step_def split: if_splits)
      then have "hushed new_srv_conn (u_side p)"
        using hushed_start [of "new_udp_pipe True new_srv_conn"] by (simp add: new_udp_pipe_def)
      then show "reply_framed (replies []) (u_side p)" using n by (rule reply_framed_hushed)
    qed
  next
    case (trace_snoc evs b ev)
    show ?case
    proof (intro impI allI)
      fix q assume q: "conn_step b ev = UdpBridge q"
      then obtain p where b: "b = UdpBridge p" using conn_step_tcp [of _ ev] by (cases b) (auto, metis bridge.distinct(1))
      then show "reply_framed (replies (evs @ [ev])) (u_side q)"
        using reply_framed_step [OF _ _ _ q [unfolded b]] trace_snoc conn_machine.trace_inv [OF trace_snoc(1)] by simp
    qed
  qed
  then show ?thesis using assms unfolding conn_trace_def by blast
qed

section \<open>The client's files\<close>

text \<open>The datagrams sent to the address printed as \<open>a\<close>.\<close>

definition sends_to :: "(u32 \<Rightarrow> string) \<Rightarrow> string \<Rightarrow> client \<Rightarrow> byte list list" where
  "sends_to nm a x = map snd (filter (\<lambda>(dst, d). client_key nm dst = a) (sends_of (ux_acts x)))"

text \<open>A step that sends nothing and files nothing.\<close>

definition files_kept :: "client \<Rightarrow> client \<Rightarrow> bool" where
  "files_kept x y \<longleftrightarrow> sends_of (ux_acts y) = sends_of (ux_acts x) \<and>
     (\<forall>a u. ux_clients y a = Some u \<longrightarrow> ux_clients x a = Some u)"

lemma files_kept_rules: "files_kept x x" "files_kept x y \<Longrightarrow> files_kept x (in_core f y)"
  "files_kept x y \<Longrightarrow> files_kept x (y\<lparr>ux_side := k\<rparr>)"
  "files_kept x y \<Longrightarrow> files_kept x (uproxy_on_stream_close a y)" "files_kept x y \<Longrightarrow> files_kept x (uproxy_drop a u y)"
  "files_kept x y \<Longrightarrow> files_kept x (uxemit (ULog lv m) y)" "files_kept x y \<Longrightarrow> files_kept x (uproxy_close y)"
  by (auto simp: files_kept_def uproxy_on_stream_close_def uproxy_drop_def uproxy_close_def uxemit_def Let_def split: if_splits)

lemma files_kept_trans: "files_kept x y \<Longrightarrow> files_kept y z \<Longrightarrow> files_kept x z"
  by (simp add: files_kept_def)

lemma files_kept_shutdown: "files_kept x y \<Longrightarrow> files_kept x (shutdown_conn j y)"
  by (simp add: shutdown_conn_def Let_def files_kept_rules split: option.split)

lemma files_kept_listen: "files_kept x (fst (uproxy_listen e h p op x))"
  by (auto simp: uproxy_listen_def files_kept_def uxemit_def uproxy_close_def Let_def split: prod.splits option.splits if_splits)

lemma files_kept_start: "files_kept x y \<Longrightarrow> files_kept x (fst (start_proxy y))"
proof -
  assume k: "files_kept x y"
  have l: "files_kept x (fst (uproxy_listen e h p op z))" if "files_kept x z" for e h p op z
    by (rule files_kept_trans [OF that files_kept_listen])
  show ?thesis
    by (simp add: start_proxy_def Let_def case_prod_unfold l k files_kept_rules)
qed

lemma files_kept_done: "files_kept x y \<Longrightarrow> files_kept x (mutable_done_cb y)"
  by (simp add: mutable_done_cb_def Let_def files_kept_start files_kept_rules)

lemma files_kept_cancel: "files_kept x y \<Longrightarrow> files_kept x (cancel_query y)"
  by (simp add: cancel_query_def Let_def files_kept_done files_kept_rules)

lemma files_kept_fold: "files_kept x y \<Longrightarrow> files_kept x (fold shutdown_conn is y)"
  by (induction "is" arbitrary: y) (simp_all add: files_kept_shutdown)

lemma files_kept_destroy: "files_kept x (client_destroy x)"
  by (simp add: client_destroy_def Let_def files_kept_fold files_kept_cancel files_kept_rules del: in_core_comp)

lemma files_kept_open: "files_kept x (on_stream_open j x)"
  by (simp add: on_stream_open_def Let_def files_kept_shutdown files_kept_rules del: in_core_comp split: option.split)

lemma files_kept_do:
  assumes "\<And>n b a p. v \<noteq> CeRecv n b a p" and "\<And>j bs. v \<noteq> CeData j bs"
  shows "files_kept x (client_do nm v x)"
proof (cases v)
  case (CeConnect b)
  then show ?thesis
    by (simp add: client_do_def client_connect_def Let_def files_kept_start files_kept_rules)
next
  case (CeOpen j)
  then show ?thesis by (simp add: client_do_def client_stream_open_cb_def files_kept_open files_kept_rules split: option.split)
next
  case (CeDialed j err c op)
  then show ?thesis
    by (simp add: client_do_def client_connect_cb_def Let_def files_kept_shutdown files_kept_rules del: in_core_comp
        split: option.split)
next
  case (CeClosed j)
  then show ?thesis
    by (simp add: client_do_def client_stream_close_cb_def Let_def files_kept_shutdown files_kept_rules del: in_core_comp
        split: option.split slot.split)
next
  case (CeDrain j n)
  then show ?thesis by (simp add: client_do_def client_drain_cb_def files_kept_rules split: option.split)
qed (use assms in \<open>simp_all add: client_do_def files_kept_done files_kept_destroy files_kept_rules\<close>)

text \<open>A datagram of an application may file a new stream, under the next number.\<close>

definition new_file :: "(u32 \<Rightarrow> string) \<Rightarrow> client \<Rightarrow> string \<Rightarrow> client_core udp_client \<Rightarrow> bool" where
  "new_file nm x a u \<longleftrightarrow>
     uc_stream u = udp_side (k_next (ux_side x)) \<and> uc_buf u = [] \<and> client_key nm (uc_addr u) = a"

definition files_new :: "(u32 \<Rightarrow> string) \<Rightarrow> client \<Rightarrow> client \<Rightarrow> bool" where
  "files_new nm x y \<longleftrightarrow> sends_of (ux_acts y) = sends_of (ux_acts x) \<and>
     (\<forall>a u. ux_clients y a = Some u \<longrightarrow> ux_clients x a = Some u \<or> new_file nm x a u)"

lemma files_new_kept: "files_kept x y \<Longrightarrow> files_new nm x y"
  by (auto simp: files_kept_def files_new_def)

lemma files_new_trans: "files_new nm x y \<Longrightarrow> files_kept y z \<Longrightarrow> files_new nm x z"
  by (auto simp: files_kept_def files_new_def)

lemma files_new_client:
  assumes "filed x"
  shows "files_new nm x (fst (uproxy_client nm addr x))"
proof -
  have o: "ux_open x = None \<or> ux_open x = Some open_udp_stream" using assms(1) by (simp add: filed_def)
  have "ss_write (snd (open_udp_stream k a)) \<noteq> None \<Longrightarrow> snd (open_udp_stream k a) = udp_side (k_next k)" for k a
    by (auto simp: open_udp_stream_dial no_side_def split: prod.splits if_splits)
  then show ?thesis
    using o by (auto simp: uproxy_client_def files_new_def new_file_def uxemit_def Let_def case_prod_unfold
        split: option.split)
qed

lemma files_kept_write: "files_kept x (uproxy_write a c data x)"
  by (simp add: uproxy_write_def Let_def files_kept_rules split: option.split prod.split)

lemma files_new_recv:
  assumes "filed x"
  shows "files_new nm x (uproxy_recv_cb e nm nread buf addr partial x)"
proof -
  have "files_new nm x (case uproxy_client nm a x of (x, None) \<Rightarrow> x | (x, Some c) \<Rightarrow> uproxy_write (client_key nm a) c bs x)"
    for a bs
    using files_new_client [OF assms, of nm a] files_new_trans [OF _ files_kept_write]
    by (auto simp: case_prod_unfold split: option.split)
  then show ?thesis
    by (simp add: uproxy_recv_cb_def files_kept_rules files_new_kept split: option.split)
qed

section \<open>Whose a stream is\<close>

text \<open>
  A connection that is there and is not a UDP connection of the application at \<open>a\<close>. A step
  makes none of an old number.
\<close>

definition bystander :: "string \<Rightarrow> client_core \<Rightarrow> u64 \<Rightarrow> bool" where
  "bystander a k j \<longleftrightarrow>
     (\<exists>sl. kget k j = Some sl \<and> \<not> (cn_udp (slot_conn sl) \<and> cn_client_id (slot_conn sl) = a))"

lemma bystander_piped: "core_but {} k \<Longrightarrow> kget k j = Some (Piped s) \<Longrightarrow> bystander a k j"
  using core_but_get slot_piped by (fastforce simp: bystander_def)

lemma bystander_flow:
  assumes "flow_at j k k'" and "core_but {} k" and "core_but {} k'" and "j < k_next k" and "bystander a k' j"
  shows "bystander a k j"
proof -
  obtain sl' where sl': "kget k' j = Some sl'" "\<not> (cn_udp (slot_conn sl') \<and> cn_client_id (slot_conn sl') = a)"
    using assms(5) by (auto simp: bystander_def)
  then obtain sl where sl: "kget k j = Some sl" "flow_kept sl sl'" using assms(1,4) by (fastforce simp: flow_at_def)
  show ?thesis
  proof (cases sl)
    case (Piped s)
    then show ?thesis using bystander_piped [OF assms(2)] sl by simp
  next
    case (Bare c)
    then show ?thesis using sl sl'(2) by (auto simp: flow_kept_def bystander_def split: slot.splits)
  qed
qed

lemma bystander_step:
  assumes inv: "client_inv x" and en: "client_enabled x ev" and j: "j < k_next (ux_side x)"
    and b: "bystander a (ux_side (client_step nm x ev)) j"
  shows "bystander a (ux_side x) j"
proof -
  obtain e v where ev: "ev = (e, v)" by (cases ev)
  define y where "y = in_core (\<lambda>k. k\<lparr>k_env := e\<rparr>) x"
  have y: "client_step nm x ev = client_do nm v y" by (simp add: client_step_def y_def ev)
  have eq: "bystander a (ux_side y) j = bystander a (ux_side x) j" by (simp add: y_def bystander_def kget_def)
  have s: "sound y" using client_inv_env [OF inv] by (simp add: y_def client_inv_def)
  then have wf: "core_but {} (ux_side y)" and f: "filed y" by (simp_all add: sound_def)
  have "client_inv (client_step nm x ev)" by (rule client_inv_step [OF inv en])
  then have wf': "core_but {} (ux_side (client_do nm v y))" by (simp add: client_inv_def sound_def y)
  have en: "client_enabled y (e, v)"
    using en ev by (cases v) (simp_all add: client_enabled_def Let_def kget_def y_def)
  have jy: "j < k_next (ux_side y)" using j by (simp add: y_def)
  have flow: "bystander a (ux_side y) j" if "flow_at j (ux_side y) (ux_side (client_do nm v y))"
    by (rule bystander_flow [OF that wf wf' jy]) (use b in \<open>simp add: y\<close>)
  note piped = bystander_piped [OF wf]
  have "bystander a (ux_side y) j"
  proof (cases v)
    case (CeOpen i)
    show ?thesis
    proof (cases "i = j")
      case True
      obtain sl where g: "kget (ux_side y) j = Some sl"
        using core_but_owed [OF wf, of j] en CeOpen True by (auto simp: client_enabled_def)
      show ?thesis
      proof (cases sl)
        case (Bare c)
        show ?thesis
        proof (cases "cn_udp c")
          case True
          then have "flow_at j (ux_side y) (ux_side (client_stream_open_cb j y))"
            using flow_open_udp [of y j c] g Bare by (simp add: client_stream_open_cb_def)
          then show ?thesis using flow CeOpen \<open>i = j\<close> by (simp add: client_do_def)
        qed (use g Bare in \<open>simp add: bystander_def\<close>)
      qed (use g piped in simp)
    qed (use flow CeOpen flow_stream_open_other [of i j y] in \<open>simp add: client_do_def\<close>)
  next
    case (CeData i bs)
    show ?thesis
    proof (cases "\<exists>s. kget (ux_side y) j = Some (Piped s)")
      case False
      have "flow_at j (ux_side y) (ux_side (client_stream_data_cb i bs y))"
      proof (cases "kget (ux_side y) i")
        case (Some sl)
        then show ?thesis using False flow_udp_data [OF f] flow_pipe_other [of i j]
          by (cases sl; cases "i = j") (auto simp: client_stream_data_cb_def pipe_event_bare)
      qed (simp add: client_stream_data_cb_def)
      then show ?thesis using flow CeData by (simp add: client_do_def)
    qed (use piped in blast)
  next
    case (CePipe i w)
    show ?thesis
    proof (cases "i = j")
      case True
      then obtain t where "kget (ux_side y) j = Some (Piped t)"
        using en CePipe by (auto simp: client_enabled_def Let_def split: option.splits slot.splits)
      then show ?thesis by (rule piped)
    qed (use flow CePipe flow_pipe_other [of i j] in \<open>simp add: client_do_def\<close>)
  qed (use en flow s in \<open>simp_all add: client_do_def client_enabled_def flow_owner flow_accept flow_recv flow_connect_cb
      flow_stream_close flow_drain_cb flow_destroy\<close>)
  then show ?thesis using eq by simp
qed

lemma udp_side_inject [simp]: "udp_side i = udp_side j \<longleftrightarrow> i = j"
proof
  assume "udp_side i = udp_side j"
  then have "on_conn i conn_close = on_conn j conn_close" by (simp add: udp_side_def)
  then have e: "kget (on_conn i conn_close k) i = kget (on_conn j conn_close k) i" for k by simp
  let ?c = "(new_client_conn i True [])\<lparr>cn_stream := True\<rparr>"
  define k :: client_core where "k = undefined\<lparr>k_conns := [(i, Bare ?c)]\<rparr>"
  have k: "kget k i = Some (Bare ?c)" by (simp add: k_def kget_def)
  have "conn_close ?c \<noteq> ?c" by (simp add: conn_close_def new_client_conn_def ccalled_def)
  then show "i = j" using e [of k] k by (auto simp: kget_on_conn split: if_splits)
qed simp

section \<open>What has been sent back\<close>

definition client_data :: "u64 \<Rightarrow> (client_env \<times> client_event) list \<Rightarrow> byte list" where
  "client_data i evs = concat (map (client_data_of i) evs)"

lemma client_data_snoc [simp]: "client_data i (evs @ [ev]) = client_data i evs @ client_data_of i ev"
  by (simp add: client_data_def)

text \<open>Of the streams but \<open>i\<close>, none of the application at \<open>a\<close> has brought anything.\<close>

definition alone :: "string \<Rightarrow> u64 \<Rightarrow> (client_env \<times> client_event) list \<Rightarrow> client_core \<Rightarrow> bool" where
  "alone a i evs k \<longleftrightarrow> (\<forall>j. j \<noteq> i \<longrightarrow> client_data j evs = [] \<or> bystander a k j)"

text \<open>
  Only streams there have been have brought anything; an application whose streams have brought
  nothing has been sent nothing; and one whose stream is filed has been sent the payloads of
  the frames that stream has brought.
\<close>

definition sent_back :: "(u32 \<Rightarrow> string) \<Rightarrow> (client_env \<times> client_event) list \<Rightarrow> client \<Rightarrow> bool" where
  "sent_back nm evs x \<longleftrightarrow>
     (\<forall>j. client_data j evs \<noteq> [] \<longrightarrow> j < k_next (ux_side x)) \<and>
     (\<forall>a. (\<forall>j. client_data j evs = [] \<or> bystander a (ux_side x) j) \<longrightarrow> sends_to nm a x = []) \<and>
     (\<forall>a u. ux_clients x a = Some u \<longrightarrow> client_key nm (uc_addr u) = a) \<and>
     (\<forall>a u i. ux_clients x a = Some u \<and> uc_stream u = udp_side i \<and> alone a i evs (ux_side x) \<longrightarrow>
        deframe (client_data i evs) = (True, uc_buf u, sends_to nm a x))"

lemma sent_back_silent:
  assumes s: "sent_back nm evs x" and ev: "\<And>j. client_data_of j ev = []" and f: "files_new nm x y"
    and nx: "k_next (ux_side x) \<le> k_next (ux_side y)"
    and old: "\<And>a j. j < k_next (ux_side x) \<Longrightarrow> bystander a (ux_side y) j \<Longrightarrow> bystander a (ux_side x) j"
  shows "sent_back nm (evs @ [ev]) y"
proof -
  have same: "sends_to nm a y = sends_to nm a x" for a using f by (simp add: files_new_def sends_to_def)
  have lt: "client_data j evs \<noteq> [] \<Longrightarrow> j < k_next (ux_side x)" for j using s by (simp add: sent_back_def)
  have none: "sends_to nm a x = []" if "\<forall>j. client_data j evs = [] \<or> bystander a (ux_side y) j" for a
  proof -
    have "\<forall>j. client_data j evs = [] \<or> bystander a (ux_side x) j" using that lt old by blast
    then show ?thesis using s by (simp add: sent_back_def)
  qed
  have sent: "deframe (client_data i evs) = (True, uc_buf u, sends_to nm a x)"
    if u: "ux_clients y a = Some u" "uc_stream u = udp_side i" "alone a i evs (ux_side y)" for a u i
  proof -
    have al: "alone a i evs (ux_side x)" using u(3) lt old by (meson alone_def)
    consider "ux_clients x a = Some u" | "new_file nm x a u" using f u(1) by (auto simp: files_new_def)
    then show ?thesis
    proof cases
      case 1
      then show ?thesis using s u(2) al by (simp add: sent_back_def)
    next
      case 2
      then have i: "i = k_next (ux_side x)" "uc_buf u = []" using u(2) by (simp_all add: new_file_def)
      then have d: "client_data i evs = []" using lt [of i] by auto
      then have "\<forall>j. client_data j evs = [] \<or> bystander a (ux_side x) j" using al by (auto simp: alone_def)
      then show ?thesis using s d i(2) by (simp add: sent_back_def deframe_short)
    qed
  qed
  have "client_key nm (uc_addr u) = a" if "ux_clients y a = Some u" for a u
    using that f s unfolding files_new_def new_file_def sent_back_def by metis
  moreover have "j < k_next (ux_side y)" if "client_data j evs \<noteq> []" for j using lt [OF that] nx by simp
  ultimately show ?thesis
    using none sent by (simp add: sent_back_def alone_def ev same)
qed

lemma alone_snoc: "alone a i (evs @ [ev]) k \<Longrightarrow> alone a i evs k"
  by (auto simp: alone_def)

lemma sends_to_more: "sends_of (ux_acts y) = sends_of (ux_acts x) @ map (Pair dst) ds \<Longrightarrow>
    sends_to nm a y = sends_to nm a x @ (if client_key nm dst = a then ds else [])"
  by (simp add: sends_to_def filter_map o_def)

text \<open>Data on the stream \<open>i\<close> of the application at \<open>b\<close>.\<close>

lemma uproxy_data_result:
  assumes "ux_sock x" and "bs \<noteq> []" and "ux_clients x b = Some u" and "decoder_push (uc_buf u) bs = (ok, r, ds)"
    and "y = uproxy_on_stream_data e b bs x"
  shows "sends_of (ux_acts y) = sends_of (ux_acts x) @ map (Pair (uc_addr u)) ds"
    and "ux_clients y a = (if a = b then if ok then Some (u\<lparr>uc_buf := r\<rparr>) else None else ux_clients x a)"
  using assms by (simp_all add: uproxy_on_stream_data_def uproxy_drop_def uxemit_def send_all_trace Let_def)

text \<open>
  Why the condition \<open>alone\<close>: the proxy knows a stream by its application's address only, so
  what an old stream \<open>i\<close> of an application still brings is decoded as if the stream \<open>j\<close> filed
  for that application since had brought it.
\<close>

lemma client_stale_data:
  assumes "kget (ux_side x) i = Some (Bare c)" and "cn_udp c" and "ux_sock x" and "bs \<noteq> []"
    and "ux_clients x (cn_client_id c) = Some u" and "uc_stream u = udp_side j" and "j \<noteq> i"
    and "decoder_push (uc_buf u) bs = (True, buf, ds)"
  shows "ux_clients (client_stream_data_cb i bs x) (cn_client_id c) = Some (u\<lparr>uc_buf := buf\<rparr>)"
  using assms uproxy_data_result(2) [OF assms(3-5) assms(8) refl] by (simp add: client_stream_data_cb_def)

lemma sent_back_data:
  assumes s: "sent_back nm evs x" and snd: "sound x" and i: "kget (ux_side x) i = Some sl" and bs: "bs \<noteq> []"
    and ev: "\<And>j. client_data_of j ev = (if j = i then bs else [])"
    and nx: "k_next (ux_side x) \<le> k_next (ux_side (client_stream_data_cb i bs x))"
    and old: "\<And>a j. j < k_next (ux_side x) \<Longrightarrow>
      bystander a (ux_side (client_stream_data_cb i bs x)) j \<Longrightarrow> bystander a (ux_side x) j"
  shows "sent_back nm (evs @ [ev]) (client_stream_data_cb i bs x)"
proof -
  let ?y = "client_stream_data_cb i bs x"
  let ?own = "\<lambda>a. cn_udp (slot_conn sl) \<and> cn_client_id (slot_conn sl) = a"
  have f: "filed x" and wf: "core_but {} (ux_side x)" using snd by (simp_all add: sound_def)
  have il: "i < k_next (ux_side x)" using core_but_get [OF wf i] by (simp add: slot_in_def)
  have lt: "client_data j evs \<noteq> [] \<Longrightarrow> j < k_next (ux_side x)" for j using s by (simp add: sent_back_def)
  have own: "bystander a (ux_side x) i \<longleftrightarrow> \<not> ?own a" for a using i by (simp add: bystander_def)
  have live: "?own a" if "ux_clients x a = Some u" "uc_stream u = udp_side i" for a u
    using filed_get [OF f that(1)] that(2) i by (auto simp: udp_live_def)
  have al: "alone a l evs (ux_side x) \<and> (l \<noteq> i \<longrightarrow> \<not> ?own a)" if "alone a l (evs @ [ev]) (ux_side ?y)" for a l
    using that lt old [of _ a] own [of a] il bs by (auto simp: alone_def ev split: if_splits)
  have none: "(\<forall>j. client_data j evs = [] \<or> bystander a (ux_side x) j) \<and> \<not> ?own a"
    if "\<forall>j. client_data j (evs @ [ev]) = [] \<or> bystander a (ux_side ?y) j" for a
    using that lt old [of _ a] own [of a] il bs by (auto simp: ev split: if_splits)
  obtain S where S: "\<And>a. sends_to nm a ?y = sends_to nm a x @ (if ?own a then S else [])"
    and T: "\<And>a u. ux_clients ?y a = Some u \<Longrightarrow> if ?own a then (\<exists>v. ux_clients x a = Some v \<and>
        uc_stream u = uc_stream v \<and> uc_addr u = uc_addr v \<and> decoder_push (uc_buf v) bs = (True, uc_buf u, S))
      else ux_clients x a = Some u"
  proof (cases "cn_udp (slot_conn sl)")
    case False
    then have "?y = in_core (pipe_event (EvData bs) i) x" using i bs by (simp add: client_stream_data_cb_def)
    then show thesis using False by (intro that [of "[]"]) (simp_all add: sends_to_def)
  next
    case True
    let ?b = "cn_client_id (slot_conn sl)"
    have y: "?y = uproxy_on_stream_data (ke_udp (k_env (ux_side x))) ?b bs x"
      using True i bs by (simp add: client_stream_data_cb_def)
    show thesis
    proof (cases "ux_clients x ?b")
      case None
      then have "?y = x" using y by (simp add: uproxy_on_stream_data_def)
      then show thesis using None by (intro that [of "[]"]) auto
    next
      case (Some u)
      obtain ok r ds where d: "decoder_push (uc_buf u) bs = (ok, r, ds)" by (cases "decoder_push (uc_buf u) bs")
      have k: "ux_sock x" using f Some by (auto simp: filed_def)
      have a: "client_key nm (uc_addr u) = ?b" using s Some by (simp add: sent_back_def)
      note res = uproxy_data_result [OF k bs Some d y]
      show thesis
        using True d Some by (intro that [of ds]) (auto simp: sends_to_more [OF res(1)] res(2) a split: if_splits)
    qed
  qed
  have sent: "deframe (client_data l (evs @ [ev])) = (True, uc_buf u, sends_to nm a ?y)"
    if u: "ux_clients ?y a = Some u" "uc_stream u = udp_side l" "alone a l (evs @ [ev]) (ux_side ?y)" for a u l
  proof (cases "?own a")
    case True
    then have l: "l = i" "alone a i evs (ux_side x)" using al [OF u(3)] by auto
    obtain v where v: "ux_clients x a = Some v" "uc_stream v = udp_side i" "decoder_push (uc_buf v) bs = (True, uc_buf u, S)"
      using T [OF u(1)] True u(2) l(1) by auto
    have "deframe (client_data i evs) = (True, uc_buf v, sends_to nm a x)" using s v l(2) by (simp add: sent_back_def)
    from deframe_append [OF this, of bs] show ?thesis
      using v(3) True S [of a] l(1) by (simp add: decoder_push_deframe ev)
  next
    case False
    then have x: "ux_clients x a = Some u" using T [OF u(1)] by simp
    then have "l \<noteq> i" using live u(2) False by blast
    moreover have "deframe (client_data l evs) = (True, uc_buf u, sends_to nm a x)"
      using s x u(2) al [OF u(3)] by (simp add: sent_back_def)
    ultimately show ?thesis using S [of a] False by (simp add: ev)
  qed
  have "sends_to nm a ?y = []" if "\<forall>j. client_data j (evs @ [ev]) = [] \<or> bystander a (ux_side ?y) j" for a
  proof -
    have "sends_to nm a x = []" using none [OF that] s by (simp add: sent_back_def)
    then show ?thesis using none [OF that] S [of a] by auto
  qed
  moreover have "client_key nm (uc_addr u) = a" if "ux_clients ?y a = Some u" for a u
    using T [OF that] s by (auto simp: sent_back_def split: if_splits)
  moreover have "j < k_next (ux_side ?y)" if "client_data j (evs @ [ev]) \<noteq> []" for j
    using that lt [of j] il nx by (auto simp: ev split: if_splits)
  ultimately show ?thesis using sent by (simp only: sent_back_def) blast
qed

lemma next_do:
  assumes s: "sound x" and en: "(\<exists>n b a p. v = CeRecv n b a p) \<or> (\<exists>a b c. v = CeAccept a b c) \<Longrightarrow> k_next (ux_side x) \<noteq> -1"
  shows "k_next (ux_side x) \<le> k_next (ux_side (client_do nm v x))"
proof -
  have flow: "k_next (ux_side x) \<le> k_next (ux_side y)" if "client_flow_at 0 x y" for y using that by (simp add: flow_at_def)
  have f: "filed x" using s by (simp add: sound_def)
  show ?thesis
  proof (cases v)
    case (CeOpen i)
    then show ?thesis by (simp add: client_do_def client_stream_open_cb_def split: option.split)
  next
    case (CeData i bs)
    then show ?thesis using flow [OF flow_udp_data [OF f]]
      by (simp add: client_do_def client_stream_data_cb_def split: option.split)
  next
    case (CePipe i w)
    then show ?thesis by (simp add: client_do_def)
  next
    case (CeAccept a b c)
    then have "client_flow_at 0 x (in_core (on_local_connection True) x)" using en by (simp add: flow_accept [OF s])
    then show ?thesis using flow CeAccept by (simp add: client_do_def flow_at_def)
  qed (intro flow; use en in \<open>simp add: client_do_def flow_owner flow_recv [OF s] flow_connect_cb flow_stream_close
      flow_drain_cb flow_destroy flow_at_same\<close>)+
qed

lemma sent_back_step:
  assumes s: "sent_back nm evs x" and inv: "client_inv x" and en: "client_enabled x ev"
  shows "sent_back nm (evs @ [ev]) (client_step nm x ev)"
proof -
  obtain e v where ev: "ev = (e, v)" by (cases ev)
  define y where "y = in_core (\<lambda>k. k\<lparr>k_env := e\<rparr>) x"
  have y: "client_step nm x ev = client_do nm v y" by (simp add: client_step_def y_def ev)
  have b: "bystander a (ux_side y) j = bystander a (ux_side x) j" for a j by (simp add: y_def bystander_def kget_def)
  have sy: "sent_back nm evs y"
    using s b by (simp add: sent_back_def alone_def) (simp add: y_def sends_to_def)
  have snd: "sound y" using client_inv_env [OF inv] by (simp add: y_def client_inv_def)
  have old: "bystander a (ux_side (client_do nm v y)) j \<Longrightarrow> bystander a (ux_side y) j" if "j < k_next (ux_side y)" for a j
    using bystander_step [OF inv en, of j a nm] that by (simp add: b y) (simp add: y_def)
  have nx: "k_next (ux_side y) \<le> k_next (ux_side (client_do nm v y))"
    unfolding y_def [symmetric] by (rule next_do [OF snd]) (use en ev in \<open>auto simp: client_enabled_def y_def\<close>)
  show ?thesis
  proof (cases "\<exists>i bs. v = CeData i bs \<and> bs \<noteq> []")
    case True
    then obtain i bs where v: "v = CeData i bs" "bs \<noteq> []" by blast
    have wf: "core_but {} (ux_side y)" using snd by (simp add: sound_def)
    obtain sl where "kget (ux_side y) i = Some sl"
      using core_but_owed [OF wf, of i] en v ev by (auto simp: client_enabled_def y_def)
    from sent_back_data [OF sy snd this v(2), of ev] show ?thesis
      using old nx v unfolding y by (simp add: client_do_def ev client_data_of_def)
  next
    case False
    have "files_new nm y (client_do nm v y)"
    proof (cases v)
      case (CeRecv n a c p)
      then show ?thesis using files_new_recv snd by (simp add: client_do_def sound_def)
    next
      case (CeData i bs)
      then show ?thesis using False
        by (intro files_new_kept) (simp add: client_do_def client_stream_data_cb_def files_kept_rules split: option.split)
    qed (intro files_new_kept files_kept_do; simp)+
    moreover have "client_data_of j ev = []" for j
      using False ev by (auto simp: client_data_of_def split: client_event.split)
    ultimately show ?thesis unfolding y using sent_back_silent [OF sy _ _ nx old] by blast
  qed
qed

lemma sent_back_trace:
  assumes "client_trace nm evs x"
  shows "sent_back nm evs x"
proof -
  have "client_machine.trace nm evs x \<Longrightarrow> sent_back nm evs x"
  proof (induction rule: client_machine.trace.induct)
    case (trace_nil x)
    then have "ux_clients x = Map.empty" "ux_acts x = []"
      by (auto simp: client_begin_def client_new_def new_udp_proxy_def kact_def Let_def split: option.split)
    then show ?case by (simp add: sent_back_def client_data_def sends_to_def sends_of_def)
  next
    case (trace_snoc evs x ev)
    then show ?case using sent_back_step [OF _ client_machine.trace_inv] by blast
  qed
  then show ?thesis using assms unfolding client_trace_def by blast
qed

end
