(* ===== verification/Hs_Server_Run.thy ===== *)
theory Hs_Server_Run
  imports Hs_Server_Flow Hs_Server
begin

text \<open>
  A run of the server seen from one of its connections. The server's events are those of its
  own and those of its connections, each under its number; the destructor's loop adds destroy
  events to the connections it finds. A run of the server is so a run of each connection it
  has accepted, up to those, which carry no bytes.
\<close>

definition bridge_event :: "nat \<Rightarrow> server_env \<times> server_event \<Rightarrow> (conn_env \<times> conn_event) list" where
  "bridge_event i ev =
     (case snd ev of SvBridge j v \<Rightarrow> if j = i then [(ve_conn (fst ev), v)] else [] | _ \<Rightarrow> [])"

definition bridge_events :: "nat \<Rightarrow> (server_env \<times> server_event) list \<Rightarrow> (conn_env \<times> conn_event) list" where
  "bridge_events i evs = concat (map (bridge_event i) evs)"

lemma bridge_events_simps [simp]: "bridge_events i [] = []"
  "bridge_events i (evs @ fs) = bridge_events i evs @ bridge_events i fs"
  "bridge_events i [ev] = bridge_event i ev"
  by (simp_all add: bridge_events_def)

definition server_trace :: "(server_env \<times> server_event) list \<Rightarrow> server \<Rightarrow> bool" where
  "server_trace = machine.trace server_step server_enabled server_begin"

lemma server_trace_snoc:
  "server_trace evs s \<Longrightarrow> server_enabled s ev \<Longrightarrow> server_trace (evs @ [ev]) (server_step s ev)"
  unfolding server_trace_def by (rule server_machine.trace_snoc)

section \<open>Runs that differ in destroy events only\<close>

definition carrying :: "conn_env \<times> conn_event \<Rightarrow> bool" where
  "carrying ev \<longleftrightarrow> snd ev \<noteq> ConnDestroy"

definition alike :: "(conn_env \<times> conn_event) list \<Rightarrow> (conn_env \<times> conn_event) list \<Rightarrow> bool" where
  "alike fs gs \<longleftrightarrow> filter carrying fs = filter carrying gs"

lemma alike_rules: "alike fs fs" "alike fs gs \<Longrightarrow> alike (fs @ hs) (gs @ hs)"
  "alike fs gs \<Longrightarrow> list_all (\<lambda>ev. snd ev = ConnDestroy) hs \<Longrightarrow> alike (fs @ hs) gs"
  by (auto simp: alike_def carrying_def list_all_iff)

lemma concat_carrying: "(\<And>ev. snd ev = ConnDestroy \<Longrightarrow> f ev = []) \<Longrightarrow>
    concat (map f fs) = concat (map f (filter carrying fs))"
  by (induction fs) (auto simp: carrying_def)

lemma takeWhile_carrying: "filter carrying (takeWhile (\<lambda>ev. snd ev \<noteq> ConnOpen) fs) =
    takeWhile (\<lambda>ev. snd ev \<noteq> ConnOpen) (filter carrying fs)"
  by (induction fs) (auto simp: carrying_def)

lemma alike_reads: "alike fs gs \<Longrightarrow> conn_reads fs = conn_reads gs"
proof -
  assume a: "alike fs gs"
  have "conn_reads fs = conn_reads (filter carrying fs)" for fs
    unfolding conn_reads_def by (rule concat_carrying) (simp add: conn_read_of_def)
  then show ?thesis using a unfolding alike_def by metis
qed

lemma alike_brought: "alike fs gs \<Longrightarrow> conn_brought fs = conn_brought gs"
proof -
  assume a: "alike fs gs"
  have "conn_brought fs = conn_brought (filter carrying fs)" for fs
    unfolding conn_brought_def by (rule concat_carrying) (simp add: conn_data_of_def)
  then show ?thesis using a unfolding alike_def by metis
qed

lemma list_all_carrying:
  assumes "\<And>ev. snd ev = ConnDestroy \<Longrightarrow> P ev"
  shows "list_all P fs \<longleftrightarrow> list_all P (filter carrying fs)"
proof -
  have "P ev" if "\<not> carrying ev" for ev using that assms by (simp add: carrying_def)
  then show ?thesis by (induction fs) auto
qed

lemma alike_greets: "alike fs gs \<Longrightarrow> greets fs = greets gs"
proof -
  assume a: "alike fs gs"
  let ?w = "takeWhile (\<lambda>ev. snd ev \<noteq> ConnOpen)" and ?P = "\<lambda>ev. snd ev = ConnOpen \<longrightarrow> 0 \<le> ce_write (fst ev)"
  have "alike (?w fs) (?w gs)" using a by (simp add: alike_def takeWhile_carrying)
  then have "conn_reads (?w fs) = conn_reads (?w gs)" by (rule alike_reads)
  moreover have "list_all ?P hs = list_all ?P (filter carrying hs)" for hs
    by (rule list_all_carrying) simp
  from this [of fs] this [of gs] have "list_all ?P fs = list_all ?P gs" using a by (simp only: alike_def)
  ultimately show ?thesis unfolding greets_def by presburger
qed

section \<open>The destroy loop\<close>

lemma destroy_loop_trace:
  assumes "fold (\<lambda>kv. destroy_conn e (snd kv)) cs h i = Some b'"
  shows "\<exists>b gs. h i = Some b \<and> list_all (\<lambda>ev. snd ev = ConnDestroy) gs \<and>
    (\<forall>fs. conn_trace fs b \<longrightarrow> conn_trace (fs @ gs) b')"
  using assms
proof (induction cs arbitrary: h)
  case Nil
  then show ?case by (intro exI [of _ b'] exI [of _ "[]"]) simp
next
  case (Cons kv cs)
  then obtain c gs where c: "destroy_conn e (snd kv) h i = Some c" "list_all (\<lambda>ev. snd ev = ConnDestroy) gs"
    "\<forall>fs. conn_trace fs c \<longrightarrow> conn_trace (fs @ gs) b'" by fastforce
  show ?case
  proof (cases "h i = Some c")
    case True
    then show ?thesis using c by blast
  next
    case False
    then obtain b where b: "h i = Some b" "conn_alive (conn_of b)" "c = conn_step b (e, ConnDestroy)"
      using c(1) by (auto simp: destroy_conn_def split: option.splits if_splits)
    have "conn_trace (fs @ [(e, ConnDestroy)]) c" if "conn_trace fs b" for fs
      unfolding b(3) by (rule conn_trace_snoc [OF that]) (simp add: conn_enabled_def b(2))
    then have "\<forall>fs. conn_trace fs b \<longrightarrow> conn_trace (fs @ (e, ConnDestroy) # gs) b'"
      using c(3) by (metis append.assoc append_Cons append_Nil)
    then show ?thesis using b(1) c(2) by (intro exI [of _ b] exI [of _ "(e, ConnDestroy) # gs"]) simp
  qed
qed

section \<open>A run of each connection\<close>

definition conns_run :: "(server_env \<times> server_event) list \<Rightarrow> server \<Rightarrow> bool" where
  "conns_run evs s \<longleftrightarrow>
     (\<forall>i. sv_next s \<le> i \<longrightarrow> bridge_events i evs = []) \<and>
     (\<forall>i b. sv_heap s i = Some b \<longrightarrow> (\<exists>fs. conn_trace fs b \<and> alike fs (bridge_events i evs)))"

lemma conns_run_same:
  assumes "conns_run evs s" and "sv_heap t = sv_heap s" and "sv_next t = sv_next s" and "\<And>i. bridge_event i ev = []"
  shows "conns_run (evs @ [ev]) t"
  using assms by (simp add: conns_run_def)

lemma heap_frame [simp]:
  "sv_heap (server_publish e s) = sv_heap s" "sv_next (server_publish e s) = sv_next s"
  by (simp_all add: server_publish_def Let_def)

lemma conns_run_step:
  assumes c: "conns_run evs s" and inv: "server_inv s" and en: "server_enabled s ev"
  shows "conns_run (evs @ [ev]) (server_step s ev)"
proof -
  obtain e v where ev: "ev = (e, v)" by (cases ev)
  note same = conns_run_same [OF c]
  show ?thesis
  proof (cases v)
    case SvDestroy
    have "sv_next (server_destroy e s) = sv_next s" by (simp add: server_destroy_def Let_def)
    moreover have "sv_heap (server_destroy e s) = fold (\<lambda>kv. destroy_conn (ve_conn e) (snd kv)) (sv_conns s) (sv_heap s)"
      by (simp add: server_destroy_def Let_def)
    moreover have "\<exists>fs. conn_trace fs b' \<and> alike fs (bridge_events i evs)"
      if d: "fold (\<lambda>kv. destroy_conn (ve_conn e) (snd kv)) (sv_conns s) (sv_heap s) i = Some b'" for i b'
    proof -
      obtain b gs where b: "sv_heap s i = Some b" "list_all (\<lambda>ev. snd ev = ConnDestroy) gs"
        "\<forall>fs. conn_trace fs b \<longrightarrow> conn_trace (fs @ gs) b'"
        using destroy_loop_trace [OF d] by blast
      then obtain fs where "conn_trace fs b" "alike fs (bridge_events i evs)" using c unfolding conns_run_def by blast
      then show ?thesis using b by (blast intro: alike_rules)
    qed
    ultimately show ?thesis
      using c SvDestroy by (simp add: conns_run_def server_step_def ev bridge_event_def)
  next
    case (SvConnection r st)
    have b: "conn_begin (accept_bridge e' u h p)" for e' u h p by (auto simp: conn_begin_def)
    have n: "conn_trace [] (accept_bridge e' u h p)" for e' u h p
      unfolding conn_trace_def by (rule conn_machine.trace_nil [OF b])
    have l: "sv_heap s i = Some b \<Longrightarrow> i < sv_next s" for i b using inv by (simp add: server_inv_def)
    show ?thesis
      using c n l SvConnection
      by (auto simp: conns_run_def server_step_def ev bridge_event_def connection_cb_def Let_def alike_rules
          split: option.splits intro!: exI [of _ "[]"])
  next
    case (SvBridge j w)
    obtain b where b: "sv_heap s j = Some b" "conn_enabled b (ve_conn e, w)"
      using en SvBridge by (auto simp: server_enabled_def ev split: option.splits)
    have j: "j < sv_next s" using inv b by (simp add: server_inv_def)
    obtain fs where "conn_trace fs b" "alike fs (bridge_events j evs)" using c b(1) unfolding conns_run_def by blast
    then have "conn_trace (fs @ [(ve_conn e, w)]) (conn_step b (ve_conn e, w)) \<and>
        alike (fs @ [(ve_conn e, w)]) (bridge_events j evs @ [(ve_conn e, w)])"
      using conn_trace_snoc b(2) by (blast intro: alike_rules)
    then show ?thesis
      using c b(1) j SvBridge by (auto simp: conns_run_def server_step_def ev bridge_event_def)
  qed (intro same; simp add: server_step_def ev bridge_event_def server_start_def listening_cb_def server_pause_def
      server_resume_def refresh_cb_def get_done_cb_def Let_def)+
qed

lemma server_trace_conn:
  assumes "server_trace evs s" and "sv_heap s i = Some b"
  obtains fs where "conn_trace fs b" and "alike fs (bridge_events i evs)"
proof -
  have "server_machine.trace evs s \<Longrightarrow> conns_run evs s"
  proof (induction rule: server_machine.trace.induct)
    case (trace_nil s)
    then obtain cr rnd dht cfg where "server_new cr rnd dht cfg = Inr s" by (auto simp: server_begin_def)
    then show ?case by (simp add: conns_run_def server_new_Inr(9))
  next
    case (trace_snoc evs s ev)
    then show ?case using conns_run_step [OF _ server_machine.trace_inv] by blast
  qed
  then show thesis using assms that unfolding server_trace_def conns_run_def by blast
qed

end
