(* ===== verification/Hs_Program.thy ===== *)
theory Hs_Program
  imports Hs_Session Hs_Server_Run Hs_Udp_Reply
begin

text \<open>
  A run of the whole program seen from the server or the client in it: which of the program's
  events are theirs, and that these are a run of that component from its start. The program
  adds to such a run only what it does when the component reports: it prints, or shuts down.
\<close>

section \<open>What a client reports\<close>

text \<open>The calls of the listening callback, and whether it is still set.\<close>

definition listening_of :: "cact list \<Rightarrow> int list" where
  "listening_of as = concat (map (\<lambda>a. case a of KListening rc \<Rightarrow> [rc] | _ \<Rightarrow> []) as)"

definition told :: "client_core \<Rightarrow> int list \<times> bool" where
  "told k = (listening_of (k_acts k), k_on_listening k)"

lemma told_kact [simp]: "(\<forall>rc. a \<noteq> KListening rc) \<Longrightarrow> told (kact a k) = told k"
  by (cases a) (simp_all add: told_def kact_def listening_of_def)

lemma told_updates [simp]:
  "told (kput i sl k) = told k" "told (k\<lparr>k_next := n\<rparr>) = told k" "told (k\<lparr>k_dials := ds\<rparr>) = told k"
  "told (k\<lparr>k_streams := ds\<rparr>) = told k" "told (k\<lparr>k_state := st\<rparr>) = told k" "told (k\<lparr>k_env := e\<rparr>) = told k"
  "told (k\<lparr>k_record := r, k_record_seq := q\<rparr>) = told k"
  "told (k\<lparr>k_tcp_proxy := p\<rparr>) = told k"
  by (simp_all add: told_def kput_def)

lemma told_conns [simp]:
  "told (kemplace i sl k) = told k" "told (on_conn i f k) = told k" "told (reap i k) = told k"
  "told (pipe_event v i k) = told k"
proof -
  have r: "told (reap j m) = told m" for j m by (simp add: reap_def told_def split: option.split)
  then show "told (reap i k) = told k" .
  show "told (kemplace i sl k) = told k" "told (on_conn i f k) = told k"
    by (simp_all add: kemplace_def on_conn_def split: option.split)
  show "told (pipe_event v i k) = told k" by (simp add: pipe_event_def Let_def r split: option.split slot.split)
qed

lemma told_shutdown [simp]: "told (shutdown_core i k) = told k" "told (ux_side (shutdown_conn i x)) = told (ux_side x)"
proof -
  have s: "told (shutdown_core j m) = told m" for j m by (simp add: shutdown_core_def Let_def split: option.split)
  then show "told (shutdown_core i k) = told k" .
  show "told (ux_side (shutdown_conn i x)) = told (ux_side x)"
    by (simp add: shutdown_conn_def Let_def s in_core_def uproxy_on_stream_close_def split: option.split)
qed

lemma told_dial [simp]: "told (fst (begin_dht_connect c k)) = told k" "told (fst (open_udp_stream k i)) = told k"
  "told (on_local_connection b k) = told k"
proof -
  have d: "told (fst (begin_dht_connect c' k')) = told k'" for c' k' by (simp add: begin_dht_connect_def Let_def)
  then show "told (fst (begin_dht_connect c k)) = told k" .
  show "told (on_local_connection b k) = told k" by (simp add: on_local_connection_def Let_def d)
  show "told (fst (open_udp_stream k i)) = told k"
    using d by (simp add: open_udp_stream_def Let_def split: prod.split) (metis fst_conv told_conns(1) told_updates(2))
qed

lemma told_write [simp]: "told (fst (client_side_write i k bs n)) = told k"
  by (simp add: client_side_write_def split: option.split prod.split)

text \<open>The UDP proxy's part: the streams it has filed are the client's.\<close>

lemma told_drop: "uc_stream c = udp_side j \<Longrightarrow> told (ux_side (uproxy_drop i c x)) = told (ux_side x)"
  by (simp add: uproxy_drop_def udp_side_def call_def)

lemma told_uwrite:
  assumes "uc_stream c = udp_side j"
  shows "told (ux_side (uproxy_write i c bs x)) = told (ux_side x)"
proof -
  obtain st rc where w: "client_side_write j (ux_side x) (frame bs) None = (st, rc)" by fastforce
  have "told st = told (ux_side x)" using told_write [of j "ux_side x" "frame bs" None] w by simp
  then show ?thesis using assms told_drop [OF assms] w by (simp add: uproxy_write_def udp_side_def Let_def)
qed

lemma told_uclient:
  assumes "filed x" and "uproxy_client nm a x = (y, r)"
  shows "told (ux_side y) = told (ux_side x)" "r = Some c \<Longrightarrow> \<exists>j. uc_stream c = udp_side j"
proof -
  have o: "ux_open x = None \<or> ux_open x = Some open_udp_stream" using assms(1) by (simp add: filed_def)
  obtain st sd where s: "open_udp_stream (ux_side x) (client_key nm a) = (st, sd)" by fastforce
  then have t: "told st = told (ux_side x)" using told_dial(2) [of "ux_side x" "client_key nm a"] by simp
  have sd: "sd = no_side \<or> (\<exists>j. sd = udp_side j)" using s by (auto simp: open_udp_stream_def Let_def split: if_splits prod.splits)
  show "told (ux_side y) = told (ux_side x)"
    using assms(2) o s t by (auto simp: uproxy_client_def Let_def split: option.splits if_splits)
  show "r = Some c \<Longrightarrow> \<exists>j. uc_stream c = udp_side j"
    using assms o s sd filed_get [OF assms(1)]
    by (auto simp: uproxy_client_def Let_def no_side_def split: option.splits if_splits)
qed

lemma told_recv: "filed x \<Longrightarrow> told (ux_side (uproxy_recv_cb e nm nread buf addr partial x)) = told (ux_side x)"
proof -
  assume f: "filed x"
  have "told (ux_side (uproxy_write i c bs y)) = told (ux_side x)" if "uproxy_client nm a x = (y, Some c)" for a y c i bs
    using told_uclient [OF f that] told_uwrite by metis
  moreover have "told (ux_side y) = told (ux_side x)" if "uproxy_client nm a x = (y, None)" for a y
    using told_uclient(1) [OF f that] .
  ultimately show ?thesis by (auto simp: uproxy_recv_cb_def split: option.splits prod.splits)
qed

lemma told_udata: "filed x \<Longrightarrow> told (ux_side (uproxy_on_stream_data e i bs x)) = told (ux_side x)"
  using told_drop filed_get [of x i]
  by (auto simp: uproxy_on_stream_data_def Let_def split: option.splits prod.splits)

text \<open>Only connecting, the end of the query and \<^verbatim>\<open>destroy\<close> can call the callback or change it.\<close>

definition silent :: "client_event \<Rightarrow> bool" where
  "silent v \<longleftrightarrow> (case v of CeConnect _ \<Rightarrow> False | CeDone \<Rightarrow> False | CeDestroy \<Rightarrow> False | _ \<Rightarrow> True)"

lemma told_in_core [simp]: "told (ux_side (in_core f x)) = told (f (ux_side x))"
  by (simp add: in_core_def)

lemma client_told:
  assumes "filed x" and "silent v"
  shows "told (ux_side (client_step nm x (e, v))) = told (ux_side x)"
proof -
  let ?x = "in_core (\<lambda>k. k\<lparr>k_env := e\<rparr>) x"
  have f: "filed ?x" using assms(1) by (simp add: filed_def in_core_def udp_live_def kget_def)
  have m: "told (mutable_cb k r) = told k" for k r by (simp add: mutable_cb_def split: prod.split option.split)
  have p: "told (client_pause k) = told k" "told (client_resume k) = told k" for k
    by (simp_all add: client_pause_def client_resume_def)
  have u: "told (ux_side (uproxy_on_stream_close i y)) = told (ux_side y)" for i and y :: client
    by (simp add: uproxy_on_stream_close_def)
  have "told (ux_side (client_do nm v ?x)) = told (ux_side ?x)"
  proof (cases v)
    case (CeData i bs)
    then show ?thesis using told_udata [OF f] by (simp add: client_do_def client_stream_data_cb_def split: option.split)
  next
    case (CeOpen i)
    then show ?thesis
      by (simp add: client_do_def client_stream_open_cb_def on_stream_open_def Let_def split: option.split)
  next
    case (CeDialed i err c op)
    then show ?thesis by (simp add: client_do_def client_connect_cb_def Let_def split: option.split)
  next
    case (CeClosed i)
    then show ?thesis by (simp add: client_do_def client_stream_close_cb_def Let_def u split: option.split slot.split)
  next
    case (CeDrain i n)
    then show ?thesis by (simp add: client_do_def client_drain_cb_def split: option.split)
  qed (use assms(2) told_recv [OF f] in \<open>simp_all add: client_do_def silent_def m p\<close>)
  then show ?thesis by (simp add: client_step_def)
qed

section \<open>The events of the server and of the client\<close>

definition session_trace :: "(u32 \<Rightarrow> string) \<Rightarrow> (session_env \<times> session_event) list \<Rightarrow> session \<Rightarrow> bool" where
  "session_trace nm = machine.trace (session_step nm) session_enabled session_begin"

definition server_events :: "(session_env \<times> session_event) list \<Rightarrow> (server_env \<times> server_event) list" where
  "server_events evs = concat (map (\<lambda>ev. case snd ev of SnServer v \<Rightarrow> [v] | _ \<Rightarrow> []) evs)"

definition client_events :: "(session_env \<times> session_event) list \<Rightarrow> (client_env \<times> client_event) list" where
  "client_events evs = concat (map (\<lambda>ev. case snd ev of SnClient v \<Rightarrow> [v] | _ \<Rightarrow> []) evs)"

lemma events_simps [simp]:
  "server_events [] = []" "client_events [] = []"
  "server_events (evs @ [ev]) = server_events evs @ (case snd ev of SnServer v \<Rightarrow> [v] | _ \<Rightarrow> [])"
  "client_events (evs @ [ev]) = client_events evs @ (case snd ev of SnClient v \<Rightarrow> [v] | _ \<Rightarrow> [])"
  by (simp_all add: server_events_def client_events_def)

text \<open>The events of the server's connection \<open>j\<close>.\<close>

definition conn_events :: "nat \<Rightarrow> (session_env \<times> session_event) list \<Rightarrow> (conn_env \<times> conn_event) list" where
  "conn_events j evs = bridge_events j (server_events evs)"

lemma session_trace_snoc:
  "session_trace nm evs s \<Longrightarrow> session_enabled s ev \<Longrightarrow> session_trace nm (evs @ [ev]) (session_step nm s ev)"
  unfolding session_trace_def by (rule session_machine.trace_snoc)

lemma client_trace_snoc:
  "client_trace nm evs x \<Longrightarrow> client_enabled x ev \<Longrightarrow> client_trace nm (evs @ [ev]) (client_step nm x ev)"
  unfolding client_trace_def by (rule client_machine.trace_snoc)

text \<open>What the program does of its own keeps the server and the client, or drops them.\<close>

definition keeps :: "endpoint \<Rightarrow> endpoint \<Rightarrow> bool" where
  "keeps x y \<longleftrightarrow> (ep_server y = None \<or> ep_server y = ep_server x) \<and> (ep_client y = None \<or> ep_client y = ep_client x) \<and>
     ep_options y = ep_options x \<and> ep_derived y = ep_derived x"

lemma keeps_rules: "keeps x x" "keeps x y \<Longrightarrow> keeps y z \<Longrightarrow> keeps x z"
  by (auto simp: keeps_def)

lemma close_options [simp]: "ep_options (endpoint_close e x) = ep_options x"
  by (cases "ep_dht x"; simp add: endpoint_close_def reap_dht_def Let_def)

lemma keeps_shutdown: "keeps (se_endpoint s) (se_endpoint (begin_shutdown e s))"
  using endpoint_close_shut [of "so_server e" "se_endpoint s"] close_info(3)
  by (auto simp: begin_shutdown_def keeps_def endpoint_shut_def Let_def)

lemma keeps_fail: "keeps (se_endpoint s) (se_endpoint (session_fail e err s))"
  using keeps_shutdown [of "(print_line (red (''Error: '' @ so_strerror e err)) s)\<lparr>se_status := 1\<rparr>" e]
  by (simp add: session_fail_def print_line_def)

lemma keeps_ready: "keeps (se_endpoint s) (se_endpoint (ready_cb e err s))"
  using keeps_fail [of s e err] by (auto simp: ready_cb_def print_line_def Let_def keeps_def)

lemma keeps_report: "keeps (se_endpoint s) (se_endpoint (report_new e old s))"
proof -
  have "keeps (se_endpoint s) (se_endpoint (fold (ready_cb e) rcs s))" for rcs
    by (induction rcs arbitrary: s) (auto intro: keeps_rules keeps_ready)
  then show ?thesis by (simp add: report_new_def)
qed

text \<open>
  A run of the program is a run of the server, or of the client, from its construction and its
  start on.
\<close>

definition parts_run :: "(u32 \<Rightarrow> string) \<Rightarrow> (session_env \<times> session_event) list \<Rightarrow> endpoint \<Rightarrow> bool" where
  "parts_run nm evs x \<longleftrightarrow>
     (\<forall>s. ep_server x = Some s \<longrightarrow> (\<exists>e. server_trace ((e, SvStart True) # server_events evs) s)) \<and>
     (\<forall>c. ep_client x = Some c \<longrightarrow> (\<exists>e. client_trace nm ((e, CeConnect True) # client_events evs) c))"

lemma parts_run_keeps: "parts_run nm evs x \<Longrightarrow> keeps x y \<Longrightarrow> parts_run nm evs y"
  by (auto simp: parts_run_def keeps_def)

lemma server_trace_start:
  assumes "server_new cr rnd dht cfg = Inr s"
  shows "server_trace [(e, SvStart cb)] (fst (server_start e cb s))"
proof -
  have "server_trace [] s"
    unfolding server_trace_def by (rule server_machine.trace_nil) (use assms in \<open>auto simp: server_begin_def\<close>)
  from server_trace_snoc [OF this, of "(e, SvStart cb)"] show ?thesis by (simp add: server_step_def server_enabled_def)
qed

lemma client_trace_start: "client_trace nm [(e, CeConnect cb)] (fst (client_connect cb (client_new cr e dht cfg)))"
proof -
  let ?x = "client_new cr e dht cfg"
  have "client_trace nm [] ?x"
    unfolding client_trace_def by (rule client_machine.trace_nil) (auto simp: client_begin_def)
  moreover have k: "k_env (ux_side ?x) = e" "client_enabled ?x (e, CeConnect cb)"
    by (simp_all add: client_enabled_def client_new_def new_udp_proxy_def new_proxy_def kact_def Let_def split: option.split)
  ultimately show ?thesis
    using client_trace_snoc [of nm "[]" ?x "(e, CeConnect cb)"] env_same [of ?x]
    by (simp add: client_step_def client_do_def)
qed

lemma parts_run_ready:
  assumes "endpoint_new cr rnd opts = Inr x" and "endpoint_ready cr rnd' created se ce True x = (y, Inr rc)"
  shows "parts_run nm [] y"
proof (cases "created \<and> op_server opts")
  case True
  then obtain s where "server_new cr rnd' True (server_config (x\<lparr>ep_dht := True, ep_created := Suc (ep_created x), ep_opened := True\<rparr>)) = Inr s"
    "ep_server y = Some (fst (server_start se True s))" "ep_client y = None"
    using assms(2) endpoint_new_Inr [OF assms(1)] by (auto simp: endpoint_ready_def Let_def split: sum.splits prod.splits)
  then have "server_trace [(se, SvStart True)] (fst (server_start se True s))" by (intro server_trace_start)
  then show ?thesis using \<open>ep_server y = _\<close> \<open>ep_client y = None\<close> by (auto simp: parts_run_def)
next
  case False
  then show ?thesis
    using assms(2) endpoint_new_Inr [OF assms(1)] client_trace_start [of nm ce True cr True "client_config_of
      (x\<lparr>ep_dht := True, ep_created := Suc (ep_created x), ep_opened := True\<rparr>)"]
    by (auto simp: endpoint_ready_def Let_def parts_run_def split: prod.splits if_splits)
qed

lemma run_endpoint_keeps:
  assumes "run_endpoint cr rnd rnd' loop_ok rc1 rc2 created ce e opts = Running s"
  obtains x y rc where "endpoint_new cr rnd opts = Inr x"
    and "endpoint_ready cr rnd' created (so_server e) ce True x = (y, Inr rc)" and "keeps y (se_endpoint s)"
proof -
  obtain x y rc where x: "endpoint_new cr rnd opts = Inr x"
    and y: "endpoint_ready cr rnd' created (so_server e) ce True x = (y, Inr rc)"
    and s: "s = (let t = report_new e [] ((if se_installed (new_session rc1 rc2 x) then new_session rc1 rc2 x
            else print_line (red ''Warning: could not install the signal handlers'') (new_session rc1 rc2 x))\<lparr>se_endpoint := y\<rparr>)
          in if rc < 0 then session_fail e rc t else t)"
    by (rule run_endpoint_Running [OF assms])
  let ?s = "(if se_installed (new_session rc1 rc2 x) then new_session rc1 rc2 x
    else print_line (red ''Warning: could not install the signal handlers'') (new_session rc1 rc2 x))\<lparr>se_endpoint := y\<rparr>"
  let ?t = "report_new e [] ?s"
  have "se_endpoint ?s = y" by simp
  then have k: "keeps y (se_endpoint ?t)" using keeps_report [of ?s e "[]"] by (simp only:)
  from keeps_rules(2) [OF k keeps_fail] have f: "keeps y (se_endpoint (session_fail e rc ?t))" .
  have "s = (if rc < 0 then session_fail e rc ?t else ?t)" using s by (simp only: Let_def)
  then have "keeps y (se_endpoint s)" using k f by (cases "rc < 0") (simp_all only: if_True if_False)
  with x y show thesis by (rule that)
qed

lemma parts_run_begin: "session_begin s \<Longrightarrow> parts_run nm [] (se_endpoint s)"
  unfolding session_begin_def by (blast elim: run_endpoint_keeps intro: parts_run_keeps parts_run_ready)

text \<open>What an event does to the server or the client, before the program looks at reports.\<close>

definition after_event :: "(u32 \<Rightarrow> string) \<Rightarrow> session_event \<Rightarrow> endpoint \<Rightarrow> endpoint" where
  "after_event nm v x =
     (case v of
        SnServer w \<Rightarrow> x\<lparr>ep_server := map_option (\<lambda>s. server_step s w) (ep_server x)\<rparr>
      | SnClient w \<Rightarrow> x\<lparr>ep_client := map_option (\<lambda>c. client_step nm c w) (ep_client x)\<rparr>
      | SnSignal _ \<Rightarrow> x)"

lemma step_keeps: "keeps (after_event nm (snd ev) (se_endpoint s)) (se_endpoint (session_step nm s ev))"
proof -
  have "keeps x (se_endpoint (report_new e old (t\<lparr>se_endpoint := x\<rparr>)))" for x e old t
    using keeps_report [of "t\<lparr>se_endpoint := x\<rparr>"] by simp
  then show ?thesis
    using keeps_shutdown
    by (cases "snd ev") (simp_all add: after_event_def session_step_def endpoint_event_of_def on_signal_def endpoint_step_def)
qed

lemma enabled_server:
  assumes "session_enabled s (e, SnServer w)" obtains z where "ep_server (se_endpoint s) = Some z" "server_enabled z w"
  using assms that by (auto simp: session_enabled_def endpoint_enabled_def split: option.splits)

lemma enabled_client:
  assumes "session_enabled s (e, SnClient w)" obtains z where "ep_client (se_endpoint s) = Some z" "client_enabled z w"
  using assms that by (auto simp: session_enabled_def endpoint_enabled_def split: option.splits)

lemma parts_run_event:
  assumes r: "parts_run nm evs (se_endpoint s)" and en: "session_enabled s (e, v)"
  shows "parts_run nm (evs @ [(e, v)]) (after_event nm v (se_endpoint s))"
proof (cases v)
  case (SnServer w)
  obtain z where z: "ep_server (se_endpoint s) = Some z" "server_enabled z w"
    using en unfolding SnServer by (rule enabled_server)
  obtain b where "server_trace ((b, SvStart True) # server_events evs) z" using r z(1) unfolding parts_run_def by blast
  from server_trace_snoc [OF this z(2)] show ?thesis
    using r z(1) SnServer by (auto simp: parts_run_def after_event_def)
next
  case (SnClient w)
  obtain z where z: "ep_client (se_endpoint s) = Some z" "client_enabled z w"
    using en unfolding SnClient by (rule enabled_client)
  obtain b where "client_trace nm ((b, CeConnect True) # client_events evs) z" using r z(1) unfolding parts_run_def by blast
  from client_trace_snoc [OF this z(2)] show ?thesis
    using r z(1) SnClient by (auto simp: parts_run_def after_event_def)
qed (use r in \<open>simp add: parts_run_def after_event_def\<close>)

lemma parts_run_step:
  "parts_run nm evs (se_endpoint s) \<Longrightarrow> session_enabled s ev \<Longrightarrow> parts_run nm (evs @ [ev]) (se_endpoint (session_step nm s ev))"
  using parts_run_keeps [OF parts_run_event step_keeps [of nm ev s]] by (cases ev) simp

lemma session_trace_parts: "session_trace nm evs s \<Longrightarrow> parts_run nm evs (se_endpoint s)"
proof -
  have "session_machine.trace nm evs s \<Longrightarrow> parts_run nm evs (se_endpoint s)"
    by (induction rule: session_machine.trace.induct) (auto intro: parts_run_begin parts_run_step)
  then show "session_trace nm evs s \<Longrightarrow> parts_run nm evs (se_endpoint s)" by (simp add: session_trace_def)
qed

lemma session_client_trace:
  assumes "session_trace nm evs s" and "ep_client (se_endpoint s) = Some c"
  obtains e where "client_trace nm ((e, CeConnect True) # client_events evs) c"
  using session_trace_parts [OF assms(1)] assms(2) that by (auto simp: parts_run_def)

lemma session_conn_trace:
  assumes "session_trace nm evs s" and "ep_server (se_endpoint s) = Some sv" and "sv_heap sv j = Some b"
  obtains fs where "conn_trace fs b" and "alike fs (conn_events j evs)"
proof -
  obtain e where "server_trace ((e, SvStart True) # server_events evs) sv"
    using session_trace_parts [OF assms(1)] assms(2) by (auto simp: parts_run_def)
  from server_trace_conn [OF this assms(3)] obtain fs where
    "conn_trace fs b" "alike fs (bridge_events j ((e, SvStart True) # server_events evs))" by blast
  then show thesis using that by (simp add: conn_events_def bridge_events_def bridge_event_def)
qed

text \<open>Connecting brings and reads nothing.\<close>

lemma connect_reads [simp]:
  "client_reads i ((e, CeConnect b) # evs) = client_reads i evs"
  "client_brought i ((e, CeConnect b) # evs) = client_brought i evs"
  "client_data i ((e, CeConnect b) # evs) = client_data i evs"
  "datagrams nm a ((e, CeConnect b) # evs) = datagrams nm a evs"
  "alone a i ((e, CeConnect b) # evs) k = alone a i evs k"
  by (simp_all add: client_reads_def client_brought_def client_data_def datagrams_def datagram_of_def alone_def
      client_read_of_def client_data_of_def)

lemma alike_replies: "alike fs gs \<Longrightarrow> replies fs = replies gs"
proof -
  assume a: "alike fs gs"
  have "replies fs = replies (filter carrying fs)" for fs
    unfolding replies_def by (rule concat_carrying) (simp add: reply_of_def)
  then show ?thesis using a unfolding alike_def by metis
qed

section \<open>Two programs to look at\<close>

text \<open>A report of success leaves the endpoint as it is, but for its info.\<close>

lemma report_good:
  assumes "list_all ((\<le>) 0) (drop (length old) (reports (se_endpoint s)))"
  shows "ep_server (se_endpoint (report_new e old s)) = ep_server (se_endpoint s)"
    "ep_client (se_endpoint (report_new e old s)) = ep_client (se_endpoint s)"
proof -
  have "ep_server (se_endpoint (fold (ready_cb e) rcs s)) = ep_server (se_endpoint s) \<and>
      ep_client (se_endpoint (fold (ready_cb e) rcs s)) = ep_client (se_endpoint s)" if "list_all ((\<le>) 0) rcs" for rcs
    using that by (induction rcs arbitrary: s) (auto simp: ready_cb_def print_line_def Let_def)
  then show "ep_server (se_endpoint (report_new e old s)) = ep_server (se_endpoint s)"
    "ep_client (se_endpoint (report_new e old s)) = ep_client (se_endpoint s)"
    using assms by (simp_all add: report_new_def)
qed

text \<open>A client program in private mode, over TCP or UDP, after some of its client's events.\<close>

definition dial_options :: "bool option \<Rightarrow> options" where
  "dial_options u = demo_dialler\<lparr>op_port := None, op_host := None, op_udp := u\<rparr>"

abbreviation dial_config :: "bool option \<Rightarrow> client_config" where
  "dial_config u \<equiv> demo_client_config\<lparr>ck_udp := u\<rparr>"

definition dial_events :: "client_event list \<Rightarrow> (session_env \<times> session_event) list" where
  "dial_events es = map (\<lambda>v. (demo_session_env, SnClient (demo_client_env, v))) es"

lemma client_events_dial [simp]: "client_events (dial_events es) = map (Pair demo_client_env) es"
  by (induction es) (simp_all add: client_events_def dial_events_def)

definition dialling :: "client_event list \<Rightarrow> client \<Rightarrow> bool" where
  "dialling es x \<longleftrightarrow>
     (\<exists>A. session_trace dotted_quad (dial_events es) A \<and>
        ep_server (se_endpoint A) = None \<and> ep_client (se_endpoint A) = Some x)"

lemma dialling_start:
  "dialling [] (client_step dotted_quad (client_new demo_crypto2 demo_client_env True (dial_config u)) (demo_client_env, CeConnect True))"
proof -
  obtain x where x: "endpoint_new demo_crypto2 [] (dial_options u) = Inr x"
    by (simp add: endpoint_new_def validate_opts_def dial_options_def demo_dialler_def demo_options_def)
  note n = endpoint_new_Inr [OF x]
  let ?x = "x\<lparr>ep_dht := True, ep_created := Suc (ep_created x), ep_opened := True\<rparr>"
  have cfg: "client_config_of ?x = dial_config u"
    by (simp add: client_config_of_def Let_def n derive_def dial_options_def demo_dialler_def demo_options_def value_or_def
        parse_url_def kProtocol_def demo_client_config_def)
  let ?k = "client_new demo_crypto2 demo_client_env True (dial_config u)"
  obtain c where c: "client_connect True ?k = (c, 0)" "reports (?x\<lparr>ep_client := Some c\<rparr>) = []"
    using n by (simp add: client_connect_def client_new_def new_udp_proxy_def demo_client_env_def demo_client_config_def
        kact_def reports_def Let_def)
  have e: "endpoint_ready demo_crypto2 [] True (so_server demo_session_env) demo_client_env True x = (?x\<lparr>ep_client := Some c\<rparr>, Inr 0)"
    using n c cfg by (simp add: endpoint_ready_def Let_def dial_options_def demo_dialler_def demo_options_def)
  obtain A where A: "run_endpoint demo_crypto2 [] [] True 0 0 True demo_client_env demo_session_env (dial_options u) = Running A"
    "se_endpoint A = ?x\<lparr>ep_client := Some c\<rparr>"
    using x e c(2) by (simp add: run_endpoint_def new_session_def report_new_def Let_def)
  then have "session_trace dotted_quad [] A"
    unfolding session_trace_def by (intro session_machine.trace_nil) (unfold session_begin_def, blast)
  moreover have "c = client_step dotted_quad ?k (demo_client_env, CeConnect True)"
    using c(1) by (simp add: client_step_def client_do_def in_core_def client_new_def new_udp_proxy_def Let_def demo_client_config_def)
  moreover have "dial_events [] = []" by (simp add: dial_events_def)
  ultimately show ?thesis using A(2) n by (auto simp: dialling_def)
qed

text \<open>An event of the client, after which it has not reported a failure.\<close>

lemma client_event_result:
  fixes e :: session_env
  assumes "ep_server (se_endpoint A) = None" and "ep_client (se_endpoint A) = Some x"
    and "list_all ((\<le>) 0) (drop (length (listening_of (k_acts (ux_side x))))
      (listening_of (k_acts (ux_side (client_step nm x (ce, v))))))"
  defines "B \<equiv> session_step nm A (e, SnClient (ce, v))"
  shows "ep_server (se_endpoint B) = None" "ep_client (se_endpoint B) = Some (client_step nm x (ce, v))"
    "ep_options (se_endpoint B) = ep_options (se_endpoint A)"
proof -
  let ?y = "client_step nm x (ce, v)" and ?E = "endpoint_step nm (se_endpoint A) (EpClient (ce, v))"
  have E: "ep_server ?E = None" "ep_client ?E = Some ?y" using assms(1,2) by (simp_all add: endpoint_step_def)
  have r: "reports (se_endpoint A) = listening_of (k_acts (ux_side x))" "reports ?E = listening_of (k_acts (ux_side ?y))"
    using assms(1,2) E by (simp_all add: reports_def listening_of_def)
  show "ep_server (se_endpoint B) = None" "ep_client (se_endpoint B) = Some ?y"
    using report_good [of "reports (se_endpoint A)" "A\<lparr>se_endpoint := ?E\<rparr>" e] assms(3) E r
    by (simp_all add: B_def session_step_def endpoint_event_of_def)
  show "ep_options (se_endpoint B) = ep_options (se_endpoint A)"
    using step_keeps [of nm "(e, SnClient (ce, v))" A] by (simp add: B_def keeps_def after_event_def)
qed

lemma client_event_enabled:
  "ep_client (se_endpoint A) = Some x \<Longrightarrow> client_enabled x (ce, v) \<Longrightarrow> v \<noteq> CeDestroy \<Longrightarrow> \<forall>b. v \<noteq> CeConnect b \<Longrightarrow>
     session_enabled A (e, SnClient (ce, v))"
  by (simp add: session_enabled_def endpoint_enabled_def)

lemma dialling_step:
  assumes "dialling es x" and "client_enabled x (demo_client_env, v)" and "v \<noteq> CeDestroy" and "\<forall>b. v \<noteq> CeConnect b"
    and "list_all ((\<le>) 0) (drop (length (listening_of (k_acts (ux_side x))))
      (listening_of (k_acts (ux_side (client_step dotted_quad x (demo_client_env, v))))))"
  shows "dialling (es @ [v]) (client_step dotted_quad x (demo_client_env, v))"
proof -
  obtain A where A: "session_trace dotted_quad (dial_events es) A"
    "ep_server (se_endpoint A) = None" "ep_client (se_endpoint A) = Some x"
    using assms(1) by (auto simp: dialling_def)
  from session_trace_snoc [OF A(1) client_event_enabled [OF A(3) assms(2-4)], of demo_session_env]
  have "session_trace dotted_quad (dial_events (es @ [v])) (session_step dotted_quad A (demo_session_env, SnClient (demo_client_env, v)))"
    by (simp add: dial_events_def)
  then show ?thesis using client_event_result(1,2) [OF A(2,3) assms(5)] unfolding dialling_def by blast
qed

lemma dialling_silent:
  assumes "dialling es x" and "client_enabled x (demo_client_env, v)" and "silent v"
  shows "dialling (es @ [v]) (client_step dotted_quad x (demo_client_env, v))"
proof (rule dialling_step [OF assms(1,2)])
  obtain evs A where "session_trace dotted_quad evs A" "ep_client (se_endpoint A) = Some x"
    using assms(1) by (auto simp: dialling_def)
  from session_client_trace [OF this] obtain evs' where "client_trace dotted_quad evs' x" by blast
  then have "client_inv x" unfolding client_trace_def by (rule client_machine.trace_inv)
  then have "filed x" by (simp add: client_inv_def sound_def)
  from client_told [OF this assms(3)]
  show "list_all ((\<le>) 0) (drop (length (listening_of (k_acts (ux_side x))))
      (listening_of (k_acts (ux_side (client_step dotted_quad x (demo_client_env, v))))))"
    by (simp add: told_def)
qed (use assms(3) in \<open>auto simp: silent_def\<close>)

text \<open>A server program, whose server has accepted one connection, after some of its events.\<close>

definition serve_options :: "bool \<Rightarrow> options" where
  "serve_options u = (demo_options True True)\<lparr>op_udp := Some u, op_port := Some (if u then 53 else 22)\<rparr>"

definition serve_events :: "conn_event list \<Rightarrow> (session_env \<times> session_event) list" where
  "serve_events es = map (\<lambda>v. (demo_session_env, SnServer (demo_server_env, v)))
     (SvConnection (Some []) (Some 0) # map (SvBridge 0) es)"

lemma conn_events_serve [simp]: "conn_events 0 (serve_events es) = map (Pair demo_conn_env) es"
proof -
  have "bridge_events 0 (server_events (map (\<lambda>v. (demo_session_env, SnServer (demo_server_env, v))) (map (SvBridge 0) es))) =
      map (Pair demo_conn_env) es"
    by (induction es) (simp_all add: bridge_events_def server_events_def bridge_event_def demo_server_env_def)
  then show ?thesis
    by (simp add: conn_events_def serve_events_def bridge_events_def server_events_def bridge_event_def)
qed

definition serving :: "bool \<Rightarrow> conn_event list \<Rightarrow> bridge \<Rightarrow> bool" where
  "serving u es b \<longleftrightarrow>
     (\<exists>B s. session_trace dotted_quad (serve_events es) B \<and> ep_server (se_endpoint B) = Some s \<and> sv_heap s 0 = Some b)"

definition server_reports :: "server \<Rightarrow> int list" where
  "server_reports s = concat (map (\<lambda>a. case a of DListening rc \<Rightarrow> [rc] | _ \<Rightarrow> []) (sv_acts s))"

lemma server_reports_dact [simp]: "(\<forall>rc. a \<noteq> DListening rc) \<Longrightarrow> server_reports (dact a s) = server_reports s"
  by (cases a) (simp_all add: server_reports_def dact_def)

lemma session_server_event:
  assumes "session_trace nm evs B" and "ep_server (se_endpoint B) = Some s" and "server_enabled s (ve, v)"
    and "v \<noteq> SvDestroy" and "\<forall>b. v \<noteq> SvStart b" and "server_reports (server_step s (ve, v)) = server_reports s"
  shows "\<exists>B'. session_trace nm (evs @ [(e, SnServer (ve, v))]) B' \<and> ep_server (se_endpoint B') = Some (server_step s (ve, v))"
proof -
  let ?E = "endpoint_step nm (se_endpoint B) (EpServer (ve, v))"
  have E: "ep_server ?E = Some (server_step s (ve, v))" using assms(2) by (simp add: endpoint_step_def)
  have r: "reports ?E = reports (se_endpoint B)"
    using assms(2,6) E by (simp add: reports_def server_reports_def)
  have "session_enabled B (e, SnServer (ve, v))"
    using assms(2-5) by (simp add: session_enabled_def endpoint_enabled_def)
  from session_trace_snoc [OF assms(1) this] show ?thesis
    using report_good(1) [of "reports (se_endpoint B)" "B\<lparr>se_endpoint := ?E\<rparr>" e] r E
    by (intro exI [of _ "session_step nm B (e, SnServer (ve, v))"]) (simp add: session_step_def endpoint_event_of_def)
qed

lemma serving_step:
  assumes "serving u es b" and "conn_enabled b (demo_conn_env, v)"
  shows "serving u (es @ [v]) (conn_step b (demo_conn_env, v))"
proof -
  obtain B s where B: "session_trace dotted_quad (serve_events es) B" "ep_server (se_endpoint B) = Some s" "sv_heap s 0 = Some b"
    using assms(1) by (auto simp: serving_def)
  have e: "ve_conn demo_server_env = demo_conn_env" by (simp add: demo_server_env_def)
  let ?t = "server_step s (demo_server_env, SvBridge 0 v)"
  have h: "server_reports ?t = server_reports s" "sv_heap ?t 0 = Some (conn_step b (demo_conn_env, v))"
    using B(3) e by (simp_all add: server_step_def server_reports_def)
  have "server_enabled s (demo_server_env, SvBridge 0 v)" using B(3) assms(2) e by (simp add: server_enabled_def)
  from session_server_event [OF B(1,2) this _ _ h(1), of demo_session_env] show ?thesis
    using h(2) by (auto simp: serving_def serve_events_def)
qed

lemma started_ok:
  assumes "sv_dht s0 = True" and "sv_srv s0 = False" and "server_reports s0 = []"
  shows "\<exists>s. server_start demo_server_env True s0 = (s, 0) \<and> sv_srv s \<and> sv_conns s = sv_conns s0 \<and> sv_heap s = sv_heap s0 \<and>
    sv_next s = sv_next s0 \<and> sv_config s = sv_config s0 \<and> server_reports s = []"
  using assms by (cases "cf_secure (sv_config s0)")
    (simp_all add: server_start_def server_publish_def demo_server_env_def dact_def server_reports_def Let_def)

lemma serve_running:
  obtains B s where "run_endpoint demo_crypto (replicate 32 7) (replicate 32 9) True 0 0 True demo_client_env demo_session_env
      (serve_options u) = Running B" "ep_server (se_endpoint B) = Some s"
    "ep_derived (se_endpoint B) = derive demo_crypto (replicate 32 7) (serve_options u)"
    "sv_srv s" "sv_conns s = []" "sv_heap s = Map.empty" "sv_next s = 0"
    "cf_udp (sv_config s) = u" "cf_host (sv_config s) = ''127.0.0.1''" "cf_port (sv_config s) = (if u then 53 else 22)"
proof -
  let ?k = "replicate 32 (7 :: byte)" and ?r = "replicate 32 (9 :: byte)"
  obtain x where x: "endpoint_new demo_crypto ?k (serve_options u) = Inr x"
    by (simp add: endpoint_new_def validate_opts_def serve_options_def demo_options_def)
  note n = endpoint_new_Inr [OF x]
  let ?x = "x\<lparr>ep_dht := True, ep_created := Suc (ep_created x), ep_opened := True\<rparr>"
  have srv: "op_server (serve_options u)" by (simp add: serve_options_def demo_options_def)
  have "cf_seed_hex (server_config ?x) = [] \<or> (\<exists>b. from_hex (cf_seed_hex (server_config ?x)) = Some b \<and> length b = 32)"
    using derive_server(1) [OF srv, of ?k demo_crypto]
    by (simp add: server_config_def Let_def n length_sha256 demo_crypto_law)
  from server_new_total [OF _ this, of ?r] obtain s0 where s0: "server_new demo_crypto ?r True (server_config ?x) = Inr s0"
    by (metis length_replicate)
  note f = server_new_Inr [OF s0]
  have acts: "server_reports s0 = []"
    using s0 by (auto simp: server_new_def Let_def server_reports_def dact_def split: option.splits if_splits)
  have cfg: "cf_udp (sv_config s0) = u" "cf_host (sv_config s0) = ''127.0.0.1''" "cf_port (sv_config s0) = (if u then 53 else 22)"
    by (simp_all add: f(4) seeded_def server_config_def Let_def n serve_options_def demo_options_def value_or_def)
  obtain s where s: "server_start demo_server_env True s0 = (s, 0)" "sv_srv s" "sv_conns s = []" "sv_heap s = Map.empty"
    "sv_next s = 0" "sv_config s = sv_config s0" "server_reports s = []"
    using started_ok [OF f(5,6) acts] f(8,9,12) by auto
  have e: "endpoint_ready demo_crypto ?r True (so_server demo_session_env) demo_client_env True x =
      (?x\<lparr>ep_server := Some s\<rparr>, Inr 0)"
    using n s0 s(1) srv by (simp add: endpoint_ready_def Let_def demo_session_env_def)
  have rep: "reports (?x\<lparr>ep_server := Some s\<rparr>) = []" using s(7) by (simp add: reports_def server_reports_def)
  obtain B where B: "run_endpoint demo_crypto ?k ?r True 0 0 True demo_client_env demo_session_env (serve_options u) = Running B"
    "se_endpoint B = ?x\<lparr>ep_server := Some s\<rparr>"
    using x e rep by (simp add: run_endpoint_def new_session_def report_new_def Let_def)
  show thesis by (rule that [OF B(1), of s]) (use s cfg n in \<open>simp_all add: B(2)\<close>)
qed

lemma serving_start: "serving u [] (accept_bridge demo_conn_env u ''127.0.0.1'' (if u then 53 else 22))"
proof -
  obtain B s where B: "run_endpoint demo_crypto (replicate 32 7) (replicate 32 9) True 0 0 True demo_client_env demo_session_env
      (serve_options u) = Running B" and sv: "ep_server (se_endpoint B) = Some s"
    and s: "sv_srv s" "sv_conns s = []" "sv_heap s = Map.empty" "sv_next s = 0"
      "cf_udp (sv_config s) = u" "cf_host (sv_config s) = ''127.0.0.1''" "cf_port (sv_config s) = (if u then 53 else 22)"
    by (rule serve_running)
  have t: "session_trace dotted_quad [] B"
    unfolding session_trace_def using B by (intro session_machine.trace_nil) (unfold session_begin_def, blast)
  let ?v = "SvConnection (Some []) (Some 0)"
  let ?t = "server_step s (demo_server_env, ?v)"
  have r: "server_reports ?t = server_reports s" "sv_heap ?t 0 = Some (accept_bridge demo_conn_env u ''127.0.0.1'' (if u then 53 else 22))"
    using s by (simp_all add: server_step_def connection_cb_def Let_def demo_server_env_def server_reports_def dact_def)
  have "server_enabled s (demo_server_env, ?v)" using s(2) by (simp add: server_enabled_def)
  from session_server_event [OF t sv this _ _ r(1), of demo_session_env] show ?thesis
    using r(2) by (auto simp: serving_def serve_events_def)
qed

end
