(* ===== verification/Hs_Tunnel.thy ===== *)
theory Hs_Tunnel
  imports Hs_Program
begin

text \<open>
  The tunnel end to end: two runs of the program, a connection of the client in one and of the
  server in the other, each with its pipe or its proxy, in any interleaving of their callbacks,
  over TCP and over UDP. The
  encrypted stream between them belongs to hyperdht, which delivers the bytes it has taken, in
  order: what it has brought to one end is a beginning of what the other end has written to it.
\<close>

section \<open>TCP\<close>

text \<open>A connection of the client and one of the server.\<close>

lemma tcp_conns:
  assumes "client_trace nm evs x" and "kget (ux_side x) i = Some (Piped s)"
    and "conn_trace fs (TcpBridge t)" and "greets fs"
    and "prefix (conn_brought fs) (cwire (side_st (sys_pipe s)))"
    and "prefix (client_brought i evs) (wire (side_st (sys_pipe t)))"
  defines "app \<equiv> sys_pipe s" and "service \<equiv> sys_pipe t"
  shows "prefix (written service) (client_reads i evs) \<and> prefix (written app) (conn_reads fs) \<and>
    (pipe_writes service \<and> \<not> destroyed app \<and> conn_brought fs = cwire (side_st app) \<longrightarrow>
       written service = client_reads i evs) \<and>
    (pipe_writes app \<and> \<not> destroyed service \<and> co_open (side_st service) \<and>
       client_brought i evs = wire (side_st service) \<longrightarrow> written app = conn_reads fs)"
proof -
  have "slot_carries i evs (Piped s)"
    using client_carries_trace [OF assms(1), of i] assms(2) by (simp add: client_carries_def)
  then have c: "prefix (cwire (side_st app)) (client_reads i evs)" "prefix (written app) (client_brought i evs)"
    "\<not> destroyed app \<Longrightarrow> cwire (side_st app) = client_reads i evs"
    "pipe_writes app \<Longrightarrow> written app = client_brought i evs"
    by (simp_all add: slot_carries_def client_flow.carries_def app_def)
  have "srv_carries fs t" by (rule srv_carries_trace [OF assms(3,4)])
  then have d: "prefix (taken (side_st service)) (conn_reads fs)" "prefix (written service) (conn_brought fs)"
    "\<not> destroyed service \<Longrightarrow> taken (side_st service) = conn_reads fs"
    "pipe_writes service \<Longrightarrow> written service = conn_brought fs"
    by (auto simp: srv_carries_def srv_flow.carries_def service_def)
  have w: "prefix (wire (side_st service)) (conn_reads fs)"
    using d(1) by (auto simp: taken_def dest: append_prefixD)
  have "conn_ok (side_st service)"
    using conn_trace_inv [OF assms(3)] by (simp add: conn_inv_def tcp_bridge_inv_def service_def Let_def)
  then have "taken (side_st service) = wire (side_st service)" if "co_open (side_st service)"
    using that by (simp add: taken_def conn_ok_def)
  moreover have "prefix (written service) (client_reads i evs)"
    using d(2) assms(5) c(1) unfolding app_def by (meson prefix_order.trans)
  moreover have "prefix (written app) (conn_reads fs)"
    using c(2) assms(6) w unfolding service_def by (meson prefix_order.trans)
  ultimately show ?thesis using c(3,4) d(3,4) by auto
qed

text \<open>
  C1: The TCP tunnel end to end. Take any run of a program with a client and any run of a program
  with a server, from the command line's options on, with any callbacks and signals in any
  order; a connection of each, where the service's greeting fits its buffer and is taken when
  the stream opens; and a stream between the two which delivers in order. Then the bytes handed
  to the service's socket are a beginning of what the application has written, and the bytes
  handed to the application's socket are a beginning of what the service has written: nothing
  is lost, reordered, repeated or invented, whatever the programs' other connections do. While
  the ends are up and the stream has delivered everything, they are all of it.
\<close>

theorem tcp_tunnel:
  assumes "session_trace nm evs A" and "ep_client (se_endpoint A) = Some x" and "kget (ux_side x) i = Some (Piped s)"
    and "session_trace nm' fs B" and "ep_server (se_endpoint B) = Some v" and "sv_heap v j = Some (TcpBridge t)"
    and "greets (conn_events j fs)"
    and "prefix (conn_brought (conn_events j fs)) (cwire (side_st (sys_pipe s)))"
    and "prefix (client_brought i (client_events evs)) (wire (side_st (sys_pipe t)))"
  defines "app \<equiv> sys_pipe s" and "service \<equiv> sys_pipe t"
  shows "prefix (written service) (client_reads i (client_events evs)) \<and>
    prefix (written app) (conn_reads (conn_events j fs)) \<and>
    (pipe_writes service \<and> \<not> destroyed app \<and> conn_brought (conn_events j fs) = cwire (side_st app) \<longrightarrow>
       written service = client_reads i (client_events evs)) \<and>
    (pipe_writes app \<and> \<not> destroyed service \<and> co_open (side_st service) \<and>
       client_brought i (client_events evs) = wire (side_st service) \<longrightarrow>
       written app = conn_reads (conn_events j fs))"
proof -
  obtain e where c: "client_trace nm ((e, CeConnect True) # client_events evs) x"
    by (rule session_client_trace [OF assms(1,2)])
  obtain gs where g: "conn_trace gs (TcpBridge t)" "alike gs (conn_events j fs)"
    by (rule session_conn_trace [OF assms(4-6)])
  note same = alike_greets [OF g(2)] alike_brought [OF g(2)] alike_reads [OF g(2)]
  show ?thesis
    using tcp_conns [OF c assms(3) g(1)] assms(7-9) unfolding same connect_reads app_def service_def by blast
qed

text \<open>
  A run: the application writes two bytes, the service greets with one before the stream opens.
\<close>

definition tunnel_0 :: client where
  "tunnel_0 = client_new demo_crypto2 demo_client_env True (demo_client_config\<lparr>ck_udp := None\<rparr>)"

definition tunnel_listening :: client where
  "tunnel_listening = client_step dotted_quad (client_step dotted_quad tunnel_0 (demo_client_env, CeConnect True))
     (demo_client_env, CeDone)"

definition tunnel_accepted :: client where
  "tunnel_accepted = client_step dotted_quad tunnel_listening (demo_client_env, CeAccept 0 0 0)"

definition tunnel_dialed :: client where
  "tunnel_dialed = client_step dotted_quad tunnel_accepted (demo_client_env, CeDialed 1 0 True True)"

definition tunnel_piped :: client where
  "tunnel_piped = client_step dotted_quad tunnel_dialed (demo_client_env, CeOpen 1)"

definition tunnel_end :: client where
  "tunnel_end = client_step dotted_quad (client_step dotted_quad tunnel_piped (demo_client_env, CePipe 1 (EvRead 2 [1, 2])))
     (demo_client_env, CeData 1 [7])"

definition tunnel_run :: "client_event list" where
  "tunnel_run = [CeDone, CeAccept 0 0 0, CeDialed 1 0 True True, CeOpen 1, CePipe 1 (EvRead 2 [1, 2]), CeData 1 [7]]"

lemma tunnel_listening_state:
  "k_conns (ux_side tunnel_listening) = []" "k_next (ux_side tunnel_listening) = 1" "k_dials (ux_side tunnel_listening) = []"
  "k_streams (ux_side tunnel_listening) = []" "k_dht (ux_side tunnel_listening)" "\<not> k_destroyed (ux_side tunnel_listening)"
  "px_handle (k_tcp_proxy (ux_side tunnel_listening))" "px_on_connection (k_tcp_proxy (ux_side tunnel_listening))"
  by (simp_all add: tunnel_listening_def tunnel_0_def client_run_defs demo_client_defs client_new_def in_core_def
      new_udp_proxy_def kact_def new_proxy_def proxy_listen_def resolve_def resolve_ip4_def loopback_resolver_def uv_codes)

lemma tunnel_listening_run: "dialling [CeDone] tunnel_listening"
proof -
  let ?x = "client_step dotted_quad tunnel_0 (demo_client_env, CeConnect True)"
  have "dialling [] ?x" unfolding tunnel_0_def by (rule dialling_start)
  from dialling_step [OF this, of CeDone] show ?thesis
    by (simp add: tunnel_listening_def tunnel_0_def client_run_defs demo_client_defs client_new_def in_core_def
      new_udp_proxy_def kact_def new_proxy_def proxy_listen_def resolve_def resolve_ip4_def loopback_resolver_def uv_codes
      listening_of_def)
qed

lemma tunnel_accepted_state:
  "k_conns (ux_side tunnel_accepted) = [(1, Bare (new_client_conn 1 False []))]" "k_dials (ux_side tunnel_accepted) = [1]"
  "k_streams (ux_side tunnel_accepted) = []" "\<not> k_destroyed (ux_side tunnel_accepted)"
  by (simp_all add: tunnel_accepted_def tunnel_listening_state client_run_defs proxy_connection_cb_def
      on_local_connection_def new_client_conn_def demo_client_env_def kact_def in_core_def)

lemma tunnel_dialed_state:
  "k_conns (ux_side tunnel_dialed) = [(1, Bare ((new_client_conn 1 False [])\<lparr>cn_connect_pending := False, cn_stream := True\<rparr>))]"
  "k_streams (ux_side tunnel_dialed) = [1]"
  by (simp_all add: tunnel_dialed_def tunnel_accepted_state client_run_defs in_core_def)

definition tunnel_conn :: client_conn where
  "tunnel_conn = (new_client_conn 1 False [])\<lparr>cn_connect_pending := False, cn_stream := True, cn_open := True, cn_tcp := False\<rparr>"

definition tunnel_pipe :: "client_conn tcp_sys" where
  "tunnel_pipe = tcp_step (conn_side 0)
     \<lparr>sys_pipe = new_pipe True tunnel_conn, wq = [], tcp_sys.dq = [], conn_req = False\<rparr> (demo_env, EvAdopt)"

lemma tunnel_piped_state:
  "k_conns (ux_side tunnel_piped) = [(1, Piped tunnel_pipe)]" "k_streams (ux_side tunnel_piped) = [1]"
  by (simp_all add: tunnel_piped_def tunnel_dialed_state client_run_defs in_core_def pipe_event_def tunnel_pipe_def
     tunnel_conn_def new_client_conn_def adopt_def new_pipe_def demo_client_env_def tcp_step_def pipe_defs)

definition tunnel_carried :: "client_conn tcp_sys" where
  "tunnel_carried = tcp_step (conn_side 0) (tcp_step (conn_side 0) tunnel_pipe (demo_env, EvRead 2 [1, 2])) (demo_env, EvData [7])"

lemmas tunnel_defs = pipe_run_defs tunnel_pipe_def tunnel_conn_def new_client_conn_def conn_write_def ccalled_def

lemma tunnel_pipe_state: "reading (sys_pipe tunnel_pipe)" "has_on_destroy (sys_pipe tunnel_pipe)"
  "has_on_destroy (sys_pipe (tcp_step (conn_side 0) tunnel_pipe (demo_env, EvRead 2 [1, 2])))"
  "has_on_destroy (sys_pipe tunnel_carried)" "cwire (side_st (sys_pipe tunnel_carried)) = [1, 2]"
  "written (sys_pipe tunnel_carried) = [7]" "\<not> destroyed (sys_pipe tunnel_carried)" "pipe_writes (sys_pipe tunnel_carried)"
  "\<not> cn_udp (side_st (sys_pipe (tcp_step (conn_side 0) tunnel_pipe (demo_env, EvRead 2 [1, 2]))))"
  by (simp_all add: tunnel_carried_def tunnel_defs cwire_def written_def pipe_writes_def)

lemma tunnel_end_state: "kget (ux_side tunnel_end) 1 = Some (Piped tunnel_carried)"
  using tunnel_pipe_state
  by (simp add: tunnel_end_def tunnel_piped_state client_run_defs in_core_def pipe_event_def demo_client_env_def tunnel_carried_def)

lemma tunnel_end_run: "dialling tunnel_run tunnel_end"
proof -
  have "dialling [CeDone, CeAccept 0 0 0] tunnel_accepted"
    using dialling_silent [OF tunnel_listening_run, of "CeAccept 0 0 0"]
    by (simp add: tunnel_accepted_def client_enabled_def tunnel_listening_state silent_def)
  from dialling_silent [OF this, of "CeDialed 1 0 True True"]
  have "dialling [CeDone, CeAccept 0 0 0, CeDialed 1 0 True True] tunnel_dialed"
    by (simp add: tunnel_dialed_def client_enabled_def tunnel_accepted_state silent_def)
  from dialling_silent [OF this, of "CeOpen 1"]
  have "dialling [CeDone, CeAccept 0 0 0, CeDialed 1 0 True True, CeOpen 1] tunnel_piped"
    by (simp add: tunnel_piped_def client_enabled_def tunnel_dialed_state silent_def)
  from dialling_silent [OF this, of "CePipe 1 (EvRead 2 [1, 2])"]
  have "dialling [CeDone, CeAccept 0 0 0, CeDialed 1 0 True True, CeOpen 1, CePipe 1 (EvRead 2 [1, 2])]
      (client_step dotted_quad tunnel_piped (demo_client_env, CePipe 1 (EvRead 2 [1, 2])))"
    by (simp add: client_enabled_def kget_def tunnel_piped_state loop_tcp_def tcp_enabled_def tunnel_pipe_state kScratch_def
        silent_def)
  from dialling_silent [OF this, of "CeData 1 [7]"] show ?thesis
    by (simp add: tunnel_end_def tunnel_run_def client_enabled_def client_step_def client_do_def tunnel_piped_state silent_def)
qed

definition tunnel_server :: "conn_event list" where
  "tunnel_server = [ConnTcp (EvConnected 0), ConnTcp (EvRead 1 [7]), ConnOpen, ConnData [1, 2]]"

lemma tunnel_server_run: "\<exists>t. serving False tunnel_server (TcpBridge t) \<and> wire (side_st (sys_pipe t)) = [7] \<and>
    written (sys_pipe t) = [1, 2] \<and> pipe_writes (sys_pipe t) \<and> co_open (side_st (sys_pipe t))"
proof -
  let ?e = "\<lambda>v. (demo_conn_env, v)"
  let ?b2 = "conn_step demo_bridge (?e (ConnTcp (EvRead 1 [7])))"
  let ?b3 = "conn_step ?b2 (?e ConnOpen)"
  let ?b4 = "conn_step ?b3 (?e (ConnData [1, 2]))"
  have "serving False [] (accept_bridge demo_conn_env False ''127.0.0.1'' 22)" using serving_start [of False] by simp
  from serving_step [OF this, of "ConnTcp (EvConnected 0)"]
  have "serving False [ConnTcp (EvConnected 0)] demo_bridge" by (simp add: conn_run_defs)
  from serving_step [OF this, of "ConnTcp (EvRead 1 [7])"]
  have t2: "serving False [ConnTcp (EvConnected 0), ConnTcp (EvRead 1 [7])] ?b2" by (simp add: conn_run_defs)
  note d = conn_run_defs side_write_def kMaxPendingBytes_def stream_open_cb_def map_conn_def fire_drain_def scalled_def
  have b3: "co_stream (conn_of ?b2)" "\<not> co_open (conn_of ?b2)" by (simp_all add: d)
  from serving_step [OF t2, of ConnOpen]
  have t3: "serving False [ConnTcp (EvConnected 0), ConnTcp (EvRead 1 [7]), ConnOpen] ?b3"
    using b3 by (simp add: conn_enabled_def)
  have "co_stream (conn_of ?b3)" by (simp add: d)
  then have t4: "serving False tunnel_server ?b4"
    using serving_step [OF t3, of "ConnData [1, 2]"] by (simp add: conn_enabled_def tunnel_server_def)
  have "\<exists>t. ?b4 = TcpBridge t \<and> wire (side_st (sys_pipe t)) = [7] \<and>
    written (sys_pipe t) = [1, 2] \<and> pipe_writes (sys_pipe t) \<and> co_open (side_st (sys_pipe t))"
    by (simp add: d stream_data_cb_def wire_def written_def pipe_writes_def)
  then show ?thesis using t4 by auto
qed

theorem tcp_tunnel_witness:
  "\<exists>A B v t. session_trace dotted_quad (dial_events tunnel_run) A \<and> ep_client (se_endpoint A) = Some tunnel_end \<and>
     session_trace dotted_quad (serve_events tunnel_server) B \<and> ep_server (se_endpoint B) = Some v \<and>
     sv_heap v 0 = Some (TcpBridge t) \<and> written (sys_pipe t) = [1, 2] \<and> written (sys_pipe tunnel_carried) = [7] \<and>
     client_reads 1 (client_events (dial_events tunnel_run)) = [1, 2] \<and>
     conn_reads (conn_events 0 (serve_events tunnel_server)) = [7]"
proof -
  obtain A where A: "session_trace dotted_quad (dial_events tunnel_run) A" "ep_client (se_endpoint A) = Some tunnel_end"
    using tunnel_end_run by (auto simp: dialling_def)
  obtain t where t: "serving False tunnel_server (TcpBridge t)" "wire (side_st (sys_pipe t)) = [7]"
    "pipe_writes (sys_pipe t)" "co_open (side_st (sys_pipe t))"
    using tunnel_server_run by blast
  then obtain B v where B: "session_trace dotted_quad (serve_events tunnel_server) B"
    "ep_server (se_endpoint B) = Some v" "sv_heap v 0 = Some (TcpBridge t)"
    by (auto simp: serving_def)
  have r: "client_reads 1 (client_events (dial_events tunnel_run)) = [1, 2]"
    "client_brought 1 (client_events (dial_events tunnel_run)) = [7]"
    by (simp_all add: client_reads_def client_brought_def tunnel_run_def client_read_of_def client_data_of_def read_of_def)
  have q: "conn_reads (conn_events 0 (serve_events tunnel_server)) = [7]"
    "conn_brought (conn_events 0 (serve_events tunnel_server)) = [1, 2]" "greets (conn_events 0 (serve_events tunnel_server))"
    by (simp_all add: conn_reads_def conn_brought_def tunnel_server_def conn_read_of_def conn_data_of_def read_of_def
        greets_def demo_conn_env_def kMaxPendingBytes_def)
  show ?thesis
    using tcp_tunnel [OF A tunnel_end_state B q(3)] r q t A B tunnel_pipe_state
    by (auto simp: pipe_writes_def)
qed

section \<open>UDP\<close>

lemma udp_conns:
  assumes "client_trace nm evs x" and "kget (ux_side x) i = Some (Bare c)" and "cn_udp c"
    and "conn_trace fs (UdpBridge p)" and "prefix (conn_brought fs) (cwire c)"
    and "list_all (\<lambda>d. length d \<le> kMaxDatagram) (datagrams nm (cn_client_id c) evs)"
  shows "\<exists>ds. sends_of (u_acts p) = map (Pair (u_local p)) ds \<and> subseq ds (datagrams nm (cn_client_id c) evs) \<and>
    (udp_up p \<and> conn_brought fs = cwire c \<longrightarrow> cwire c = concat (map frame ds))"
proof -
  let ?rs = "datagrams nm (cn_client_id c) evs"
  have "framed ?rs c" using udp_framed_trace [OF assms(1)] assms(2,3) by (simp add: udp_framed_def)
  then obtain ds ps where d: "cwire c = concat (map frame ds)" "subseq (ds @ ps) ?rs" by (auto simp: framed_def frames_in_def)
  have "subseq ds (ds @ ps)" by auto
  then have sub: "subseq ds ?rs" using d(2) by (rule subseq_order.trans)
  then have ok: "list_all (\<lambda>d. length d \<le> kMaxDatagram) ds"
    using assms(6) by (auto simp: list_all_iff dest: list_emb_set)
  obtain B ok' r gs where g: "prefix B (conn_brought fs)" "deframe B = (ok', r, gs)"
    "sends_of (u_acts p) = map (Pair (u_local p)) gs" "udp_up p \<Longrightarrow> B = conn_brought fs"
    using udp_carries_trace [OF assms(4)] by (auto simp: udp_carries_def)
  have B: "prefix B (concat (map frame ds))" using g(1) assms(5) d(1) by (metis prefix_order.trans)
  note p = deframe_prefix [OF B ok g(2)]
  have "subseq gs ?rs" using p(1) sub by (blast intro: subseq_order.trans)
  moreover have "cwire c = concat (map frame gs)" if "udp_up p" "conn_brought fs = cwire c"
    using p(2) g(4) that d(1) by simp
  ultimately show ?thesis using g(3) by blast
qed

lemma udp_conns_back:
  assumes "client_trace nm evs x" and "ux_clients x a = Some u" and "uc_stream u = udp_side i"
    and "alone a i evs (ux_side x)"
    and "conn_trace fs (UdpBridge p)" and "prefix (client_data i evs) (wire (u_side p))"
    and "list_all (\<lambda>d. length d \<le> kMaxDatagram) (replies fs)"
  shows "subseq (sends_to nm a x) (replies fs) \<and>
    (client_data i evs = wire (u_side p) \<longrightarrow> wire (u_side p) = concat (map frame (sends_to nm a x)))"
proof -
  have d: "deframe (client_data i evs) = (True, uc_buf u, sends_to nm a x)"
    using sent_back_trace [OF assms(1)] assms(2-4) by (simp add: sent_back_def)
  obtain ds ps where w: "wire (u_side p) = concat (map frame ds)" "subseq (ds @ ps) (replies fs)"
    using reply_framed_trace [OF assms(5)] by (auto simp: reply_framed_def frames_in_def)
  have sub: "subseq ds (replies fs)" using w(2) by (rule subseq_order.trans [rotated]) auto
  then have "list_all (\<lambda>d. length d \<le> kMaxDatagram) ds" using assms(7) by (auto simp: list_all_iff dest: list_emb_set)
  note g = deframe_prefix [OF assms(6) [unfolded w(1)] this d]
  show ?thesis using g sub w(1) by (auto intro: subseq_order.trans)
qed

text \<open>
  C9: The UDP tunnel end to end, in any run of a program with a client and any run of a program
  with a server. The datagrams a connection of the server sends to the service are a
  subsequence of those the application at one address has sent to the client's proxy (each
  within the cap, as IPv4 datagrams are): datagrams may be dropped, but none is altered, cut,
  merged, repeated, reordered or taken from another application. While the server's pipe is up
  and the stream has delivered everything, they are exactly those written to the stream.
\<close>

theorem udp_tunnel:
  assumes "session_trace nm evs A" and "ep_client (se_endpoint A) = Some x"
    and "kget (ux_side x) i = Some (Bare c)" and "cn_udp c"
    and "session_trace nm' fs B" and "ep_server (se_endpoint B) = Some v" and "sv_heap v j = Some (UdpBridge p)"
    and "prefix (conn_brought (conn_events j fs)) (cwire c)"
    and "list_all (\<lambda>d. length d \<le> kMaxDatagram) (datagrams nm (cn_client_id c) (client_events evs))"
  shows "\<exists>ds. sends_of (u_acts p) = map (Pair (u_local p)) ds \<and>
    subseq ds (datagrams nm (cn_client_id c) (client_events evs)) \<and>
    (udp_up p \<and> conn_brought (conn_events j fs) = cwire c \<longrightarrow> cwire c = concat (map frame ds))"
proof -
  obtain e where c: "client_trace nm ((e, CeConnect True) # client_events evs) x"
    by (rule session_client_trace [OF assms(1,2)])
  obtain gs where g: "conn_trace gs (UdpBridge p)" "alike gs (conn_events j fs)"
    by (rule session_conn_trace [OF assms(5-7)])
  show ?thesis
    using udp_conns [OF c assms(3,4) g(1)] assms(8,9) unfolding alike_brought [OF g(2)] connect_reads by blast
qed

text \<open>
  C10: And back. Let the stream \<open>i\<close> be filed for the application at the address \<open>a\<close>, and let no
  other stream of that application have brought anything. Then the datagrams the client's
  proxy has sent to \<open>a\<close> are a subsequence of those the service has sent to the connection at
  the other end, whatever the other applications' streams bring and however the bytes are cut
  into chunks, and when the stream has delivered everything they are exactly those the server
  has written to it.
\<close>

theorem udp_tunnel_back:
  assumes "session_trace nm evs A" and "ep_client (se_endpoint A) = Some x"
    and "ux_clients x a = Some u" and "uc_stream u = udp_side i"
    and "alone a i (client_events evs) (ux_side x)"
    and "session_trace nm' fs B" and "ep_server (se_endpoint B) = Some v" and "sv_heap v j = Some (UdpBridge p)"
    and "prefix (client_data i (client_events evs)) (wire (u_side p))"
    and "list_all (\<lambda>d. length d \<le> kMaxDatagram) (replies (conn_events j fs))"
  shows "subseq (sends_to nm a x) (replies (conn_events j fs)) \<and>
    (client_data i (client_events evs) = wire (u_side p) \<longrightarrow> wire (u_side p) = concat (map frame (sends_to nm a x)))"
proof -
  obtain e where c: "client_trace nm ((e, CeConnect True) # client_events evs) x"
    by (rule session_client_trace [OF assms(1,2)])
  obtain gs where g: "conn_trace gs (UdpBridge p)" "alike gs (conn_events j fs)"
    by (rule session_conn_trace [OF assms(6-8)])
  show ?thesis
    using udp_conns_back [OF c assms(3,4) _ g(1)] assms(5,9,10) unfolding alike_replies [OF g(2)] connect_reads by blast
qed

text \<open>A run: one datagram, sent before the stream is open.\<close>

definition udp_run :: "client_event list" where
  "udp_run = [CeDone, CeRecv 1 [9] (Some demo_app) False, CeDialed 1 0 True True, CeOpen 1]"

definition udp_server_run :: "conn_event list" where
  "udp_server_run = [ConnOpen, ConnData [0, 0, 0, 1, 9]]"

lemma udp_client_run: "dialling udp_run demo_c3"
proof -
  let ?x = "client_step dotted_quad (client_new demo_crypto2 demo_client_env True demo_client_config) (demo_client_env, CeConnect True)"
  have "dial_config (Some True) = demo_client_config" by (simp add: demo_client_config_def)
  then have "dialling [] ?x" using dialling_start [of "Some True"] by simp
  from dialling_step [OF this, of CeDone] have "dialling [CeDone] demo_c1"
    by (simp add: demo_c1_def client_run_defs demo_client_defs client_new_def in_core_def new_udp_proxy_def kact_def new_proxy_def
        resolve_def resolve_ip4_def loopback_resolver_def uv_codes listening_of_def)
  from dialling_silent [OF this, of "CeRecv 1 [9] (Some demo_app) False"]
  have "dialling [CeDone, CeRecv 1 [9] (Some demo_app) False] demo_c2"
    by (simp add: demo_c2_def demo_recv_def client_enabled_def demo_c1_state silent_def)
  from dialling_silent [OF this, of "CeDialed 1 0 True True"]
  have "dialling [CeDone, CeRecv 1 [9] (Some demo_app) False, CeDialed 1 0 True True] demo_mid"
    by (simp add: demo_mid_def client_enabled_def demo_c2_state silent_def)
  from dialling_silent [OF this, of "CeOpen 1"] show ?thesis
    by (simp add: demo_c3_def demo_mid_def [symmetric] udp_run_def client_enabled_def demo_mid_state silent_def)
qed

definition udp_accepted :: "srv_conn udp_pipe" where
  "udp_accepted = udp_step (make_side 0) (new_udp_pipe True new_srv_conn) (demo_udp_env, UEvStart ''127.0.0.1'' 53)"

lemma udp_accepted_state: "u_sock udp_accepted = Some Open" "\<not> u_destroyed udp_accepted" "u_buf udp_accepted = []"
  "u_side udp_accepted = new_srv_conn" "sends_of (u_acts udp_accepted) = []"
  by (simp_all add: udp_accepted_def udp_step_def udp_start_def new_udp_pipe_def resolve_def resolve_ip4_def demo_udp_env_def
      loopback_resolver_def uv_codes uemit_def Let_def)

lemma frame_9: "frame [9] = [0, 0, 0, 1, 9]"
  by (simp add: frame_def frame_header_def)

definition udp_opened :: "srv_conn udp_pipe" where
  "udp_opened = udp_accepted\<lparr>u_side := new_srv_conn\<lparr>co_open := True\<rparr>\<rparr>"

lemma udp_opened_run: "serving True [ConnOpen] (UdpBridge udp_opened)"
proof -
  have "serving True [] (accept_bridge demo_conn_env True ''127.0.0.1'' 53)" using serving_start [of True] by simp
  then have "serving True [] (UdpBridge udp_accepted)"
    by (simp add: accept_bridge_def udp_accepted_def demo_conn_env_def)
  from serving_step [OF this, of ConnOpen] show ?thesis
    by (simp add: conn_enabled_def conn_step_def stream_open_cb_def map_conn_def conn_of_def udp_accepted_state
        new_srv_conn_def udp_opened_def Let_def)
qed

lemma udp_serving: "\<exists>p. serving True udp_server_run (UdpBridge p) \<and> udp_up p"
proof -
  let ?p2 = "udp_step (make_side 0) udp_opened (demo_udp_env, UEvData (frame [9]))"
  from serving_step [OF udp_opened_run, of "ConnData (frame [9])"]
  have "serving True udp_server_run (UdpBridge ?p2)"
    by (simp add: conn_enabled_def conn_step_def stream_data_cb_def conn_of_def new_srv_conn_def udp_server_run_def
        frame_9 demo_conn_env_def udp_opened_def)
  moreover have "decoder_push [] (frame [9]) = (True, [], [[9]])" by (rule framing.push_enc) (simp add: kMaxDatagram_def)
  then have "udp_up ?p2"
    by (simp add: udp_step_def udp_on_stream_data_def udp_accepted_state udp_up_def frame_9 udp_opened_def)
  ultimately show ?thesis by blast
qed

text \<open>The service answers with one datagram, which the stream brings to the client.\<close>

definition udp_reply_run :: "conn_event list" where
  "udp_reply_run = [ConnOpen, ConnUdp (UEvRecv 1 [5] (Some demo_app) False)]"

lemma udp_replying: "\<exists>p. serving True udp_reply_run (UdpBridge p) \<and> wire (u_side p) = frame [5]"
proof -
  let ?p2 = "udp_step (make_side 0) udp_opened (demo_udp_env, UEvRecv 1 [5] (Some demo_app) False)"
  from serving_step [OF udp_opened_run, of "ConnUdp (UEvRecv 1 [5] (Some demo_app) False)"]
  have "serving True udp_reply_run (UdpBridge ?p2)"
    by (simp add: conn_enabled_def conn_step_def loop_udp_def udp_enabled_def udp_reply_run_def demo_conn_env_def
        udp_opened_def udp_accepted_state)
  moreover have "wire (u_side ?p2) = frame [5]"
    by (simp add: udp_step_def udp_recv_cb_def udp_opened_def udp_accepted_state is_end_of_pass_def side_write_def
        new_srv_conn_def Let_def) (simp add: wire_def scalled_def)
  ultimately show ?thesis by blast
qed

definition udp_answered :: client where
  "udp_answered = client_step dotted_quad demo_c3 (demo_client_env, CeData 1 (frame [5]))"

theorem udp_tunnel_witness:
  "\<exists>A B v p. session_trace dotted_quad (dial_events udp_run) A \<and> ep_client (se_endpoint A) = Some demo_c3 \<and>
     session_trace dotted_quad (serve_events udp_server_run) B \<and> ep_server (se_endpoint B) = Some v \<and>
     sv_heap v 0 = Some (UdpBridge p) \<and> sends_of (u_acts p) = [(u_local p, [9])] \<and>
     datagrams dotted_quad demo_id (client_events (dial_events udp_run)) = [[9]]"
proof -
  obtain A where A: "session_trace dotted_quad (dial_events udp_run) A" "ep_client (se_endpoint A) = Some demo_c3"
    using udp_client_run by (auto simp: dialling_def)
  obtain p where "serving True udp_server_run (UdpBridge p)" and up: "udp_up p" using udp_serving by blast
  then obtain B v where B: "session_trace dotted_quad (serve_events udp_server_run) B"
    "ep_server (se_endpoint B) = Some v" "sv_heap v 0 = Some (UdpBridge p)"
    by (auto simp: serving_def)
  have k: "kget (ux_side demo_c3) 1 = Some (Bare demo_old)" by (simp add: demo_c3_state)
  have w: "cwire demo_old = frame [9]"
    by (simp add: demo_old_def opened_def demo_conn_def cwire_def new_client_conn_def ccalled_def)
  have b: "conn_brought (conn_events 0 (serve_events udp_server_run)) = frame [9]"
    by (simp add: udp_server_run_def conn_brought_def conn_data_of_def frame_9)
  have d: "datagrams dotted_quad demo_id (client_events (dial_events udp_run)) = [[9]]"
    by (simp add: datagrams_def udp_run_def datagram_of_def)
  have fit: "list_all (\<lambda>d. length d \<le> kMaxDatagram)
      (datagrams dotted_quad (cn_client_id demo_old) (client_events (dial_events udp_run)))"
    unfolding demo_old_sel d by (simp add: kMaxDatagram_def)
  obtain ds where ds: "sends_of (u_acts p) = map (Pair (u_local p)) ds" "subseq ds [[9]]"
    "frame [9] = concat (map frame ds)"
    using udp_tunnel [OF A k _ B _ fit] up unfolding w b demo_old_sel d by auto
  have "ds = [[9]]" using ds(2,3) by (cases ds) (auto simp: frame_9 split: if_splits)
  then show ?thesis using A B ds(1) d by auto
qed

lemma udp_answered_file:
  "\<exists>u. ux_clients udp_answered demo_id = Some u \<and> uc_stream u = udp_side 1"
proof -
  let ?x = "in_core (\<lambda>k. k\<lparr>k_env := demo_client_env\<rparr>) demo_c3"
  have d: "decoder_push [] (frame [5]) = (True, [], [[5]])" by (rule framing.push_enc) (simp add: kMaxDatagram_def)
  have f: "frame [5] \<noteq> []" by (simp add: frame_def frame_header_def)
  have y: "udp_answered = uproxy_on_stream_data demo_udp_env demo_id (frame [5]) ?x"
    using demo_c3_state(1) [of 1] f
    by (simp add: udp_answered_def client_step_def client_do_def client_stream_data_cb_def kget_def demo_client_env_def)
  show ?thesis
    using uproxy_data_result(2) [OF _ f _ _ y, of _ True "[]" "[[5]]" demo_id] demo_c3_state d by simp
qed

theorem udp_tunnel_back_witness:
  "\<exists>A B v p. session_trace dotted_quad (dial_events (udp_run @ [CeData 1 (frame [5])])) A \<and>
     ep_client (se_endpoint A) = Some udp_answered \<and>
     session_trace dotted_quad (serve_events udp_reply_run) B \<and> ep_server (se_endpoint B) = Some v \<and>
     sv_heap v 0 = Some (UdpBridge p) \<and> sends_to dotted_quad demo_id udp_answered = [[5]] \<and>
     replies (conn_events 0 (serve_events udp_reply_run)) = [[5]]"
proof -
  let ?es = "udp_run @ [CeData 1 (frame [5])]"
  obtain p where p: "serving True udp_reply_run (UdpBridge p)" "wire (u_side p) = frame [5]" using udp_replying by blast
  then obtain B v where B: "session_trace dotted_quad (serve_events udp_reply_run) B"
    "ep_server (se_endpoint B) = Some v" "sv_heap v 0 = Some (UdpBridge p)"
    by (auto simp: serving_def)
  have "dialling ?es udp_answered"
    unfolding udp_answered_def
    by (rule dialling_silent [OF udp_client_run]) (simp_all add: client_enabled_def demo_c3_state silent_def)
  then obtain A where A: "session_trace dotted_quad (dial_events ?es) A" "ep_client (se_endpoint A) = Some udp_answered"
    by (auto simp: dialling_def)
  obtain u where u: "ux_clients udp_answered demo_id = Some u" "uc_stream u = udp_side 1" using udp_answered_file by blast
  have c: "client_data j (client_events (dial_events ?es)) = (if j = 1 then frame [5] else [])" for j
    by (simp add: client_data_def udp_run_def client_data_of_def)
  have al: "alone demo_id 1 (client_events (dial_events ?es)) (ux_side udp_answered)"
    unfolding alone_def c by simp
  have r: "replies (conn_events 0 (serve_events udp_reply_run)) = [[5]]"
    by (simp add: replies_def udp_reply_run_def reply_of_def)
  have s: "subseq (sends_to dotted_quad demo_id udp_answered) [[5]]"
    "frame [5] = concat (map frame (sends_to dotted_quad demo_id udp_answered))"
    using udp_tunnel_back [OF A u al B] unfolding c r p(2) by (simp_all add: kMaxDatagram_def)
  have "frame [5] \<noteq> []" by (simp add: frame_def frame_header_def)
  then have "sends_to dotted_quad demo_id udp_answered = [[5]]"
    using s by (cases "sends_to dotted_quad demo_id udp_answered") (auto split: if_splits)
  then show ?thesis using A B r by blast
qed

end
