(* ===== verification/Hs_Agreement.thy ===== *)
theory Hs_Agreement
  imports Hs_Program
begin

text \<open>
  Who talks to whom, along whole runs of the program: the identity a client dials with and the
  key it asks for never change, a server listens, publishes and looks up under its own key
  alone, and two programs that share a connection string mean the same key.
\<close>

section \<open>The identity of a client\<close>

type_synonym identity = "byte list \<times> byte list \<times> client_config \<times> int"

definition ident :: "client_core \<Rightarrow> identity" where
  "ident k = (k_keypair k, k_target k, k_config k, k_init_error k)"

text \<open>A call that is true to an identity, and a client that has made no other.\<close>

definition fit :: "identity \<Rightarrow> cact \<Rightarrow> bool" where
  "fit i a =
     (case i of (pk, target, cfg, _) \<Rightarrow>
        (case a of
           KDial own remote _ \<Rightarrow> own = (if ck_secure cfg then Some pk else None) \<and> remote = target
         | KGet key \<Rightarrow> key = target
         | _ \<Rightarrow> True))"

definition honest :: "identity \<Rightarrow> client_core \<Rightarrow> bool" where
  "honest i k \<longleftrightarrow> ident k = i \<and> list_all (fit i) (k_acts k)"

lemma honest_kact [simp]: "fit i a \<Longrightarrow> honest i (kact a k) = honest i k"
  by (simp add: honest_def kact_def ident_def)

lemma fit_plain [simp]: "fit i (KLog l m)" "fit i KQueryCancel" "fit i KQueryFree" "fit i (KSocketClose n)"
  "fit i KSuspend" "fit i KResume" "fit i (KListening rc)"
  by (simp_all add: fit_def split: prod.split)

lemma honest_calls:
  assumes "honest i k"
  shows "fit i (KGet (k_target k))" "fit i (KDial (if ck_secure (k_config k) then Some (k_keypair k) else None) (k_target k) r)"
  using assms by (auto simp: honest_def ident_def fit_def)

lemma honest_updates [simp]:
  "honest i (kput j sl k) = honest i k" "honest i (k\<lparr>k_next := n\<rparr>) = honest i k" "honest i (k\<lparr>k_dials := ds\<rparr>) = honest i k"
  "honest i (k\<lparr>k_streams := ds\<rparr>) = honest i k" "honest i (k\<lparr>k_state := st\<rparr>) = honest i k"
  "honest i (k\<lparr>k_env := e\<rparr>) = honest i k" "honest i (k\<lparr>k_record := r, k_record_seq := q\<rparr>) = honest i k"
  "honest i (k\<lparr>k_tcp_proxy := p\<rparr>) = honest i k" "honest i (k\<lparr>k_on_listening := b\<rparr>) = honest i k"
  "honest i (k\<lparr>k_on_listening := b, k_state := st\<rparr>) = honest i k"
  "honest i (k\<lparr>k_query := b\<rparr>) = honest i k" "honest i (k\<lparr>k_destroyed := b\<rparr>) = honest i k"
  "honest i (k\<lparr>k_resolved := rs\<rparr>) = honest i k"
  by (simp_all add: honest_def kput_def ident_def)

lemma honest_conns [simp]:
  "honest i (kemplace j sl k) = honest i k" "honest i (on_conn j f k) = honest i k" "honest i (reap j k) = honest i k"
  "honest i (pipe_event v j k) = honest i k"
proof -
  have r: "honest i (reap j m) = honest i m" for j m by (simp add: reap_def honest_def ident_def split: option.split)
  then show "honest i (reap j k) = honest i k" .
  show "honest i (kemplace j sl k) = honest i k" "honest i (on_conn j f k) = honest i k"
    by (simp_all add: kemplace_def on_conn_def split: option.split)
  show "honest i (pipe_event v j k) = honest i k" by (simp add: pipe_event_def Let_def r split: option.split slot.split)
qed

lemma honest_shutdown [simp]: "honest i (shutdown_core j k) = honest i k"
  by (simp add: shutdown_core_def Let_def split: option.split)

lemma honest_dial:
  assumes "honest i k"
  shows "honest i (fst (begin_dht_connect c k))" "honest i (fst (open_udp_stream k a))" "honest i (on_local_connection b k)"
proof -
  have d: "honest i (fst (begin_dht_connect c' k'))" if "honest i k'" for c' k'
    using that honest_calls(2) [OF that] by (simp add: begin_dht_connect_def Let_def)
  then show "honest i (fst (begin_dht_connect c k))" using assms .
  show "honest i (on_local_connection b k)" using assms by (simp add: on_local_connection_def Let_def d)
  have "honest i (kemplace j sl (k\<lparr>k_next := n\<rparr>))" for j sl n using assms by simp
  from d [OF this] show "honest i (fst (open_udp_stream k a))"
    using assms by (auto simp: open_udp_stream_def Let_def split: prod.split) (metis fst_conv)
qed

lemma honest_write [simp]: "honest i (fst (client_side_write j k bs n)) = honest i k"
  by (simp add: client_side_write_def split: option.split prod.split)

lemma honest_drop: "uc_stream c = udp_side j \<Longrightarrow> honest i (ux_side (uproxy_drop a c x)) = honest i (ux_side x)"
  by (simp add: uproxy_drop_def udp_side_def call_def)

lemma honest_uwrite:
  assumes "uc_stream c = udp_side j"
  shows "honest i (ux_side (uproxy_write a c bs x)) = honest i (ux_side x)"
proof -
  obtain st rc where w: "client_side_write j (ux_side x) (frame bs) None = (st, rc)" by fastforce
  have "honest i st = honest i (ux_side x)" using honest_write [of i j "ux_side x" "frame bs" None] w by simp
  then show ?thesis using assms honest_drop [OF assms] w by (simp add: uproxy_write_def udp_side_def Let_def)
qed

lemma honest_uclient:
  assumes "filed x" and "uproxy_client nm a x = (y, r)" and "honest i (ux_side x)"
  shows "honest i (ux_side y)"
proof -
  have o: "ux_open x = None \<or> ux_open x = Some open_udp_stream" using assms(1) by (simp add: filed_def)
  obtain st sd where s: "open_udp_stream (ux_side x) (client_key nm a) = (st, sd)" by fastforce
  then have t: "honest i st" using honest_dial(2) [OF assms(3), of "client_key nm a"] by simp
  show ?thesis
    using assms(2,3) o s t by (auto simp: uproxy_client_def Let_def split: option.splits if_splits)
qed

lemma honest_recv:
  assumes f: "filed x" and h: "honest i (ux_side x)"
  shows "honest i (ux_side (uproxy_recv_cb e nm nread buf addr partial x))"
proof -
  have "honest i (ux_side (uproxy_write j c bs y))" if "uproxy_client nm a x = (y, Some c)" for a y c j bs
    using told_uclient(2) [OF f that] honest_uclient [OF f that h] honest_uwrite by metis
  moreover have "honest i (ux_side y)" if "uproxy_client nm a x = (y, None)" for a y
    using honest_uclient [OF f that h] .
  ultimately show ?thesis using h by (auto simp: uproxy_recv_cb_def split: option.splits prod.splits)
qed

lemma honest_udata: "filed x \<Longrightarrow> honest i (ux_side (uproxy_on_stream_data e a bs x)) = honest i (ux_side x)"
  using honest_drop [where i = i] filed_get [of x a]
  by (auto simp: uproxy_on_stream_data_def Let_def split: option.splits prod.splits)

lemma honest_in_core [simp]: "honest i (ux_side (in_core f x)) = honest i (f (ux_side x))"
  by (simp add: in_core_def)

lemma uproxy_side [simp]:
  "ux_side (uproxy_close x) = ux_side x" "ux_side (fst (uproxy_listen e h p f x)) = ux_side x"
  "ux_side (uproxy_on_stream_close a x) = ux_side x"
proof -
  have c: "ux_side (uproxy_close y) = ux_side y" for y :: "'a udp_proxy" by (simp add: uproxy_close_def Let_def)
  then show "ux_side (uproxy_close x) = ux_side x" .
  show "ux_side (fst (uproxy_listen e h p f x)) = ux_side x"
    by (simp add: uproxy_listen_def Let_def c split: prod.split option.split)
  show "ux_side (uproxy_on_stream_close a x) = ux_side x" by (simp add: uproxy_on_stream_close_def)
qed

lemma honest_start: "honest i (ux_side x) \<Longrightarrow> honest i (ux_side (fst (start_proxy x)))"
proof -
  assume h: "honest i (ux_side x)"
  obtain y rc where y: "start_proxy x = (announce y rc, rc)"
    "ux_side y = (ux_side x)\<lparr>k_resolved := client_resolve (k_config (ux_side x)) (k_record (ux_side x)),
       k_tcp_proxy := k_tcp_proxy (ux_side y)\<rparr>" by (rule start_proxy_halves)
  have "honest i (ux_side y)" by (subst y(2)) (use h in \<open>simp add: honest_def ident_def\<close>)
  then have "honest i (ux_side (announce y rc))" by (simp add: announce_def Let_def)
  then show ?thesis using y(1) by simp
qed

lemma honest_done: "honest i (ux_side x) \<Longrightarrow> honest i (ux_side (mutable_done_cb x))"
  by (auto simp: mutable_done_cb_def Let_def intro!: honest_start)

lemma honest_connect: "honest i (ux_side x) \<Longrightarrow> honest i (ux_side (fst (client_connect b x)))"
proof -
  assume h: "honest i (ux_side x)"
  then have "fit i (KGet (k_target (ux_side x)))" by (rule honest_calls)
  moreover have "k_target (kact a k) = k_target k" for a k by (simp add: kact_def)
  ultimately show ?thesis using h by (auto simp: client_connect_def Let_def intro!: honest_start)
qed

lemma honest_destroy: "honest i (ux_side x) \<Longrightarrow> honest i (ux_side (client_destroy x))"
proof -
  assume h: "honest i (ux_side x)"
  have c: "honest i (ux_side (cancel_query y))" if "honest i (ux_side y)" for y
    using that by (auto simp: cancel_query_def Let_def intro!: honest_done)
  have f: "honest i (ux_side (fold shutdown_conn is y)) = honest i (ux_side y)" for "is" y
    by (induction "is" arbitrary: y) simp_all
  show ?thesis using h by (simp add: client_destroy_def Let_def f c)
qed

lemma honest_step:
  assumes "filed x" and h: "honest i (ux_side x)"
  shows "honest i (ux_side (client_step nm x (e, v)))"
proof -
  let ?x = "in_core (\<lambda>k. k\<lparr>k_env := e\<rparr>) x"
  have f: "filed ?x" using assms(1) by (simp add: filed_def in_core_def udp_live_def kget_def)
  have m: "honest i (mutable_cb k r) = honest i k" for k r by (simp add: mutable_cb_def split: prod.split option.split)
  have p: "honest i (client_pause k) = honest i k" "honest i (client_resume k) = honest i k" for k
    by (simp_all add: client_pause_def client_resume_def)
  have h': "honest i (ux_side ?x)" using h by simp
  have "honest i (ux_side (client_do nm v ?x))"
  proof (cases v)
    case (CeData j bs)
    then show ?thesis using honest_udata [OF f] h by (simp add: client_do_def client_stream_data_cb_def split: option.split)
  next
    case (CeOpen j)
    then show ?thesis
      using h by (simp add: client_do_def client_stream_open_cb_def on_stream_open_def Let_def split: option.split)
  next
    case (CeDialed j err c op)
    then show ?thesis using h by (simp add: client_do_def client_connect_cb_def Let_def split: option.split)
  next
    case (CeClosed j)
    then show ?thesis using h by (simp add: client_do_def client_stream_close_cb_def Let_def split: option.split slot.split)
  next
    case (CeDrain j n)
    then show ?thesis using h by (simp add: client_do_def client_drain_cb_def split: option.split)
  qed (use h honest_recv [OF f h'] honest_done [OF h'] honest_connect [OF h'] honest_destroy [OF h'] honest_dial(3) in
      \<open>simp_all add: client_do_def m p\<close>)
  then show ?thesis by (simp add: client_step_def)
qed

lemma honest_new: "honest (ident (ux_side (client_new cr e dht cfg))) (ux_side (client_new cr e' dht cfg))"
  by (simp add: client_new_def new_udp_proxy_def Let_def honest_def ident_def kact_def split: option.split)

section \<open>The key of a server\<close>

definition own_act :: "byte list \<Rightarrow> dact \<Rightarrow> bool" where
  "own_act pk a = (case a of DListen key \<Rightarrow> key = pk | DGet key \<Rightarrow> key = pk | DPut key _ _ \<Rightarrow> key = pk | _ \<Rightarrow> True)"

text \<open>It has listened, published and asked for its record under its own key only.\<close>

definition own_key :: "server \<Rightarrow> bool" where
  "own_key s \<longleftrightarrow> list_all (own_act (sv_pk s)) (sv_acts s)"

lemma own_act_simps [simp]: "own_act pk (DListen key) = (key = pk)" "own_act pk (DGet key) = (key = pk)"
  "own_act pk (DPut key r q) = (key = pk)" "own_act pk (DLog l m)" "own_act pk DCreate" "own_act pk DFirewall"
  "own_act pk DReusable" "own_act pk DOnListening" "own_act pk (DTimerStart n)" "own_act pk DTimerStop"
  "own_act pk DSuspend" "own_act pk DResume" "own_act pk DClose" "own_act pk (DListening rc)"
  by (simp_all add: own_act_def)

lemma own_key_simps [simp]:
  "own_key (dact a s) = (own_act (sv_pk s) a \<and> own_key s)"
  "own_key (s\<lparr>sv_srv := b\<rparr>) = own_key s" "own_key (s\<lparr>sv_refresh := b\<rparr>) = own_key s"
  "own_key (s\<lparr>sv_record := r\<rparr>) = own_key s" "own_key (s\<lparr>sv_state := r\<rparr>) = own_key s"
  "own_key (s\<lparr>sv_on_listening := b\<rparr>) = own_key s" "own_key (s\<lparr>sv_conns := cs\<rparr>) = own_key s"
  "own_key (s\<lparr>sv_heap := h\<rparr>) = own_key s" "own_key (s\<lparr>sv_next := n\<rparr>) = own_key s"
  by (auto simp: own_key_def dact_def)

lemma own_key_publish [simp]: "own_key s \<Longrightarrow> own_key (server_publish e s)"
  by (simp add: server_publish_def Let_def)

lemma own_key_step:
  assumes "own_key s"
  shows "own_key (server_step s ev)"
proof (cases "snd ev")
  case (SvStart b)
  then show ?thesis using assms by (simp add: server_step_def server_start_def Let_def)
qed (use assms in \<open>simp_all add: server_step_def listening_cb_def server_pause_def server_resume_def
      server_destroy_def refresh_cb_def get_done_cb_def connection_cb_def Let_def split: option.split\<close>)

lemma server_step_key:
  "sv_pk (server_step s ev) = sv_pk s" "sv_seed (server_step s ev) = sv_seed s" "sv_config (server_step s ev) = sv_config s"
proof -
  have p: "sv_pk (server_publish e t) = sv_pk t" "sv_seed (server_publish e t) = sv_seed t"
    "sv_config (server_publish e t) = sv_config t" for e t
    by (simp_all add: server_publish_def Let_def)
  show "sv_pk (server_step s ev) = sv_pk s" "sv_seed (server_step s ev) = sv_seed s" "sv_config (server_step s ev) = sv_config s"
    by (cases "snd ev"; simp add: server_step_def listening_cb_def server_pause_def server_resume_def
      server_destroy_def refresh_cb_def get_done_cb_def connection_cb_def p Let_def split: option.split)+
qed

lemma own_key_new: "server_new cr rnd dht cfg = Inr s \<Longrightarrow> own_key s"
  by (auto simp: server_new_def Let_def own_key_def dact_def split: option.splits if_splits)

section \<open>A run of the program\<close>

text \<open>The runs of a program that uses the cryptography \<open>cr\<close>.\<close>

definition program_begin :: "hs_crypto \<Rightarrow> session \<Rightarrow> bool" where
  "program_begin cr s \<longleftrightarrow>
     (\<exists>rnd rnd' loop_ok rc1 rc2 created ce e opts.
        length rnd = 32 \<and> run_endpoint cr rnd rnd' loop_ok rc1 rc2 created ce e opts = Running s)"

definition program_trace :: "hs_crypto \<Rightarrow> (u32 \<Rightarrow> string) \<Rightarrow> (session_env \<times> session_event) list \<Rightarrow> session \<Rightarrow> bool" where
  "program_trace cr nm = machine.trace (session_step nm) session_enabled (program_begin cr)"

lemma program_begin_session: "program_begin cr s \<Longrightarrow> session_begin s"
  unfolding program_begin_def session_begin_def by blast

interpretation program_machine: machine "session_step nm" session_enabled "program_begin cr" "session_inv nm"
  by unfold_locales (rule session_inv_begin, erule program_begin_session, rule session_inv_step)

lemma program_trace_snoc:
  "program_trace cr nm evs s \<Longrightarrow> session_enabled s ev \<Longrightarrow> program_trace cr nm (evs @ [ev]) (session_step nm s ev)"
  unfolding program_trace_def by (rule program_machine.trace_snoc)

definition server_true :: "hs_crypto \<Rightarrow> derived \<Rightarrow> server \<Rightarrow> bool" where
  "server_true cr d s \<longleftrightarrow> own_key s \<and> sv_pk s = fst (c_keypair cr (sv_seed s)) \<and>
     cf_secure (sv_config s) = de_secure d \<and> (de_key d \<noteq> [] \<longrightarrow> sv_seed s = sha256 (c_sha256 cr) (de_key d))"

definition client_true :: "hs_crypto \<Rightarrow> endpoint \<Rightarrow> client \<Rightarrow> bool" where
  "client_true cr x c \<longleftrightarrow> (\<exists>e. honest (ident (ux_side (client_new cr e True (client_config_of x)))) (ux_side c))"

definition truthful :: "hs_crypto \<Rightarrow> endpoint \<Rightarrow> bool" where
  "truthful cr x \<longleftrightarrow>
     (\<exists>rnd. length rnd = 32 \<and> ep_derived x = derive cr rnd (ep_options x)) \<and>
     (\<forall>s. ep_server x = Some s \<longrightarrow> op_server (ep_options x) \<and> server_true cr (ep_derived x) s) \<and>
     (\<forall>c. ep_client x = Some c \<longrightarrow> \<not> op_server (ep_options x) \<and> client_true cr x c)"

lemma client_true_cong: "ep_options y = ep_options x \<Longrightarrow> ep_derived y = ep_derived x \<Longrightarrow> client_true cr y c = client_true cr x c"
  by (simp add: client_true_def client_config_of_def)

lemma client_true_update [simp]:
  "client_true cr (x\<lparr>ep_server := s\<rparr>) c = client_true cr x c" "client_true cr (x\<lparr>ep_client := d\<rparr>) c = client_true cr x c"
  by (rule client_true_cong; simp)+

lemma truthful_keeps:
  assumes t: "truthful cr x" and k: "keeps x y"
  shows "truthful cr y"
proof -
  have o: "ep_options y = ep_options x" "ep_derived y = ep_derived x" using k by (simp_all add: keeps_def)
  have "ep_server y = Some s \<Longrightarrow> ep_server x = Some s" "ep_client y = Some c \<Longrightarrow> ep_client x = Some c" for s c
    using k by (auto simp: keeps_def)
  then show ?thesis using t by (simp add: truthful_def o client_true_cong [OF o])
qed

lemma truthful_ready:
  assumes x: "endpoint_new cr rnd opts = Inr x" and "length rnd = 32" and "crypto_law cr"
    and y: "endpoint_ready cr rnd' created se ce True x = (y, Inr rc)"
  shows "truthful cr y"
proof -
  note n = endpoint_new_Inr [OF x]
  let ?x = "x\<lparr>ep_dht := True, ep_created := Suc (ep_created x), ep_opened := True\<rparr>" and ?d = "derive cr rnd opts"
  have o: "ep_options y = opts" "ep_derived y = ?d"
    using y n by (auto simp: endpoint_ready_def Let_def split: prod.splits sum.splits if_splits)
  have s: "server_true cr ?d s \<and> op_server opts" if "ep_server y = Some s" for s
  proof -
    have b: "op_server opts" "created"
      using y n that by (auto simp: endpoint_ready_def Let_def split: prod.splits if_splits)
    obtain s0 where s0: "server_new cr rnd' True (server_config ?x) = Inr s0"
      using y n(2,4) b by (cases "server_new cr rnd' True (server_config ?x)") (simp_all add: endpoint_ready_def Let_def)
    then have "y = ?x\<lparr>ep_server := Some (fst (server_start se True s0))\<rparr>"
      using y n(2,4) b by (cases "server_start se True s0") (simp add: endpoint_ready_def Let_def)
    then have s: "s = server_step s0 (se, SvStart True)" using that by (simp add: server_step_def)
    note f = server_new_Inr [OF s0]
    have cfg: "cf_seed_hex (server_config ?x) = de_seed_hex ?d" "cf_secure (server_config ?x) = de_secure ?d"
      by (simp_all add: server_config_def Let_def n)
    have "sv_seed s0 = sha256 (c_sha256 cr) (de_key ?d)" if "de_key ?d \<noteq> []"
    proof -
      have "cf_seed_hex (server_config ?x) = hash_hex cr (de_key ?d)"
        using derive_server(1) [OF b(1) assms(2), of cr] that by (simp add: cfg)
      then show ?thesis using f(1) hash_hex_nonempty [OF assms(3)] by (simp add: seeded_def)
    qed
    moreover have "cf_secure (sv_config s0) = de_secure ?d" by (simp add: f(4) seeded_def cfg)
    ultimately show ?thesis
      using b f(3) own_key_step [OF own_key_new [OF s0]] by (simp add: server_true_def s server_step_key)
  qed
  have c: "client_true cr y c \<and> \<not> op_server opts" if "ep_client y = Some c" for c
  proof -
    have "\<not> op_server opts" and "c = fst (client_connect True (client_new cr ce True (client_config_of ?x)))"
      using y n that by (auto simp: endpoint_ready_def Let_def split: prod.splits sum.splits if_splits)
    moreover have "client_config_of ?x = client_config_of y" using n o by (simp add: client_config_of_def)
    ultimately show ?thesis
      using honest_connect [OF honest_new [of cr ce True "client_config_of y" ce], of True] by (auto simp: client_true_def)
  qed
  show ?thesis using s c assms(2) by (auto simp: truthful_def o)
qed

lemma truthful_begin: "crypto_law cr \<Longrightarrow> program_begin cr s \<Longrightarrow> truthful cr (se_endpoint s)"
  unfolding program_begin_def by (blast elim: run_endpoint_keeps intro: truthful_keeps truthful_ready)

lemma truthful_event:
  assumes t: "truthful cr (se_endpoint s)" and i: "session_inv nm s" and en: "session_enabled s (e, v)"
  shows "truthful cr (after_event nm v (se_endpoint s))"
proof (cases v)
  case (SnServer w)
  obtain z where z: "ep_server (se_endpoint s) = Some z" using en unfolding SnServer by (rule enabled_server)
  have "server_true cr (ep_derived (se_endpoint s)) z" using t z by (simp add: truthful_def)
  then have "server_true cr (ep_derived (se_endpoint s)) (server_step z w)"
    using own_key_step by (simp add: server_true_def server_step_key)
  then show ?thesis using t z SnServer by (auto simp: truthful_def after_event_def)
next
  case (SnClient w)
  obtain z where z: "ep_client (se_endpoint s) = Some z" using en unfolding SnClient by (rule enabled_client)
  have "endpoint_inv nm (se_endpoint s)" using i by (simp add: session_inv_def session_ok_def endpoint_reachable_inv)
  then have "client_reachable nm z" using z by (simp add: endpoint_inv_def)
  then have "filed z" using client_reachable_inv by (auto simp: client_inv_def sound_def)
  moreover have "client_true cr (se_endpoint s) z" using t z by (simp add: truthful_def)
  ultimately have "client_true cr (se_endpoint s) (client_step nm z w)"
    unfolding client_true_def by (cases w) (blast intro: honest_step)
  then show ?thesis using t z SnClient by (auto simp: truthful_def after_event_def)
qed (use t in \<open>simp add: after_event_def\<close>)

lemma program_truthful:
  assumes "crypto_law cr" and "program_trace cr nm evs s"
  shows "truthful cr (se_endpoint s)"
proof -
  have "program_machine.trace nm cr evs s \<Longrightarrow> truthful cr (se_endpoint s)"
  proof (induction rule: program_machine.trace.induct)
    case (trace_nil s)
    then show ?case by (rule truthful_begin [OF assms(1)])
  next
    case (trace_snoc evs s ev)
    then have "truthful cr (after_event nm (snd ev) (se_endpoint s))"
      using truthful_event [of cr s nm "fst ev" "snd ev"] program_machine.trace_inv by simp
    then show ?case using step_keeps by (rule truthful_keeps)
  qed
  then show ?thesis using assms(2) by (simp add: program_trace_def)
qed

section \<open>Properties\<close>

text \<open>The connection string a program with a server shows.\<close>

lemma shown_url:
  assumes "truthful cr x" and "ep_server x = Some s"
  shows "in_url (ep_info (endpoint_info x)) =
    make_url (cf_secure (sv_config s)) (if cf_secure (sv_config s) then de_key (ep_derived x) else z32_encode (sv_pk s))"
    and "cf_secure (sv_config s) \<Longrightarrow> sv_pk s = fst (c_keypair cr (sha256 (c_sha256 cr) (de_key (ep_derived x))))"
proof -
  obtain rnd where d: "length rnd = 32" "ep_derived x = derive cr rnd (ep_options x)" "op_server (ep_options x)"
    and t: "server_true cr (ep_derived x) s"
    using assms by (auto simp: truthful_def)
  have "cf_secure (sv_config s) \<Longrightarrow> de_key (ep_derived x) \<noteq> []"
    using derive_server(2) [OF d(3,1), of cr] t by (simp add: d(2) server_true_def)
  then show "in_url (ep_info (endpoint_info x)) =
      make_url (cf_secure (sv_config s)) (if cf_secure (sv_config s) then de_key (ep_derived x) else z32_encode (sv_pk s))"
    and "cf_secure (sv_config s) \<Longrightarrow> sv_pk s = fst (c_keypair cr (sha256 (c_sha256 cr) (de_key (ep_derived x))))"
    using t assms(2) by (auto simp: info_url server_true_def server_key_def)
qed

text \<open>The identity of a client that was given that string.\<close>

lemma given_identity:
  assumes "truthful cr x" and "ep_client x = Some c" and "op_key (ep_options x) = Some (make_url sec key)"
    and "op_secure (ep_options x) \<noteq> Some True \<or> sec"
    and "sec \<and> pk = fst (c_keypair cr (sha256 (c_sha256 cr) key)) \<or> \<not> sec \<and> key = z32_encode pk \<and> length pk = 32"
  obtains own cfg where "honest (own, pk, cfg, 0) (ux_side c)" "ck_secure cfg = sec" "sec \<Longrightarrow> own = pk"
proof -
  obtain rnd e where d: "ep_derived x = derive cr rnd (ep_options x)" "\<not> op_server (ep_options x)"
    and h: "honest (ident (ux_side (client_new cr e True (client_config_of x)))) (ux_side c)"
    using assms(1,2) by (auto simp: truthful_def client_true_def)
  have cfg: "ck_secure (client_config_of x) = sec" "ck_key (client_config_of x) = key"
    using assms(4) derive_client [OF d(2) assms(3), of cr rnd]
    by (auto simp: client_config_of_def Let_def d(1) value_or_def split: option.split)
  show thesis
  proof (cases sec)
    case True
    then have "ident (ux_side (client_new cr e True (client_config_of x))) = (pk, pk, client_config_of x, 0)"
      using assms(5) cfg by (simp add: client_new_def new_udp_proxy_def ident_def Let_def)
    with h show thesis using that [of pk "client_config_of x"] cfg by simp
  next
    case False
    then have "ident (ux_side (client_new cr e True (client_config_of x))) = (replicate 32 0, pk, client_config_of x, 0)"
      using assms(5) cfg by (simp add: client_new_def new_udp_proxy_def ident_def z32_decode_encode Let_def)
    with h show thesis using that [of "replicate 32 0" "client_config_of x"] cfg False by simp
  qed
qed

text \<open>
  C2: Two programs that share a connection string meet, whatever has happened in both. Take any
  run of a program with a server and any run of a program with a client whose key option is the
  string the first shows (and, for a public one, without forcing private mode). Then the client
  is usable; every query and every dial it has ever made was for the server's public key, which
  is the only key the server has listened on, asked for or published its record under; in
  private mode every dial carried an identity that the server's firewall accepts, and in public
  mode none.
\<close>

theorem program_agreement:
  assumes "crypto_law cr"
    and "program_trace cr nm evs A" and "ep_client (se_endpoint A) = Some c"
    and "program_trace cr nm' fs B" and "ep_server (se_endpoint B) = Some s"
    and "op_key (ep_options (se_endpoint A)) = Some (in_url (ep_info (endpoint_info (se_endpoint B))))"
    and "op_secure (ep_options (se_endpoint A)) \<noteq> Some True \<or> cf_secure (sv_config s)"
  defines "calls \<equiv> set (k_acts (ux_side c))"
  shows "k_init_error (ux_side c) = 0 \<and>
    (\<forall>own remote rel. KDial own remote rel \<in> calls \<longrightarrow>
       remote = sv_pk s \<and> (if cf_secure (sv_config s) then firewall_cb own s = 0 else own = None)) \<and>
    (\<forall>key. KGet key \<in> calls \<longrightarrow> key = sv_pk s) \<and>
    (\<forall>key. DListen key \<in> set (sv_acts s) \<or> DGet key \<in> set (sv_acts s) \<or> (\<exists>r q. DPut key r q \<in> set (sv_acts s)) \<longrightarrow>
       key = sv_pk s)"
proof -
  have A: "truthful cr (se_endpoint A)" and B: "truthful cr (se_endpoint B)"
    using program_truthful [OF assms(1)] assms(2,4) by blast+
  have t: "server_true cr (ep_derived (se_endpoint B)) s" using B assms(5) by (simp add: truthful_def)
  have "length (sv_pk s) = 32" using t assms(1) by (simp add: server_true_def crypto_law_def)
  then obtain own cfg where h: "honest (own, sv_pk s, cfg, 0) (ux_side c)"
    "ck_secure cfg = cf_secure (sv_config s)" "cf_secure (sv_config s) \<Longrightarrow> own = sv_pk s"
  proof -
    let ?sec = "cf_secure (sv_config s)" and ?key = "de_key (ep_derived (se_endpoint B))"
    have k: "op_key (ep_options (se_endpoint A)) = Some (make_url ?sec (if ?sec then ?key else z32_encode (sv_pk s)))"
      using assms(6) unfolding shown_url(1) [OF B assms(5)] .
    have "?sec \<and> sv_pk s = fst (c_keypair cr (sha256 (c_sha256 cr) (if ?sec then ?key else z32_encode (sv_pk s)))) \<or>
        \<not> ?sec \<and> (if ?sec then ?key else z32_encode (sv_pk s)) = z32_encode (sv_pk s) \<and> length (sv_pk s) = 32"
      using shown_url(2) [OF B assms(5)] \<open>length (sv_pk s) = 32\<close> by (cases ?sec) (simp_all only: if_True if_False simp_thms)
    from given_identity [OF A assms(3) k assms(7) this] show thesis using that by blast
  qed
  have "list_all (own_act (sv_pk s)) (sv_acts s)" using t unfolding server_true_def own_key_def by blast
  then have "own_act (sv_pk s) a" if "a \<in> set (sv_acts s)" for a using that by (simp add: list_all_iff)
  moreover have "fit (own, sv_pk s, cfg, 0) a" if "a \<in> calls" for a
    using h(1) that by (simp add: honest_def list_all_iff calls_def)
  moreover have "k_init_error (ux_side c) = 0" using h(1) by (simp add: honest_def ident_def)
  ultimately show ?thesis using h(2,3) by (fastforce simp: fit_def own_act_def firewall_cb_def)
qed

section \<open>Witness\<close>

text \<open>A client in private mode asks for the record, listens, accepts one local connection and dials.\<close>

definition peer_options :: "string \<Rightarrow> options" where
  "peer_options url = (demo_options False False)\<lparr>op_client := True, op_secure := None, op_key := Some url\<rparr>"

definition peer_config :: "string \<Rightarrow> client_config" where
  "peer_config key = \<lparr>ck_key = key, ck_secure = True, ck_port = Some 22, ck_host = Some ''127.0.0.1'', ck_udp = None\<rparr>"

definition peer_0 :: "string \<Rightarrow> client" where
  "peer_0 key = fst (client_connect True (client_new demo_crypto demo_client_env True (peer_config key)))"

definition peer_1 :: "string \<Rightarrow> client" where
  "peer_1 key = client_step dotted_quad (peer_0 key) (demo_client_env, CeDone)"

definition peer_2 :: "string \<Rightarrow> client" where
  "peer_2 key = client_step dotted_quad (peer_1 key) (demo_client_env, CeAccept 0 0 0)"

lemma peer_0_state: "client_connect True (client_new demo_crypto demo_client_env True (peer_config key)) = (peer_0 key, 0)"
  "listening_of (k_acts (ux_side (peer_0 key))) = []" "client_enabled (peer_0 key) (demo_client_env, CeDone)"
  by (simp_all add: peer_0_def client_connect_def client_new_def new_udp_proxy_def new_proxy_def demo_client_env_def
      peer_config_def kact_def listening_of_def client_enabled_def Let_def)

lemma peer_1_state: "listening_of (k_acts (ux_side (peer_1 key))) = [0]" "k_conns (ux_side (peer_1 key)) = []"
  "k_next (ux_side (peer_1 key)) = 1" "k_dht (ux_side (peer_1 key))" "\<not> k_destroyed (ux_side (peer_1 key))"
  "px_handle (k_tcp_proxy (ux_side (peer_1 key)))" "px_on_connection (k_tcp_proxy (ux_side (peer_1 key)))"
  by (simp_all add: peer_1_def peer_0_def peer_config_def client_run_defs demo_client_defs client_new_def in_core_def
      new_udp_proxy_def kact_def new_proxy_def proxy_listen_def resolve_def resolve_ip4_def loopback_resolver_def uv_codes
      listening_of_def)

lemma peer_2_state: "\<exists>own. KDial own (k_target (ux_side (peer_1 key))) True \<in> set (k_acts (ux_side (peer_2 key)))"
  "listening_of (k_acts (ux_side (peer_2 key))) = [0]"
proof -
  show "\<exists>own. KDial own (k_target (ux_side (peer_1 key))) True \<in> set (k_acts (ux_side (peer_2 key)))"
    by (simp add: peer_2_def peer_1_state client_run_defs proxy_connection_cb_def
      on_local_connection_def new_client_conn_def demo_client_env_def kact_def in_core_def begin_dht_connect_def)
      blast
  have "told (ux_side (peer_2 key)) = told (ux_side (peer_1 key))"
    by (simp add: peer_2_def client_step_def client_do_def)
  then show "listening_of (k_acts (ux_side (peer_2 key))) = [0]" by (simp add: told_def peer_1_state)
qed

lemma program_trace_start:
  assumes "run_endpoint cr rnd rnd' loop_ok rc1 rc2 created ce e opts = Running s" and "length rnd = 32"
  shows "program_trace cr nm [] s"
  unfolding program_trace_def
  by (rule program_machine.trace_nil) (use assms in \<open>unfold program_begin_def, blast\<close>)

definition peer_events :: "(session_env \<times> session_event) list" where
  "peer_events = [(demo_session_env, SnClient (demo_client_env, CeDone)),
     (demo_session_env, SnClient (demo_client_env, CeAccept 0 0 0))]"

lemma peer_running:
  "\<exists>A. program_trace demo_crypto dotted_quad peer_events A \<and> ep_client (se_endpoint A) = Some (peer_2 key) \<and>
     ep_options (se_endpoint A) = peer_options (make_url True key)"
proof -
  let ?o = "peer_options (make_url True key)" and ?k = "replicate 32 (7 :: byte)"
  have "make_url True key \<noteq> []" by (simp add: make_url_def)
  then obtain x where x: "endpoint_new demo_crypto ?k ?o = Inr x"
    by (simp add: endpoint_new_def validate_opts_def peer_options_def demo_options_def)
  note n = endpoint_new_Inr [OF x]
  let ?x = "x\<lparr>ep_dht := True, ep_created := Suc (ep_created x), ep_opened := True\<rparr>"
  have cfg: "client_config_of ?x = peer_config key"
    by (simp add: client_config_of_def Let_def n derive_def peer_options_def peer_config_def demo_options_def value_or_def)
  have e: "endpoint_ready demo_crypto [] True (so_server demo_session_env) demo_client_env True x =
      (?x\<lparr>ep_client := Some (peer_0 key)\<rparr>, Inr 0)"
    using n cfg peer_0_state(1) by (simp add: endpoint_ready_def Let_def peer_options_def demo_options_def)
  have r: "reports (?x\<lparr>ep_client := Some (peer_0 key)\<rparr>) = []"
    using n peer_0_state(2) by (simp add: reports_def listening_of_def)
  obtain A where run: "run_endpoint demo_crypto ?k [] True 0 0 True demo_client_env demo_session_env ?o = Running A"
    and A: "se_endpoint A = ?x\<lparr>ep_client := Some (peer_0 key)\<rparr>"
    using x e r by (simp add: run_endpoint_def new_session_def report_new_def Let_def)
  have t0: "program_trace demo_crypto dotted_quad [] A" by (rule program_trace_start [OF run]) simp
  have s0: "ep_server (se_endpoint A) = None" "ep_client (se_endpoint A) = Some (peer_0 key)"
    "ep_options (se_endpoint A) = ?o" using n by (simp_all add: A)
  let ?B = "session_step dotted_quad A (demo_session_env, SnClient (demo_client_env, CeDone))"
  have t1: "program_trace demo_crypto dotted_quad [(demo_session_env, SnClient (demo_client_env, CeDone))] ?B"
    using program_trace_snoc [OF t0 client_event_enabled [OF s0(2) peer_0_state(3)], of demo_session_env] by simp
  have "list_all ((\<le>) 0) (drop (length (listening_of (k_acts (ux_side (peer_0 key)))))
      (listening_of (k_acts (ux_side (client_step dotted_quad (peer_0 key) (demo_client_env, CeDone))))))"
    by (simp add: peer_1_def [symmetric] peer_1_state peer_0_state)
  note s1 = client_event_result [OF s0(1,2) this, of demo_session_env, folded peer_1_def]
  have en: "client_enabled (peer_1 key) (demo_client_env, CeAccept 0 0 0)" by (simp add: client_enabled_def peer_1_state)
  let ?C = "session_step dotted_quad ?B (demo_session_env, SnClient (demo_client_env, CeAccept 0 0 0))"
  have t2: "program_trace demo_crypto dotted_quad peer_events ?C"
    using program_trace_snoc [OF t1 client_event_enabled [OF s1(2) en], of demo_session_env] by (simp add: peer_events_def)
  have "list_all ((\<le>) 0) (drop (length (listening_of (k_acts (ux_side (peer_1 key)))))
      (listening_of (k_acts (ux_side (client_step dotted_quad (peer_1 key) (demo_client_env, CeAccept 0 0 0))))))"
    by (simp add: peer_2_def [symmetric] peer_1_state peer_2_state)
  note s2 = client_event_result [OF s1(1,2) this, of demo_session_env, folded peer_2_def]
  show ?thesis using t2 s2 s1 s0 by auto
qed

theorem program_agreement_witness:
  "\<exists>A B c s own. program_trace demo_crypto dotted_quad peer_events A \<and> ep_client (se_endpoint A) = Some c \<and>
     program_trace demo_crypto dotted_quad [] B \<and> ep_server (se_endpoint B) = Some s \<and> cf_secure (sv_config s) \<and>
     KDial own (sv_pk s) True \<in> set (k_acts (ux_side c)) \<and> firewall_cb own s = 0"
proof -
  obtain B s where B: "run_endpoint demo_crypto (replicate 32 7) (replicate 32 9) True 0 0 True demo_client_env
      demo_session_env (serve_options False) = Running B" "ep_server (se_endpoint B) = Some s"
    and d: "ep_derived (se_endpoint B) = derive demo_crypto (replicate 32 7) (serve_options False)"
    by (rule serve_running)
  have tB: "program_trace demo_crypto dotted_quad [] B" by (rule program_trace_start [OF B(1)]) simp
  note u = program_truthful [OF demo_crypto_law tB]
  have sec: "cf_secure (sv_config s)"
  proof -
    have "cf_secure (sv_config s) = de_secure (ep_derived (se_endpoint B))"
      using u B(2) by (simp add: truthful_def server_true_def)
    then show ?thesis
      unfolding d by (simp add: derive_def serve_options_def demo_options_def value_or_def parse_url_def kProtocol_def Let_def)
  qed
  let ?key = "de_key (ep_derived (se_endpoint B))"
  have url: "in_url (ep_info (endpoint_info (se_endpoint B))) = make_url True ?key"
    using shown_url(1) [OF u B(2)] sec by simp
  obtain A where A: "program_trace demo_crypto dotted_quad peer_events A" "ep_client (se_endpoint A) = Some (peer_2 ?key)"
    "ep_options (se_endpoint A) = peer_options (make_url True ?key)"
    using peer_running by blast
  obtain own remote where dial: "KDial own remote True \<in> set (k_acts (ux_side (peer_2 ?key)))"
    using peer_2_state(1) by blast
  have "op_key (ep_options (se_endpoint A)) = Some (in_url (ep_info (endpoint_info (se_endpoint B))))"
    by (simp add: A(3) url peer_options_def)
  from program_agreement [OF demo_crypto_law A(1,2) tB B(2) this] sec dial
  have "remote = sv_pk s \<and> firewall_cb own s = 0" by auto
  then show ?thesis using A(1,2) tB B(2) sec dial by blast
qed

end
