(* ===== verification/Spec2Isabelle.thy ===== *)
theory Spec2Isabelle
  imports Hs_Prelude Hs_Keys Hs_Record Hs_Frame Hs_Logger Hs_Addr Hs_Pipe Hs_Udp Hs_Udp_Proxy
    Hs_Server_Conn Hs_Server Hs_Pipe_Owner Hs_Client_Conn
    Hs_Client Hs_Client_Inv Hs_Client_Run Hs_Client_Props Hs_Endpoint
    Hs_Endpoint_Props Hs_Lookup Hs_Cli Hs_Cli_Props Hs_Session
    Hs_Flow Hs_Server_Flow Hs_Client_Flow Hs_Udp_Flow Hs_Udp_Reply
    Hs_Server_Run Hs_Program Hs_Tunnel Hs_Agreement
begin

text \<open>
  holesail-cpp: a verification development.

  \<^bold>\<open>The program.\<close> holesail exposes a local TCP or UDP service to a peer that knows a short
  connection string, through encrypted streams over the HyperDHT. One end is a server: it
  derives a key pair from a seed, announces itself, publishes a record with its host, port and
  protocol, and bridges each inbound stream to the local service. The other end is a client: it
  derives the same key from the string, looks the record up, listens locally and dials one
  stream for each local connection or, over UDP, for each local address. A facade chooses and
  owns the end, a command line drives the facade. Everything runs on one libuv loop, in
  callbacks; state is shared between them through reference-counted boxes.

  \<^bold>\<open>How it is modelled.\<close> The file names below are under \<^verbatim>\<open>src/src\<close>, with their headers under
  \<^verbatim>\<open>src/include/holesail\<close>. Pure code is functions on words, byte lists and strings. A class is a
  record with the class's fields, a method or callback is a function from state to state, a
  status code an \<^verbatim>\<open>int\<close>, an exception a sum. What the code asks of libuv or of hyperdht is
  appended to a trace in the state (\<open>act\<close>, \<open>uact\<close> and the like), what these answer comes with
  an environment at each call, so it ranges over everything they may answer. A component
  driven by callbacks is an instance of the locale \<open>machine\<close> of \<open>Hs_Prelude\<close>: a step
  function, an enabling condition that states when libuv or hyperdht runs a callback, the
  initial states, an invariant. \<open>reach\<close> and \<open>trace\<close> of that locale are the reachable
  states and the runs, so a property of reachable states is one of every interleaving.

  \<^bold>\<open>The theories.\<close>
  \<^item> \<open>Hs_Prelude\<close>: bytes, status codes, decimal texts, and the interfaces shared by the
    components: \<open>codec\<close> and \<open>canonical_codec\<close> (round trips), \<open>teardown\<close> (idempotent
    destruction), \<open>machine\<close>, \<open>incremental\<close> (decoders fed in chunks), \<open>newest\<close> (folding
    the replies of a query).
  \<^item> \<open>Hs_Keys\<close> (\<^verbatim>\<open>keys.cpp\<close>): z-base-32, hexadecimal, \<^verbatim>\<open>hs://\<close> strings. \<open>Hs_Record\<close>
    (\<^verbatim>\<open>record.cpp\<close>): the JSON record, byte by byte. \<open>Hs_Frame\<close> (\<^verbatim>\<open>udp_pipe.cpp\<close>,
    \<^verbatim>\<open>frame\<close> and \<^verbatim>\<open>FrameDecoder\<close>). \<open>Hs_Logger\<close> (\<^verbatim>\<open>logger.cpp\<close>, \<^verbatim>\<open>colors.hpp\<close>).
    \<open>Hs_Addr\<close> (\<^verbatim>\<open>addr.cpp\<close>).
  \<^item> \<open>Hs_Pipe\<close> (\<^verbatim>\<open>pipe.cpp\<close>): \<^verbatim>\<open>TcpPipe\<close> with its flow control and its teardown, and
    \<^verbatim>\<open>TcpProxy\<close>. A pipe is generic in the state of its owner, which it reaches only through
    the closures of a \<open>stream_side\<close>. \<open>Hs_Pipe_Owner\<close> is the owner's side of that contract
    (locales \<open>pipe_owner\<close>, \<open>pipe_closer\<close>).
  \<^item> \<open>Hs_Udp\<close> and \<open>Hs_Udp_Proxy\<close> (\<^verbatim>\<open>udp_pipe.cpp\<close>): \<^verbatim>\<open>UdpPipe\<close> of the server and
    \<^verbatim>\<open>UdpProxy\<close> of the client.
  \<^item> \<open>Hs_Server_Conn\<close> (\<^verbatim>\<open>server.cpp\<close>): one inbound connection with its two owners, the
    pre-open buffer and the withheld drain callbacks, composed with the pipes. \<open>Hs_Server\<close>:
    the rest of \<^verbatim>\<open>HolesailServer\<close>: identity, firewall, listening, publishing, teardown.
  \<^item> \<open>Hs_Client_Conn\<close>, \<open>Hs_Client\<close> (\<^verbatim>\<open>client.cpp\<close>): one outbound connection, then
    \<^verbatim>\<open>HolesailClient\<close> with its query, its proxies and its map of connections;
    \<open>Hs_Client_Inv\<close> and \<open>Hs_Client_Run\<close> hold the invariant and its preservation by every
    callback, \<open>Hs_Client_Props\<close> what follows.
  \<^item> \<open>Hs_Endpoint\<close>, \<open>Hs_Endpoint_Props\<close> (\<^verbatim>\<open>holesail.cpp\<close>): options, derivation, the
    facade, the deferred freeing of a DHT. \<open>Hs_Lookup\<close>: \<^verbatim>\<open>Holesail::lookup\<close>.
  \<^item> \<open>Hs_Cli\<close>, \<open>Hs_Cli_Props\<close> (\<^verbatim>\<open>cli.cpp\<close>): the argument reader, validation, options,
    help, reports, dispatch. \<open>Hs_Session\<close>: \<^verbatim>\<open>run_endpoint\<close> with its signals, \<^verbatim>\<open>run_lookup\<close>.
  \<^item> \<open>Hs_Flow\<close>, \<open>Hs_Server_Flow\<close>, \<open>Hs_Client_Flow\<close>: the bytes a TCP connection carries
    along a run, through the interface \<open>pipe_carrier\<close>; \<open>Hs_Udp_Flow\<close>, \<open>Hs_Udp_Reply\<close>: the datagrams a UDP
    connection carries there and back; \<open>Hs_Server_Run\<close> and \<open>Hs_Program\<close>: a run of the
    server as runs of its connections, a run of the program as one of its server or its
    client; \<open>Hs_Tunnel\<close> composes two runs of the program. \<open>Hs_Agreement\<close>: the keys that
    two programs with one connection string use, along their runs.

  \<^bold>\<open>What is shown.\<close>
  \<^item> The tunnel: bytes over TCP and datagrams over UDP arrive unaltered, in order, without
    repetition, both ways, in any two runs of the program, with any callbacks and signals and
    whatever their other connections do (C1, C9, C10);
    two programs that share a string mean the same key in every query and dial they make, and
    only the right client passes the firewall (C2, C11).
  \<^item> Lifetime: no callback finds a freed connection, on either end (C3, C5); the DHT is owned
    by one place and freed once (C6, C27); teardown is complete and final at every level (C15,
    C17, C18); a run of the program ends in order (C16); a lookup answers once (C13).
  \<^item> Flow control and buffers: C4, C7, C19, C25, C38. UDP files and isolation: C22, C23.
  \<^item> Codecs: C8, C24, C30, C31, C32, C33, C34. The record and the sequence rule: C12, C14, C20,
    C21, C26, C29. Options and errors of the command line: C28, C35, C36, C37.
  \<^item> C38, C39 and C40 establish behaviour that the comments or the help contradict: a greeting
    that loses bytes at the cap, a late close that cuts off a newer stream, and \<^verbatim>\<open>--public\<close>
    with a value.

  \<^bold>\<open>Parameters.\<close> libsodium's hash, key pair and random generator (\<open>hs_crypto\<close>); hyperdht's
  answers, the time at which its callbacks run, and, in the tunnel theorems, that a stream
  delivers in order a beginning of what was written to it; libuv's status codes, error texts,
  resolver and address printer; the clock of the logger; the QR generator. Nothing is assumed
  of the hash or of the key pair beyond what a statement names.

  \<^bold>\<open>Bounds.\<close> No definition takes fuel: every loop is structural or has a termination proof.
  The constants are the code's: 65535 bytes of datagram, 64 KiB and 256 KiB marks, 16 passes of
  the loop while a DHT drains. Connection numbers are 64-bit words, and an accept or a dial is
  enabled only below \<^verbatim>\<open>2^64 - 1\<close> of them. Sizes in bytes are naturals where the code has
  \<^verbatim>\<open>size_t\<close> and a list in memory bounds them.

  \<^bold>\<open>Not modelled.\<close> \<^verbatim>\<open>app/main.cpp\<close> copies \<^verbatim>\<open>argv\<close> and calls the command line. The vendored
  \<^verbatim>\<open>qrcodegen\<close>, the tests and the build files are no logic of the program. Allocation,
  destruction of requests and buffers and \<^verbatim>\<open>shared_ptr\<close> counts are modelled only as far as
  they decide whether an object is alive when a callback runs.
\<close>

end
